(* ===== verification/VH_Prelude.thy ===== *)
theory VH_Prelude
  imports Main "HOL-Library.Word" "HOL-Library.Product_Lexorder" "HOL-Library.Multiset"
begin

text \<open>
  Shared vocabulary of the development: the fixed-width integers of the C code, the error
  numbers its operations return, arrays that are strictly ascending in a key, the binary search
  loop that the kernel module repeats over such arrays, and the C string comparisons.

  The search loop is written once, over any key, because its text is the same at each of its
  uses (\<^verbatim>\<open>vpnhide_uid_matches_mode\<close>, \<^verbatim>\<open>is_hook_active\<close>, \<^verbatim>\<open>vpnhide_find_port_target\<close>,
  \<^verbatim>\<open>record_kmod_intercept\<close> and others in kmod/main.c); each use is a definition of its own in
  the theory of its component. The locale \<open>keyed_lookup\<close> is the contract those uses rely on.
\<close>

unbundle bit_operations_syntax

section \<open>Machine types and error numbers\<close>

type_synonym u8 = "8 word"
type_synonym u16 = "16 word"
type_synonym u32 = "32 word"
type_synonym u64 = "64 word"
type_synonym uid_t = u32

datatype errno =
    EPERM | ENOENT | EAGAIN | ENOMEM | EFAULT | EINVAL | ENODEV | ENOSPC | ENOTTY
  | EOVERFLOW | EPROTONOSUPPORT | ENOBUFS | ECONNREFUSED | ENOIOCTLCMD | ERESTARTSYS | EBADF
  | EIO | ETIMEDOUT

named_theorems vh_simps
named_theorems vh_splits
named_theorems snapshot_wf_rules

section \<open>Arrays ascending in a key, and the binary search over them\<close>

definition ascending :: "('e \<Rightarrow> 'k::linorder) \<Rightarrow> 'e list \<Rightarrow> bool" where
  "ascending key xs = sorted_wrt (\<lambda>a b. key a < key b) xs"

datatype probe = Hit nat | Miss nat

function bsearch :: "('e \<Rightarrow> 'k::linorder) \<Rightarrow> 'e list \<Rightarrow> 'k \<Rightarrow> int \<Rightarrow> int \<Rightarrow> probe" where
  "bsearch key xs k lo hi =
     (if hi < lo then Miss (nat lo)
      else let mid = lo + (hi - lo) div 2; here = key (xs ! nat mid) in
        if here = k then Hit (nat mid)
        else if here < k then bsearch key xs k (mid + 1) hi
        else bsearch key xs k lo (mid - 1))"
  by pat_completeness auto
termination
  by (relation "measure (\<lambda>(key, xs, k, lo, hi). nat (hi - lo + 1))") auto

declare bsearch.simps [simp del]

text \<open>The indices the loop reads, in order.\<close>

function bsearch_reads :: "('e \<Rightarrow> 'k::linorder) \<Rightarrow> 'e list \<Rightarrow> 'k \<Rightarrow> int \<Rightarrow> int \<Rightarrow> int list" where
  "bsearch_reads key xs k lo hi =
     (if hi < lo then []
      else let mid = lo + (hi - lo) div 2; here = key (xs ! nat mid) in
        mid # (if here = k then []
               else if here < k then bsearch_reads key xs k (mid + 1) hi
               else bsearch_reads key xs k lo (mid - 1)))"
  by pat_completeness auto
termination
  by (relation "measure (\<lambda>(key, xs, k, lo, hi). nat (hi - lo + 1))") auto

declare bsearch_reads.simps [simp del]

definition search :: "('e \<Rightarrow> 'k::linorder) \<Rightarrow> 'e list \<Rightarrow> 'k \<Rightarrow> probe" where
  "search key xs k = bsearch key xs k 0 (int (length xs) - 1)"

definition entry :: "('e \<Rightarrow> 'k::linorder) \<Rightarrow> 'e list \<Rightarrow> 'k \<Rightarrow> 'e option" where
  "entry key xs k = (case search key xs k of Hit i \<Rightarrow> Some (xs ! i) | Miss _ \<Rightarrow> None)"

lemma ascending_Nil [simp]: "ascending key []"
  by (simp add: ascending_def)

lemma ascending_Cons [simp]:
  "ascending key (x # xs) \<longleftrightarrow> (\<forall>y \<in> set xs. key x < key y) \<and> ascending key xs"
  by (simp add: ascending_def)

lemma ascending_append:
  "ascending key (xs @ ys) \<longleftrightarrow>
     ascending key xs \<and> ascending key ys \<and> (\<forall>x \<in> set xs. \<forall>y \<in> set ys. key x < key y)"
  by (auto simp: ascending_def sorted_wrt_append)

lemma ascending_nth: "ascending key xs \<Longrightarrow> i < j \<Longrightarrow> j < length xs \<Longrightarrow> key (xs ! i) < key (xs ! j)"
  by (simp add: ascending_def sorted_wrt_iff_nth_less)

lemma ascending_filter: "ascending key xs \<Longrightarrow> ascending key (filter P xs)"
  by (induction xs) auto

lemma ascending_take: "ascending key xs \<Longrightarrow> ascending key (take n xs)"
  by (simp add: ascending_def sorted_wrt_take)

lemma ascending_drop: "ascending key xs \<Longrightarrow> ascending key (drop n xs)"
  by (simp add: ascending_def sorted_wrt_drop)

lemma ascending_distinct: "ascending key xs \<Longrightarrow> distinct (map key xs)"
  by (induction xs) auto

lemma ascending_key_inj:
  "ascending key xs \<Longrightarrow> x \<in> set xs \<Longrightarrow> y \<in> set xs \<Longrightarrow> key x = key y \<Longrightarrow> x = y"
  using ascending_distinct [of key xs] by (simp add: distinct_map inj_on_def)

lemma ascending_map: "ascending key (map f xs) = ascending (\<lambda>x. key (f x)) xs"
  by (induction xs) auto

lemma ascending_id_iff: "ascending (\<lambda>x. x) xs \<longleftrightarrow> sorted xs \<and> distinct xs"
  by (induction xs) (auto simp: less_le)

lemma bsearch_sound:
  "bsearch key xs k lo hi = Hit i \<Longrightarrow> 0 \<le> lo \<Longrightarrow> hi < int (length xs) \<Longrightarrow>
     i < length xs \<and> key (xs ! i) = k"
proof (induction key xs k lo hi rule: bsearch.induct)
  case (1 key xs k lo hi)
  let ?mid = "lo + (hi - lo) div 2"
  show ?case
  proof (cases "hi < lo")
    case True
    then show ?thesis using "1.prems" by (simp add: bsearch.simps [of key xs k lo hi])
  next
    case False
    then have "lo \<le> ?mid" "?mid \<le> hi" by auto
    then show ?thesis using False "1.prems" "1.IH" [OF False refl refl]
      by (subst (asm) bsearch.simps) (auto simp: Let_def nat_less_iff split: if_splits)
  qed
qed

lemma bsearch_Miss:
  "bsearch key xs k lo hi = Miss p \<Longrightarrow> ascending key xs \<Longrightarrow> 0 \<le> lo \<Longrightarrow> lo \<le> hi + 1 \<Longrightarrow>
   hi < int (length xs) \<Longrightarrow>
   (\<forall>i < nat lo. key (xs ! i) < k) \<Longrightarrow> (\<forall>i. hi < int i \<longrightarrow> i < length xs \<longrightarrow> k < key (xs ! i)) \<Longrightarrow>
   p \<le> length xs \<and> (\<forall>i < p. key (xs ! i) < k) \<and> (\<forall>i. p \<le> i \<longrightarrow> i < length xs \<longrightarrow> k < key (xs ! i))"
proof (induction key xs k lo hi rule: bsearch.induct)
  case (1 key xs k lo hi)
  let ?mid = "lo + (hi - lo) div 2"
  show ?case
  proof (cases "hi < lo")
    case True
    then have "p = nat lo" using "1.prems"(1) by (simp add: bsearch.simps [of key xs k lo hi])
    then show ?thesis using True "1.prems" by auto
  next
    case False
    then have mid: "lo \<le> ?mid" "?mid \<le> hi" by auto
    from False "1.prems"(1) have ne: "key (xs ! nat ?mid) \<noteq> k"
      by (auto simp: bsearch.simps [of key xs k lo hi] Let_def)
    show ?thesis
    proof (cases "key (xs ! nat ?mid) < k")
      case True
      have low: "key (xs ! i) < k" if "i < nat (?mid + 1)" for i
      proof (cases "i = nat ?mid")
        case False
        with that mid "1.prems" have "key (xs ! i) < key (xs ! nat ?mid)"
          by (intro ascending_nth) auto
        with True show ?thesis by simp
      qed (use True in simp)
      from False True ne "1.prems"(1) have "bsearch key xs k (?mid + 1) hi = Miss p"
        by (auto simp: bsearch.simps [of key xs k lo hi] Let_def)
      from "1.IH"(1) [OF False refl refl ne True this "1.prems"(2)] mid low "1.prems" show ?thesis
        by auto
    next
      case ge: False
      have high: "k < key (xs ! i)" if "?mid - 1 < int i" "i < length xs" for i
      proof (cases "i = nat ?mid")
        case False
        with that mid "1.prems" have "key (xs ! nat ?mid) < key (xs ! i)"
          by (intro ascending_nth) auto
        with ge ne show ?thesis by auto
      qed (use ge ne in auto)
      from False ge ne "1.prems"(1) have "bsearch key xs k lo (?mid - 1) = Miss p"
        by (auto simp: bsearch.simps [of key xs k lo hi] Let_def)
      from "1.IH"(2) [OF False refl refl ne ge this "1.prems"(2)] mid high "1.prems" show ?thesis
        by auto
    qed
  qed
qed

lemma bsearch_reads_bounds:
  "0 \<le> lo \<Longrightarrow> hi < n \<Longrightarrow> \<forall>m \<in> set (bsearch_reads key xs k lo hi). 0 \<le> m \<and> m < n"
proof (induction key xs k lo hi rule: bsearch_reads.induct)
  case (1 key xs k lo hi)
  show ?case
  proof (cases "hi < lo")
    case True
    then show ?thesis by (simp add: bsearch_reads.simps [of key xs k lo hi])
  next
    case False
    with "1.prems" "1.IH" [OF False refl refl] show ?thesis
      by (subst bsearch_reads.simps) (auto simp: Let_def)
  qed
qed

lemma search_Hit:
  assumes "search key xs k = Hit i"
  shows "i < length xs" and "key (xs ! i) = k"
  using bsearch_sound [of key xs k 0 "int (length xs) - 1" i] assms by (auto simp: search_def)

lemma search_Miss:
  assumes "search key xs k = Miss p" and "ascending key xs"
  shows "p \<le> length xs" and "\<And>i. i < p \<Longrightarrow> key (xs ! i) < k"
    and "\<And>i. p \<le> i \<Longrightarrow> i < length xs \<Longrightarrow> k < key (xs ! i)"
  using bsearch_Miss [of key xs k 0 "int (length xs) - 1" p] assms by (auto simp: search_def)

lemma entry_Some_iff:
  assumes "ascending key xs"
  shows "entry key xs k = Some e \<longleftrightarrow> e \<in> set xs \<and> key e = k"
proof (cases "search key xs k")
  case (Hit i)
  with search_Hit [OF Hit] assms show ?thesis
    by (auto simp: entry_def intro: ascending_key_inj)
next
  case (Miss p)
  have "key x \<noteq> k" if "x \<in> set xs" for x
  proof -
    from that obtain i where "i < length xs" "x = xs ! i" by (auto simp: in_set_conv_nth)
    with search_Miss(2) [OF Miss assms, of i] search_Miss(3) [OF Miss assms, of i] show ?thesis
      by (cases "i < p") auto
  qed
  with Miss show ?thesis by (auto simp: entry_def)
qed

lemma entry_None_iff:
  assumes "ascending key xs"
  shows "entry key xs k = None \<longleftrightarrow> k \<notin> key ` set xs"
  by (cases "entry key xs k") (use entry_Some_iff [OF assms, of k] in \<open>auto simp: image_iff\<close>)

lemma entry_Nil [simp]: "entry key [] k = None"
  by (simp add: entry_def search_def bsearch.simps)

text \<open>
  The contract the users of a sorted array rely on: an array that satisfies the invariant is
  searched exactly, and the search is about membership alone.
\<close>

locale keyed_lookup =
  fixes key :: "'e \<Rightarrow> 'k::linorder"
    and lookup :: "'e list \<Rightarrow> 'k \<Rightarrow> 'e option"
  assumes lookup_Some: "ascending key xs \<Longrightarrow> lookup xs k = Some e \<longleftrightarrow> e \<in> set xs \<and> key e = k"
begin

lemma lookup_None: "ascending key xs \<Longrightarrow> lookup xs k = None \<longleftrightarrow> k \<notin> key ` set xs"
  by (cases "lookup xs k") (use lookup_Some [of xs k] in \<open>auto simp: image_iff\<close>)

lemma lookup_map_of:
  "ascending key xs \<Longrightarrow> lookup xs k = map_of (map (\<lambda>e. (key e, e)) xs) k"
proof -
  assume asc: "ascending key xs"
  then have d: "distinct (map fst (map (\<lambda>e. (key e, e)) xs))"
    using ascending_distinct [OF asc] by (simp add: comp_def)
  show ?thesis
  proof (cases "lookup xs k")
    case None
    with lookup_None [OF asc, of k] show ?thesis
      by (force simp: map_of_eq_None_iff intro!: sym [of _ None])
  next
    case (Some e)
    with lookup_Some [OF asc, of k e] have "(k, e) \<in> set (map (\<lambda>e. (key e, e)) xs)" by auto
    with d Some show ?thesis using map_of_is_SomeI by fastforce
  qed
qed

lemma lookup_set_cong:
  "ascending key xs \<Longrightarrow> ascending key ys \<Longrightarrow> set xs = set ys \<Longrightarrow> lookup xs k = lookup ys k"
  using lookup_Some [of xs k] lookup_Some [of ys k]
  by (cases "lookup xs k"; cases "lookup ys k") auto

end

interpretation entry_lookup: keyed_lookup key "entry key" for key :: "'e \<Rightarrow> 'k::linorder"
  by unfold_locales (rule entry_Some_iff)

section \<open>Sorting by a key\<close>

text \<open>
  The kernel's \<^verbatim>\<open>sort()\<close> and the C library's \<^verbatim>\<open>qsort()\<close> are not stable; every use in this
  program either rejects equal keys afterwards or compares all fields the result depends on, so
  the stable \<open>sort_key\<close> computes the same accepted result.
\<close>

fun has_adjacent_dup :: "'a list \<Rightarrow> bool" where
  "has_adjacent_dup (x # y # zs) = (x = y \<or> has_adjacent_dup (y # zs))"
| "has_adjacent_dup _ = False"

lemma sorted_no_dup_ascending:
  "sorted (map key xs) \<Longrightarrow> \<not> has_adjacent_dup (map key xs) \<Longrightarrow> ascending key xs"
proof (induction xs)
  case (Cons x xs)
  then show ?case
    by (cases xs) (auto simp: less_le intro: order_trans)
qed simp

lemma ascending_no_dup: "ascending key xs \<Longrightarrow> \<not> has_adjacent_dup (map key xs)"
proof (induction xs)
  case (Cons x xs)
  then show ?case by (cases xs) auto
qed simp

lemma ascending_sorted: "ascending key xs \<Longrightarrow> sorted (map key xs)"
  by (induction xs) (auto intro: less_imp_le)

lemma sort_key_ascending:
  "\<not> has_adjacent_dup (map key (sort_key key xs)) \<Longrightarrow> ascending key (sort_key key xs)"
  by (rule sorted_no_dup_ascending) simp_all

lemma distinct_sort_key_ascending:
  "distinct (map key xs) \<Longrightarrow> ascending key (sort_key key xs)"
proof -
  assume d: "distinct (map key xs)"
  have "mset (map key (sort_key key xs)) = mset (map key xs)" by simp
  with d have "distinct (map key (sort_key key xs))" by (metis mset_eq_imp_distinct_iff)
  moreover have "sorted (map key (sort_key key xs))" by simp
  ultimately have "ascending (\<lambda>x. x) (map key (sort_key key xs))" by (simp add: ascending_id_iff)
  then show ?thesis by (simp add: ascending_map)
qed

section \<open>Loops that may fail\<close>

text \<open>
  \<open>each f xs s\<close> is a loop over \<open>xs\<close> that updates the state \<open>s\<close> and leaves with the first error.
\<close>

fun each :: "('a \<Rightarrow> 's \<Rightarrow> 'e + 's) \<Rightarrow> 'a list \<Rightarrow> 's \<Rightarrow> 'e + 's" where
  "each f [] s = Inr s"
| "each f (x # xs) s = (case f x s of Inl e \<Rightarrow> Inl e | Inr s' \<Rightarrow> each f xs s')"

lemma each_append: "each f (xs @ ys) s = (case each f xs s of Inl e \<Rightarrow> Inl e | Inr s' \<Rightarrow> each f ys s')"
  by (induction xs arbitrary: s) (auto split: sum.split)

lemma each_map: "each f (map g xs) s = each (\<lambda>x. f (g x)) xs s"
  by (induction xs arbitrary: s) (auto split: sum.split)

lemma each_cong: "(\<And>x s. x \<in> set xs \<Longrightarrow> f x s = g x s) \<Longrightarrow> each f xs s = each g xs s"
  by (induction xs arbitrary: s) (auto split: sum.split)

lemma each_invariant:
  assumes "\<And>x s s'. x \<in> set xs \<Longrightarrow> I s \<Longrightarrow> f x s = Inr s' \<Longrightarrow> I s'"
  shows "I s \<Longrightarrow> each f xs s = Inr s' \<Longrightarrow> I s'"
  using assms
proof (induction xs arbitrary: s)
  case (Cons x xs)
  from Cons.prems(2) obtain s1 where s1: "f x s = Inr s1" "each f xs s1 = Inr s'" by (auto split: sum.splits)
  have "I s1" using Cons.prems(3) [of x s s1] Cons.prems(1) s1 by simp
  then show ?case by (rule Cons.IH [OF _ s1(2)]) (use Cons.prems(3) in auto)
qed simp

lemma each_simulates:
  assumes "\<And>x s s'. x \<in> set xs \<Longrightarrow> f x s = Inr s' \<Longrightarrow> view s' = g x (view s)"
  shows "each f xs s = Inr s' \<Longrightarrow> view s' = fold g xs (view s)"
  using assms
proof (induction xs arbitrary: s)
  case (Cons x xs)
  from Cons.prems(1) obtain s1 where s1: "f x s = Inr s1" "each f xs s1 = Inr s'" by (auto split: sum.splits)
  have "view s' = fold g xs (view s1)" by (rule Cons.IH [OF s1(2)]) (use Cons.prems(2) in auto)
  then show ?case using Cons.prems(2) [of x s s1] s1 by simp
qed simp

lemma each_total:
  assumes "\<And>x s. x \<in> set xs \<Longrightarrow> I s \<Longrightarrow> \<exists>s'. f x s = Inr s' \<and> I s'"
  shows "I s \<Longrightarrow> \<exists>s'. each f xs s = Inr s' \<and> I s'"
  using assms
proof (induction xs arbitrary: s)
  case (Cons x xs)
  from Cons.prems(2) [of x s] Cons.prems(1) obtain s1 where "f x s = Inr s1" "I s1" by auto
  with Cons.IH [of s1] Cons.prems(2) show ?case by auto
qed simp

lemma each_skips: "each (\<lambda>x s. case h x of None \<Rightarrow> Inr s | Some y \<Rightarrow> f y s) xs s = each f (List.map_filter h xs) s"
  by (induction xs arbitrary: s) (auto split: option.split sum.split)

text \<open>
  A loop that keeps one result per key, made from the first element with that key that qualifies.
\<close>

lemma each_first_wins:
  assumes step: "\<And>x s s'. f x s = Inr s' \<Longrightarrow>
      items s' = items s \<and> (\<not> P x \<or> key x \<in> ykey ` set (items s)) \<or>
      P x \<and> key x \<notin> ykey ` set (items s) \<and> (\<exists>y. R x y \<and> items s' = items s @ [y])"
    and same_key: "\<And>x y. R x y \<Longrightarrow> ykey y = key x"
  shows "each f xs s = Inr s' \<Longrightarrow> distinct (map ykey (items s)) \<Longrightarrow>
    distinct (map ykey (items s')) \<and> ykey ` set (items s') = ykey ` set (items s) \<union> key ` {x \<in> set xs. P x} \<and>
    (\<forall>y \<in> set (items s'). y \<in> set (items s) \<or> ykey y \<notin> ykey ` set (items s) \<and>
       (\<exists>x. find (\<lambda>x. P x \<and> key x = ykey y) xs = Some x \<and> R x y))"
proof (induction xs arbitrary: s)
  case (Cons x xs)
  from Cons.prems(1) obtain s1 where s1: "f x s = Inr s1" "each f xs s1 = Inr s'" by (auto split: sum.splits)
  have keys: "key ` {z \<in> set (x # xs). P z} = (if P x then {key x} else {}) \<union> key ` {z \<in> set xs. P z}" by auto
  from step [OF s1(1)] consider (skip) "items s1 = items s" "\<not> P x \<or> key x \<in> ykey ` set (items s)"
    | (fresh) y where "P x" "key x \<notin> ykey ` set (items s)" "R x y" "items s1 = items s @ [y]" by blast
  then show ?case
  proof cases
    case skip
    note IH = Cons.IH [OF s1(2), unfolded skip(1), OF Cons.prems(2)]
    have "y \<in> set (items s) \<or> ykey y \<notin> ykey ` set (items s) \<and>
        (\<exists>z. find (\<lambda>z. P z \<and> key z = ykey y) (x # xs) = Some z \<and> R z y)" if "y \<in> set (items s')" for y
    proof -
      from IH that consider "y \<in> set (items s)" | "ykey y \<notin> ykey ` set (items s)"
        "\<exists>z. find (\<lambda>z. P z \<and> key z = ykey y) xs = Some z \<and> R z y" by blast
      then show ?thesis
      proof cases
        case 2
        then have "\<not> (P x \<and> key x = ykey y)" using skip(2) by metis
        with 2 show ?thesis unfolding find.simps by presburger
      qed simp
    qed
    then show ?thesis using IH skip(2) by (simp only: keys) auto
  next
    case (fresh y0)
    have k: "ykey y0 = key x" by (rule same_key [OF fresh(3)])
    have d: "distinct (map ykey (items s1))" using Cons.prems(2) fresh(2) k by (simp add: fresh(4))
    note IH = Cons.IH [OF s1(2) d]
    have "y \<in> set (items s) \<or> ykey y \<notin> ykey ` set (items s) \<and>
        (\<exists>z. find (\<lambda>z. P z \<and> key z = ykey y) (x # xs) = Some z \<and> R z y)" if "y \<in> set (items s')" for y
    proof -
      from IH that consider "y \<in> set (items s)" | "y = y0" | "ykey y \<notin> ykey ` set (items s1)"
        "\<exists>z. find (\<lambda>z. P z \<and> key z = ykey y) xs = Some z \<and> R z y" by (auto simp: fresh(4))
      then show ?thesis using fresh k by cases (simp_all add: fresh(4), metis)
    qed
    then show ?thesis using IH fresh(1) k by (simp only: keys) (simp add: fresh(4) insert_commute)
  qed
qed simp

section \<open>Masks\<close>

lemma unat_and_mask:
  assumes "k \<le> 32" shows "unat (w AND (2 ^ k - 1) :: 32 word) = unat w mod 2 ^ k"
proof -
  have "w AND (2 ^ k - 1) = take_bit k w"
    by (simp add: take_bit_eq_mask mask_eq_decr_exp)
  then have "unat (w AND (2 ^ k - 1)) = unat (take_bit k w)" by (rule arg_cong)
  also have "\<dots> = take_bit k (unat w)" by (rule unsigned_take_bit_eq)
  finally show ?thesis by (simp only: take_bit_eq_mod)
qed

section \<open>C strings\<close>

text \<open>
  A C string is the list of its characters before the terminating NUL; \<open>c_string\<close> reads one out
  of a fixed-size character array (the whole array when it has no NUL), and \<open>strncmp_eq n\<close> is
  \<^verbatim>\<open>strncmp(a, b, n) == 0\<close>.
\<close>

definition NUL :: char where
  "NUL = CHR 0x00"

definition c_string :: "string \<Rightarrow> string" where
  "c_string xs = takeWhile (\<lambda>c. c \<noteq> NUL) xs"

definition strncmp_eq :: "nat \<Rightarrow> string \<Rightarrow> string \<Rightarrow> bool" where
  "strncmp_eq n a b = (take n (c_string a) = take n (c_string b))"

definition strcmp_eq :: "string \<Rightarrow> string \<Rightarrow> bool" where
  "strcmp_eq a b = (c_string a = c_string b)"

lemma c_string_no_NUL [simp]: "NUL \<notin> set (c_string xs)"
  by (auto simp: c_string_def dest: set_takeWhileD)

lemma c_string_idem [simp]: "c_string (c_string xs) = c_string xs"
  by (simp add: c_string_def takeWhile_idem)

lemma c_string_id: "NUL \<notin> set xs \<Longrightarrow> c_string xs = xs"
  by (auto simp: c_string_def takeWhile_eq_all_conv)

lemma c_string_append_NUL [simp]: "c_string (xs @ NUL # ys) = c_string xs"
  by (simp add: c_string_def takeWhile_tail)

lemma strncmp_eq_refl [simp]: "strncmp_eq n a a"
  by (simp add: strncmp_eq_def)

lemma strncmp_eq_sym: "strncmp_eq n a b = strncmp_eq n b a"
  by (auto simp: strncmp_eq_def)

lemma strncmp_eq_trans: "strncmp_eq n a b \<Longrightarrow> strncmp_eq n b c \<Longrightarrow> strncmp_eq n a c"
  by (simp add: strncmp_eq_def)

end
