(* ===== verification/Policy_Types.thy ===== *)
theory Policy_Types
  imports VH_Prelude
begin

text \<open>
  The policy data of kmod/include/vpnhide.h and kmod/vpnhide_kmod.h: the C structures that make
  up a policy payload, the immutable snapshot the kernel publishes, the hook numbering, and the
  byte layout of the structures (little endian, the padding written out as the reserved fields
  the structures declare). Lemmas: every structure reads back from its own bytes, alone and as
  an element of an array.
\<close>

section \<open>Constants\<close>

abbreviation (input) VH_PROTO_TCP :: u8 where "VH_PROTO_TCP \<equiv> 0"
abbreviation (input) VH_PROTO_UDP :: u8 where "VH_PROTO_UDP \<equiv> 1"
abbreviation (input) VH_PROTO_BOTH :: u8 where "VH_PROTO_BOTH \<equiv> 2"
abbreviation (input) VH_PORT_POLICY_RULES :: u8 where "VH_PORT_POLICY_RULES \<equiv> 0"
abbreviation (input) VH_PORT_POLICY_UNRESTRICTED :: u8 where "VH_PORT_POLICY_UNRESTRICTED \<equiv> 1"
abbreviation (input) VH_PORT_POLICY_DENY_ALL :: u8 where "VH_PORT_POLICY_DENY_ALL \<equiv> 2"
abbreviation (input) VPNHIDE_MATCH_INCLUDE :: u32 where "VPNHIDE_MATCH_INCLUDE \<equiv> 0"
abbreviation (input) VPNHIDE_MATCH_EXCLUDE :: u32 where "VPNHIDE_MATCH_EXCLUDE \<equiv> 1"
abbreviation (input) MAX_IFACE_PREFIXES :: nat where "MAX_IFACE_PREFIXES \<equiv> 32"
abbreviation (input) MAX_IFACE_LEN :: nat where "MAX_IFACE_LEN \<equiv> 16"
abbreviation (input) MAX_ACTIVE_VPNS :: nat where "MAX_ACTIVE_VPNS \<equiv> 16"
abbreviation (input) VPNHIDE_LEGACY_TARGET_UIDS :: nat where "VPNHIDE_LEGACY_TARGET_UIDS \<equiv> 512"
abbreviation (input) VPNHIDE_LEGACY_PORT_RULES_PER_UID :: nat where
  "VPNHIDE_LEGACY_PORT_RULES_PER_UID \<equiv> 16"
abbreviation (input) VPNHIDE_POLICY_MAX_BYTES :: nat where "VPNHIDE_POLICY_MAX_BYTES \<equiv> 16777216"

section \<open>Hook numbering\<close>

datatype vpnhide_hook_idx =
    HOOK_DEV_IOCTL | HOOK_SOCK_IOCTL | HOOK_RTNL_FILL | HOOK_INET6_FILL | HOOK_INET_FILL
  | HOOK_FIB_ROUTE | HOOK_IPV6_ROUTE | HOOK_FIB_DUMP | HOOK_FIB_RULE_FILL | HOOK_RT6_FILL
  | HOOK_RT_FILL | HOOK_SETSOCKOPT | HOOK_GETSOCKOPT | HOOK_CONNECT | HOOK_GETNAME_INET
  | HOOK_GETNAME_INET6 | HOOK_BIND | HOOK_BPF | HOOK_GETDENTS64 | HOOK_FACCESSAT
  | HOOK_FACCESSAT2 | HOOK_NEWFSTATAT | HOOK_OPENAT | HOOK_OPENAT2 | HOOK_READLINKAT
  | HOOK_UDP_SENDMSG | HOOK_DEV_SEQ | HOOK_IF6_SEQ | HOOK_INET6_BIND_LL | HOOK_UDPV6_SENDMSG
  | HOOK_FIB_TRIE | HOOK_TC_FILL_QDISC

fun hook_bit :: "vpnhide_hook_idx \<Rightarrow> nat" where
  "hook_bit HOOK_DEV_IOCTL = 0" | "hook_bit HOOK_SOCK_IOCTL = 1"
| "hook_bit HOOK_RTNL_FILL = 2" | "hook_bit HOOK_INET6_FILL = 3"
| "hook_bit HOOK_INET_FILL = 4" | "hook_bit HOOK_FIB_ROUTE = 5"
| "hook_bit HOOK_IPV6_ROUTE = 6" | "hook_bit HOOK_FIB_DUMP = 7"
| "hook_bit HOOK_FIB_RULE_FILL = 8" | "hook_bit HOOK_RT6_FILL = 9"
| "hook_bit HOOK_RT_FILL = 10" | "hook_bit HOOK_SETSOCKOPT = 11"
| "hook_bit HOOK_GETSOCKOPT = 12" | "hook_bit HOOK_CONNECT = 13"
| "hook_bit HOOK_GETNAME_INET = 14" | "hook_bit HOOK_GETNAME_INET6 = 15"
| "hook_bit HOOK_BIND = 16" | "hook_bit HOOK_BPF = 17"
| "hook_bit HOOK_GETDENTS64 = 18" | "hook_bit HOOK_FACCESSAT = 19"
| "hook_bit HOOK_FACCESSAT2 = 20" | "hook_bit HOOK_NEWFSTATAT = 21"
| "hook_bit HOOK_OPENAT = 22" | "hook_bit HOOK_OPENAT2 = 23"
| "hook_bit HOOK_READLINKAT = 24" | "hook_bit HOOK_UDP_SENDMSG = 25"
| "hook_bit HOOK_DEV_SEQ = 26" | "hook_bit HOOK_IF6_SEQ = 27"
| "hook_bit HOOK_INET6_BIND_LL = 28" | "hook_bit HOOK_UDPV6_SENDMSG = 29"
| "hook_bit HOOK_FIB_TRIE = 30" | "hook_bit HOOK_TC_FILL_QDISC = 31"

definition port_hook_bits :: u32 where
  "port_hook_bits = push_bit (hook_bit HOOK_CONNECT) 1 OR push_bit (hook_bit HOOK_BIND) 1"

lemma hook_bit_less: "hook_bit h < 32"
  by (cases h) simp_all

lemma hook_bit_inj: "hook_bit a = hook_bit b \<Longrightarrow> a = b"
  by (cases a; cases b; simp)

section \<open>The structures\<close>

record port_rule_v3 =
  start_port :: u16
  end_port :: u16
  rule_protocol :: u8
  rule_reserved :: "u8 \<times> u8 \<times> u8"

record port_target_v3 =
  target_uid :: u32
  first_rule :: u32
  rule_count :: u32
  target_mode :: u8
  target_reserved :: "u8 \<times> u8 \<times> u8"

record app_hook_mask_v3 =
  mask_uid :: u32
  kernel_mask :: u32
  java_mask :: u32
  has_kernel_override :: u8
  has_java_override :: u8
  mask_reserved :: "u8 \<times> u8"

record policy_section =
  section_offset :: u32
  section_count :: u32

record policy_snapshot =
  active_hooks_mask :: u32
  java_hooks_mask :: u32
  debug_enabled :: u32
  policy_flags :: u32
  kmod_match_mode :: u32
  lsposed_match_mode :: u32
  port_match_mode :: u32
  iface_count :: u32
  iface_prefixes :: "u8 list"
  kmod_uids :: "uid_t list"
  lsposed_uids :: "uid_t list"
  port_targets :: "port_target_v3 list"
  port_rules :: "port_rule_v3 list"
  app_hook_masks :: "app_hook_mask_v3 list"

section \<open>Byte layout\<close>

definition u16_bytes :: "u16 \<Rightarrow> u8 list" where
  "u16_bytes w = [ucast w, ucast (drop_bit 8 w)]"

definition u32_bytes :: "u32 \<Rightarrow> u8 list" where
  "u32_bytes w = [ucast w, ucast (drop_bit 8 w), ucast (drop_bit 16 w), ucast (drop_bit 24 w)]"

definition get_u8 :: "u8 list \<Rightarrow> nat \<Rightarrow> u8" where
  "get_u8 bs off = (case drop off bs of b # _ \<Rightarrow> b | [] \<Rightarrow> 0)"

definition get_u16 :: "u8 list \<Rightarrow> nat \<Rightarrow> u16" where
  "get_u16 bs off = ucast (get_u8 bs off) OR push_bit 8 (ucast (get_u8 bs (off + 1)))"

definition get_u32 :: "u8 list \<Rightarrow> nat \<Rightarrow> u32" where
  "get_u32 bs off =
     ucast (get_u8 bs off) OR push_bit 8 (ucast (get_u8 bs (off + 1))) OR
     push_bit 16 (ucast (get_u8 bs (off + 2))) OR push_bit 24 (ucast (get_u8 bs (off + 3)))"

definition put_rule :: "port_rule_v3 \<Rightarrow> u8 list" where
  "put_rule r = u16_bytes (start_port r) @ u16_bytes (end_port r) @ [rule_protocol r,
     fst (rule_reserved r), fst (snd (rule_reserved r)), snd (snd (rule_reserved r))]"

definition get_rule :: "u8 list \<Rightarrow> port_rule_v3" where
  "get_rule bs = \<lparr>start_port = get_u16 bs 0, end_port = get_u16 bs 2, rule_protocol = get_u8 bs 4,
     rule_reserved = (get_u8 bs 5, get_u8 bs 6, get_u8 bs 7)\<rparr>"

definition put_target :: "port_target_v3 \<Rightarrow> u8 list" where
  "put_target t = u32_bytes (target_uid t) @ u32_bytes (first_rule t) @ u32_bytes (rule_count t) @
     [target_mode t, fst (target_reserved t), fst (snd (target_reserved t)),
      snd (snd (target_reserved t))]"

definition get_target :: "u8 list \<Rightarrow> port_target_v3" where
  "get_target bs = \<lparr>target_uid = get_u32 bs 0, first_rule = get_u32 bs 4, rule_count = get_u32 bs 8,
     target_mode = get_u8 bs 12, target_reserved = (get_u8 bs 13, get_u8 bs 14, get_u8 bs 15)\<rparr>"

definition put_mask :: "app_hook_mask_v3 \<Rightarrow> u8 list" where
  "put_mask m = u32_bytes (mask_uid m) @ u32_bytes (kernel_mask m) @ u32_bytes (java_mask m) @
     [has_kernel_override m, has_java_override m, fst (mask_reserved m), snd (mask_reserved m)]"

definition get_mask :: "u8 list \<Rightarrow> app_hook_mask_v3" where
  "get_mask bs = \<lparr>mask_uid = get_u32 bs 0, kernel_mask = get_u32 bs 4, java_mask = get_u32 bs 8,
     has_kernel_override = get_u8 bs 12, has_java_override = get_u8 bs 13,
     mask_reserved = (get_u8 bs 14, get_u8 bs 15)\<rparr>"

text \<open>Reading \<open>n\<close> consecutive elements of \<open>esize\<close> bytes each, as the section copies do.\<close>

definition get_array :: "nat \<Rightarrow> (u8 list \<Rightarrow> 'e) \<Rightarrow> u8 list \<Rightarrow> nat \<Rightarrow> nat \<Rightarrow> 'e list" where
  "get_array esize get bs off n = map (\<lambda>i. get (take esize (drop (off + i * esize) bs))) [0..<n]"

section \<open>Round trips of the layout\<close>

lemma get_u8_append: "get_u8 (xs @ ys) off =
    (if off < length xs then xs ! off else get_u8 ys (off - length xs))"
  by (auto simp: get_u8_def drop_append Cons_nth_drop_Suc [symmetric])

lemma get_u8_Cons: "get_u8 (x # xs) off = (if off = 0 then x else get_u8 xs (off - 1))"
  by (cases off) (auto simp: get_u8_def)

lemma get_u8_drop [simp]: "get_u8 (drop n xs) off = get_u8 xs (n + off)"
  by (simp add: get_u8_def add.commute)

lemma get_u8_nth: "off < length xs \<Longrightarrow> get_u8 xs off = xs ! off"
  by (simp add: get_u8_def Cons_nth_drop_Suc [symmetric])

lemma get_u8_take: "off < n \<Longrightarrow> get_u8 (take n xs) off = get_u8 xs off"
proof (cases "off < length xs")
  assume "off < n" "off < length xs"
  then show ?thesis by (simp add: get_u8_nth)
qed (simp add: get_u8_def)

lemma length_u16_bytes [simp]: "length (u16_bytes w) = 2"
  by (simp add: u16_bytes_def)

lemma length_u32_bytes [simp]: "length (u32_bytes w) = 4"
  by (simp add: u32_bytes_def)

lemma u16_of_bytes: "(ucast (ucast (w :: u16) :: u8) :: u16) OR
    push_bit 8 (ucast (ucast (drop_bit 8 w) :: u8)) = w"
  by (rule bit_word_eqI) (auto simp: bit_simps)

lemma u32_of_bytes: "(ucast (ucast (w :: u32) :: u8) :: u32) OR
    push_bit 8 (ucast (ucast (drop_bit 8 w) :: u8)) OR
    push_bit 16 (ucast (ucast (drop_bit 16 w) :: u8)) OR
    push_bit 24 (ucast (ucast (drop_bit 24 w) :: u8)) = w"
proof (rule bit_word_eqI)
  fix n assume "n < LENGTH(32)"
  then consider "n < 8" | "8 \<le> n" "n < 16" | "16 \<le> n" "n < 24" | "24 \<le> n" "n < 32"
    by force
  then show "bit ((ucast (ucast w :: u8) :: u32) OR
      push_bit 8 (ucast (ucast (drop_bit 8 w) :: u8)) OR
      push_bit 16 (ucast (ucast (drop_bit 16 w) :: u8)) OR
      push_bit 24 (ucast (ucast (drop_bit 24 w) :: u8))) n = bit w n"
    by cases (simp_all add: bit_simps less_diff_conv2)
qed

lemma get_u16_bytes_append: "get_u16 (u16_bytes w @ ys) 0 = w"
  by (simp add: get_u16_def u16_bytes_def get_u8_Cons u16_of_bytes)

lemma get_u32_bytes_append: "get_u32 (u32_bytes w @ ys) 0 = w"
  by (simp add: get_u32_def u32_bytes_def get_u8_Cons u32_of_bytes)

lemma get_u32_skip: "length xs \<le> off \<Longrightarrow> get_u32 (xs @ ys) off = get_u32 ys (off - length xs)"
  by (auto simp: get_u32_def get_u8_append dest!: le_Suc_ex)

lemma get_u16_skip: "length xs \<le> off \<Longrightarrow> get_u16 (xs @ ys) off = get_u16 ys (off - length xs)"
  by (auto simp: get_u16_def get_u8_append dest!: le_Suc_ex)

lemma get_u8_skip: "length xs \<le> off \<Longrightarrow> get_u8 (xs @ ys) off = get_u8 ys (off - length xs)"
  by (simp add: get_u8_append)

lemmas byte_layout = get_u16_bytes_append get_u32_bytes_append get_u32_skip get_u16_skip
  get_u8_skip get_u8_Cons

lemma get_u32_bytes: "get_u32 (u32_bytes w) 0 = w"
  using get_u32_bytes_append [of w "[]"] by simp

lemma length_put [simp]:
  "length (put_rule r) = 8" "length (put_target t) = 16" "length (put_mask m) = 16"
  by (simp_all add: put_rule_def put_target_def put_mask_def)

lemma get_put_rule: "get_rule (put_rule r) = r"
  by (cases r) (simp add: get_rule_def put_rule_def byte_layout)

lemma get_put_target: "get_target (put_target t) = t"
  by (cases t) (simp add: get_target_def put_target_def byte_layout)

lemma get_put_mask: "get_mask (put_mask m) = m"
  by (cases m) (simp add: get_mask_def put_mask_def byte_layout)

lemma length_get_array [simp]: "length (get_array esize get bs off n) = n"
  by (simp add: get_array_def)

text \<open>
  The contract of an element layout, and what it gives for arrays embedded in a larger buffer.
\<close>

locale element_layout =
  fixes esize :: nat
    and put :: "'e \<Rightarrow> u8 list"
    and get :: "u8 list \<Rightarrow> 'e"
  assumes length_put_elem: "length (put e) = esize"
    and get_put: "get (put e) = e"
begin

lemma length_concat_put: "length (concat (map put es)) = length es * esize"
  by (induction es) (simp_all add: length_put_elem)

lemma drop_concat_put:
  "i < length es \<Longrightarrow> take esize (drop (i * esize) (concat (map put es) @ post)) = put (es ! i)"
proof (induction es arbitrary: i)
  case (Cons e es)
  then show ?case
    by (cases i) (simp_all add: length_put_elem drop_append add.commute)
qed simp

lemma get_array_put:
  "get_array esize get (pre @ concat (map put es) @ post) (length pre) (length es) = es"
proof (rule nth_equalityI)
  fix i assume "i < length (get_array esize get (pre @ concat (map put es) @ post) (length pre) (length es))"
  then have i: "i < length es" by simp
  have "drop (length pre + i * esize) (pre @ concat (map put es) @ post) =
      drop (i * esize) (concat (map put es) @ post)"
    by simp
  then show "get_array esize get (pre @ concat (map put es) @ post) (length pre) (length es) ! i = es ! i"
    using i by (simp del: drop_append take_append add: get_array_def drop_concat_put get_put)
qed simp

end

interpretation u32_elem: element_layout 4 u32_bytes "\<lambda>bs. get_u32 bs 0"
  by unfold_locales (simp_all add: get_u32_bytes)

interpretation rule_elem: element_layout 8 put_rule get_rule
  by unfold_locales (simp_all add: get_put_rule)

interpretation target_elem: element_layout 16 put_target get_target
  by unfold_locales (simp_all add: get_put_target)

interpretation mask_elem: element_layout 16 put_mask get_mask
  by unfold_locales (simp_all add: get_put_mask)

end
