(* ===== verification/Policy_Snapshot.thy ===== *)
theory Policy_Snapshot
  imports Policy_Types
begin

text \<open>
  The kernel side of the policy ABI, kmod/main.c: validation and decoding of a version 3 payload
  (\<^verbatim>\<open>policy_section_validate\<close>, \<^verbatim>\<open>policy_snapshot_from_v3\<close>), of a version 4 payload, which is
  rewritten into version 3 form first (\<^verbatim>\<open>policy_snapshot_from_v4\<close>), and of the fixed-size version
  2 payload (\<^verbatim>\<open>vpnhide_apply_policy\<close>). A payload is the list of bytes the ioctl copied in, so
  its length is the \<^verbatim>\<open>payload_size\<close> of the code; an allocation that may fail is a boolean
  argument. \<open>snapshot_wf\<close> is the invariant of a published snapshot; the lemmas show that whatever
  bytes userspace sends, a payload that is accepted gives a snapshot that satisfies it, and that
  every section it copies lies inside the payload.
\<close>

section \<open>Headers\<close>

record payload_header =
  total_size :: u32
  hdr_flags :: u32
  hdr_active_hooks_mask :: u32
  hdr_java_hooks_mask :: u32
  hdr_debug_enabled :: u32
  hdr_iface_count :: u32
  hdr_iface_prefixes :: "u8 list"
  sec_kmod_uids :: policy_section
  sec_lsposed_uids :: policy_section
  sec_port_targets :: policy_section
  sec_port_rules :: policy_section
  sec_app_hook_masks :: policy_section

record payload_header_v4 = payload_header +
  hdr_kmod_match_mode :: u32
  hdr_lsposed_match_mode :: u32
  hdr_port_match_mode :: u32
  hdr_reserved :: u32

abbreviation (input) sizeof_payload_v3 :: nat where "sizeof_payload_v3 \<equiv> 576"
abbreviation (input) sizeof_payload_v4 :: nat where "sizeof_payload_v4 \<equiv> 592"
abbreviation (input) sizeof_iface_prefixes :: nat where "sizeof_iface_prefixes \<equiv> 512"
abbreviation (input) sizeof_snapshot :: nat where "sizeof_snapshot \<equiv> 624"

definition get_section :: "u8 list \<Rightarrow> nat \<Rightarrow> policy_section" where
  "get_section bs off = \<lparr>section_offset = get_u32 bs off, section_count = get_u32 bs (off + 4)\<rparr>"

definition put_section :: "policy_section \<Rightarrow> u8 list" where
  "put_section s = u32_bytes (section_offset s) @ u32_bytes (section_count s)"

definition get_header_v3 :: "u8 list \<Rightarrow> payload_header" where
  "get_header_v3 bs = \<lparr>total_size = get_u32 bs 0, hdr_flags = get_u32 bs 4,
     hdr_active_hooks_mask = get_u32 bs 8, hdr_java_hooks_mask = get_u32 bs 12,
     hdr_debug_enabled = get_u32 bs 16, hdr_iface_count = get_u32 bs 20,
     hdr_iface_prefixes = take sizeof_iface_prefixes (drop 24 bs),
     sec_kmod_uids = get_section bs 536, sec_lsposed_uids = get_section bs 544,
     sec_port_targets = get_section bs 552, sec_port_rules = get_section bs 560,
     sec_app_hook_masks = get_section bs 568\<rparr>"

definition put_header_v3 :: "payload_header \<Rightarrow> u8 list" where
  "put_header_v3 h = u32_bytes (total_size h) @ u32_bytes (hdr_flags h) @
     u32_bytes (hdr_active_hooks_mask h) @ u32_bytes (hdr_java_hooks_mask h) @
     u32_bytes (hdr_debug_enabled h) @ u32_bytes (hdr_iface_count h) @ hdr_iface_prefixes h @
     put_section (sec_kmod_uids h) @ put_section (sec_lsposed_uids h) @
     put_section (sec_port_targets h) @ put_section (sec_port_rules h) @
     put_section (sec_app_hook_masks h)"

definition get_header_v4 :: "u8 list \<Rightarrow> payload_header_v4" where
  "get_header_v4 bs = \<lparr>total_size = get_u32 bs 0, hdr_flags = get_u32 bs 4,
     hdr_active_hooks_mask = get_u32 bs 8, hdr_java_hooks_mask = get_u32 bs 12,
     hdr_debug_enabled = get_u32 bs 16, hdr_iface_count = get_u32 bs 20,
     hdr_iface_prefixes = take sizeof_iface_prefixes (drop 40 bs),
     sec_kmod_uids = get_section bs 552, sec_lsposed_uids = get_section bs 560,
     sec_port_targets = get_section bs 568, sec_port_rules = get_section bs 576,
     sec_app_hook_masks = get_section bs 584,
     hdr_kmod_match_mode = get_u32 bs 24, hdr_lsposed_match_mode = get_u32 bs 28,
     hdr_port_match_mode = get_u32 bs 32, hdr_reserved = get_u32 bs 36\<rparr>"

definition put_header_v4 :: "payload_header_v4 \<Rightarrow> u8 list" where
  "put_header_v4 h = u32_bytes (total_size h) @ u32_bytes (hdr_flags h) @
     u32_bytes (hdr_active_hooks_mask h) @ u32_bytes (hdr_java_hooks_mask h) @
     u32_bytes (hdr_debug_enabled h) @ u32_bytes (hdr_iface_count h) @
     u32_bytes (hdr_kmod_match_mode h) @ u32_bytes (hdr_lsposed_match_mode h) @
     u32_bytes (hdr_port_match_mode h) @ u32_bytes (hdr_reserved h) @ hdr_iface_prefixes h @
     put_section (sec_kmod_uids h) @ put_section (sec_lsposed_uids h) @
     put_section (sec_port_targets h) @ put_section (sec_port_rules h) @
     put_section (sec_app_hook_masks h)"

lemma length_put_section [simp]: "length (put_section s) = 8"
  by (simp add: put_section_def)

lemma length_put_header_v3:
  "length (hdr_iface_prefixes h) = 512 \<Longrightarrow> length (put_header_v3 h) = 576"
  by (simp add: put_header_v3_def)

lemma length_put_header_v4:
  "length (hdr_iface_prefixes h) = 512 \<Longrightarrow> length (put_header_v4 h) = 592"
  by (simp add: put_header_v4_def)

lemma get_section_skip:
  "length xs \<le> off \<Longrightarrow> get_section (xs @ ys) off = get_section ys (off - length xs)"
  by (simp add: get_section_def get_u32_skip)

lemma get_section_put: "get_section (put_section s @ ys) 0 = s"
  by (cases s) (simp add: get_section_def put_section_def byte_layout)

lemma get_put_header_v3:
  assumes "length (hdr_iface_prefixes h) = 512"
  shows "get_header_v3 (put_header_v3 h @ rest) = h"
  using assms
  by (cases h) (simp add: get_header_v3_def put_header_v3_def byte_layout get_section_skip get_section_put)

lemma get_put_header_v4:
  assumes "length (hdr_iface_prefixes h) = 512"
  shows "get_header_v4 (put_header_v4 h @ rest) = h"
  using assms
  by (cases h) (simp add: get_header_v4_def put_header_v4_def byte_layout get_section_skip get_section_put)

section \<open>Section validation\<close>

text \<open>
  \<^verbatim>\<open>size_t\<close> is 64 bits wide: the overflow checks of the code are written out over unbounded
  naturals.
\<close>

definition policy_section_validate :: "policy_section \<Rightarrow> nat \<Rightarrow> nat \<Rightarrow> nat \<Rightarrow> errno + nat" where
  "policy_section_validate sec element_size cursor limit =
     (let bytes = unat (section_count sec) * element_size in
      if unat (section_offset sec) \<noteq> cursor \<or> 2 ^ 64 \<le> bytes \<or> 2 ^ 64 \<le> cursor + bytes \<or>
         limit < cursor + bytes
      then Inl EINVAL else Inr (cursor + bytes))"

fun policy_sections_validate :: "(policy_section \<times> nat) list \<Rightarrow> nat \<Rightarrow> nat \<Rightarrow> errno + nat" where
  "policy_sections_validate [] cursor limit = Inr cursor"
| "policy_sections_validate ((sec, element_size) # rest) cursor limit =
     (case policy_section_validate sec element_size cursor limit of
        Inl e \<Rightarrow> Inl e
      | Inr cursor' \<Rightarrow> policy_sections_validate rest cursor' limit)"

definition header_sections :: "'a payload_header_scheme \<Rightarrow> (policy_section \<times> nat) list" where
  "header_sections h = [(sec_kmod_uids h, 4), (sec_lsposed_uids h, 4), (sec_port_targets h, 16),
     (sec_port_rules h, 8), (sec_app_hook_masks h, 16)]"

section \<open>Canonical form of the decoded arrays\<close>

definition rule_key :: "port_rule_v3 \<Rightarrow> u16 \<times> u16 \<times> u8" where
  "rule_key r = (start_port r, end_port r, rule_protocol r)"

definition sort_segment :: "nat \<Rightarrow> nat \<Rightarrow> port_rule_v3 list \<Rightarrow> port_rule_v3 list" where
  "sort_segment first n rules =
     take first rules @ sort_key rule_key (take n (drop first rules)) @ drop (first + n) rules"

definition target_rejected :: "u32 \<Rightarrow> u32 \<Rightarrow> port_target_v3 \<Rightarrow> bool" where
  "target_rejected port_rule_count next_rule t \<longleftrightarrow>
     target_uid t = 0 \<or> target_mode t > VH_PORT_POLICY_DENY_ALL \<or> target_reserved t \<noteq> (0, 0, 0) \<or>
     first_rule t \<noteq> next_rule \<or> rule_count t > port_rule_count - next_rule"

fun check_port_targets :: "u32 \<Rightarrow> u32 \<Rightarrow> port_target_v3 list \<Rightarrow> port_rule_v3 list
    \<Rightarrow> (u32 \<times> port_rule_v3 list) option" where
  "check_port_targets port_rule_count next_rule [] rules = Some (next_rule, rules)"
| "check_port_targets port_rule_count next_rule (t # ts) rules =
     (if target_rejected port_rule_count next_rule t then None
      else check_port_targets port_rule_count (next_rule + rule_count t) ts
        (if rule_count t > 1 then sort_segment (unat (first_rule t)) (unat (rule_count t)) rules
         else rules))"

definition rule_rejected :: "port_rule_v3 \<Rightarrow> bool" where
  "rule_rejected r \<longleftrightarrow>
     start_port r > end_port r \<or> rule_protocol r > VH_PROTO_BOTH \<or> rule_reserved r \<noteq> (0, 0, 0)"

definition mask_rejected :: "app_hook_mask_v3 \<Rightarrow> bool" where
  "mask_rejected m \<longleftrightarrow>
     mask_uid m = 0 \<or> has_kernel_override m > 1 \<or> has_java_override m > 1 \<or>
     mask_reserved m \<noteq> (0, 0)"

definition force_port_hooks :: "app_hook_mask_v3 \<Rightarrow> app_hook_mask_v3" where
  "force_port_hooks m =
     (if has_kernel_override m \<noteq> 0 then m\<lparr>kernel_mask := kernel_mask m OR port_hook_bits\<rparr> else m)"

definition uids_rejected :: "uid_t list \<Rightarrow> bool" where
  "uids_rejected uids \<longleftrightarrow> (uids \<noteq> [] \<and> hd uids = 0) \<or> has_adjacent_dup uids"

definition build_snapshot :: "'a payload_header_scheme \<Rightarrow> uid_t list \<Rightarrow> uid_t list \<Rightarrow>
    port_target_v3 list \<Rightarrow> port_rule_v3 list \<Rightarrow> app_hook_mask_v3 list \<Rightarrow> errno + policy_snapshot" where
  "build_snapshot h kmod lsposed targets rules masks =
     (let port_rule_count = section_count (sec_port_rules h) in
      case check_port_targets port_rule_count 0 targets rules of
        None \<Rightarrow> Inl EINVAL
      | Some (next_rule, rules') \<Rightarrow>
          if next_rule \<noteq> port_rule_count then Inl EINVAL
          else if list_ex rule_rejected rules' then Inl EINVAL
          else if list_ex mask_rejected masks then Inl EINVAL
          else
            let kmod' = sort_key (\<lambda>u. u) kmod; lsposed' = sort_key (\<lambda>u. u) lsposed;
                targets' = sort_key target_uid targets;
                masks' = sort_key mask_uid (map force_port_hooks masks) in
            if uids_rejected kmod' \<or> uids_rejected lsposed' \<or>
               has_adjacent_dup (map target_uid targets') \<or> has_adjacent_dup (map mask_uid masks')
            then Inl EINVAL
            else Inr \<lparr>active_hooks_mask = hdr_active_hooks_mask h OR port_hook_bits,
              java_hooks_mask = hdr_java_hooks_mask h,
              debug_enabled = (if hdr_debug_enabled h = 0 then 0 else 1),
              policy_flags = hdr_flags h, kmod_match_mode = VPNHIDE_MATCH_INCLUDE,
              lsposed_match_mode = VPNHIDE_MATCH_INCLUDE, port_match_mode = VPNHIDE_MATCH_INCLUDE,
              iface_count = hdr_iface_count h, iface_prefixes = hdr_iface_prefixes h,
              kmod_uids = kmod', lsposed_uids = lsposed', port_targets = targets',
              port_rules = rules', app_hook_masks = masks'\<rparr>)"

section \<open>The three payload versions\<close>

definition copy_section :: "nat \<Rightarrow> (u8 list \<Rightarrow> 'e) \<Rightarrow> u8 list \<Rightarrow> policy_section \<Rightarrow> 'e list" where
  "copy_section element_size get payload sec =
     get_array element_size get payload (unat (section_offset sec)) (unat (section_count sec))"

definition policy_snapshot_from_v3 :: "bool \<Rightarrow> u8 list \<Rightarrow> errno + policy_snapshot" where
  "policy_snapshot_from_v3 alloc_ok payload =
     (let payload_size = length payload; h = get_header_v3 payload in
      if payload_size < sizeof_payload_v3 \<or> payload_size > VPNHIDE_POLICY_MAX_BYTES \<or>
         unat (total_size h) \<noteq> payload_size \<or> unat (hdr_iface_count h) > MAX_IFACE_PREFIXES
      then Inl EINVAL
      else if policy_sections_validate (header_sections h) sizeof_payload_v3 payload_size
              \<noteq> Inr payload_size
      then Inl EINVAL
      else if 2 ^ 64 \<le> sizeof_snapshot + (payload_size - sizeof_payload_v3) then Inl EOVERFLOW
      else if \<not> alloc_ok then Inl ENOMEM
      else build_snapshot h
        (copy_section 4 (\<lambda>bs. get_u32 bs 0) payload (sec_kmod_uids h))
        (copy_section 4 (\<lambda>bs. get_u32 bs 0) payload (sec_lsposed_uids h))
        (copy_section 16 get_target payload (sec_port_targets h))
        (copy_section 8 get_rule payload (sec_port_rules h))
        (copy_section 16 get_mask payload (sec_app_hook_masks h)))"

definition V4_SECTION :: "nat \<Rightarrow> policy_section \<Rightarrow> policy_section" where
  "V4_SECTION delta sec = sec\<lparr>section_offset := section_offset sec - of_nat delta\<rparr>"

definition v3_header_of_v4 :: "nat \<Rightarrow> nat \<Rightarrow> payload_header_v4 \<Rightarrow> payload_header" where
  "v3_header_of_v4 delta v3_size h = \<lparr>total_size = of_nat v3_size, hdr_flags = hdr_flags h,
     hdr_active_hooks_mask = hdr_active_hooks_mask h, hdr_java_hooks_mask = hdr_java_hooks_mask h,
     hdr_debug_enabled = hdr_debug_enabled h, hdr_iface_count = hdr_iface_count h,
     hdr_iface_prefixes = hdr_iface_prefixes h,
     sec_kmod_uids = V4_SECTION delta (sec_kmod_uids h),
     sec_lsposed_uids = V4_SECTION delta (sec_lsposed_uids h),
     sec_port_targets = V4_SECTION delta (sec_port_targets h),
     sec_port_rules = V4_SECTION delta (sec_port_rules h),
     sec_app_hook_masks = V4_SECTION delta (sec_app_hook_masks h)\<rparr>"

definition policy_snapshot_from_v4 :: "bool \<Rightarrow> bool \<Rightarrow> u8 list \<Rightarrow> errno + policy_snapshot" where
  "policy_snapshot_from_v4 alloc_v3_ok alloc_ok payload =
     (let payload_size = length payload; h = get_header_v4 payload;
          delta = sizeof_payload_v4 - sizeof_payload_v3 in
      if payload_size < sizeof_payload_v4 \<or> unat (total_size h) \<noteq> payload_size \<or>
         hdr_reserved h \<noteq> 0 \<or> hdr_kmod_match_mode h > VPNHIDE_MATCH_EXCLUDE \<or>
         hdr_lsposed_match_mode h > VPNHIDE_MATCH_EXCLUDE \<or>
         hdr_port_match_mode h > VPNHIDE_MATCH_EXCLUDE
      then Inl EINVAL
      else if list_ex (\<lambda>(sec, _). unat (section_offset sec) < sizeof_payload_v4) (header_sections h)
      then Inl EINVAL
      else if \<not> alloc_v3_ok then Inl ENOMEM
      else
        let v3_size = payload_size - delta;
            v3 = put_header_v3 (v3_header_of_v4 delta v3_size h) @ drop sizeof_payload_v4 payload in
        case policy_snapshot_from_v3 alloc_ok v3 of
          Inl e \<Rightarrow> Inl e
        | Inr snapshot \<Rightarrow> Inr (snapshot\<lparr>kmod_match_mode := hdr_kmod_match_mode h,
            lsposed_match_mode := hdr_lsposed_match_mode h,
            port_match_mode := hdr_port_match_mode h\<rparr>))"

record uid_port_rules_v2 =
  v2_uid :: u32
  v2_rule_count :: int
  v2_mode :: u8
  v2_rules :: "(u16 \<times> u16 \<times> u8) list"

record policy_payload_v2 =
  v2_kmod_count :: int
  v2_kmod_uids :: "uid_t list"
  v2_lsposed_count :: int
  v2_lsposed_uids :: "uid_t list"
  v2_port_count :: int
  v2_port_targets :: "uid_port_rules_v2 list"
  v2_iface_count :: int
  v2_iface_prefixes :: "u8 list"
  v2_mask_count :: int
  v2_masks :: "(u32 \<times> u32 \<times> u32 \<times> u8 \<times> u8) list"
  v2_active_hooks_mask :: u32
  v2_java_hooks_mask :: u32
  v2_debug_enabled :: u32
  v2_flags :: u32

definition v2_target_rejected :: "uid_port_rules_v2 \<Rightarrow> bool" where
  "v2_target_rejected t \<longleftrightarrow>
     v2_rule_count t < 0 \<or> v2_rule_count t > int VPNHIDE_LEGACY_PORT_RULES_PER_UID \<or>
     list_ex (\<lambda>(s, e, p). s > e \<or> p > VH_PROTO_BOTH) (take (nat (v2_rule_count t)) (v2_rules t))"

definition v2_rule :: "u16 \<times> u16 \<times> u8 \<Rightarrow> port_rule_v3" where
  "v2_rule r = (case r of (s, e, p) \<Rightarrow>
     \<lparr>start_port = s, end_port = e, rule_protocol = p, rule_reserved = (0, 0, 0)\<rparr>)"

definition v2_mask :: "u32 \<times> u32 \<times> u32 \<times> u8 \<times> u8 \<Rightarrow> app_hook_mask_v3" where
  "v2_mask m = (case m of (u, k, j, hk, hj) \<Rightarrow> \<lparr>mask_uid = u, kernel_mask = k, java_mask = j,
     has_kernel_override = hk, has_java_override = hj, mask_reserved = (0, 0)\<rparr>)"

fun v2_flatten :: "u32 \<Rightarrow> uid_port_rules_v2 list \<Rightarrow> port_target_v3 list \<times> port_rule_v3 list" where
  "v2_flatten rule_index [] = ([], [])"
| "v2_flatten rule_index (t # ts) =
     (let n = nat (v2_rule_count t);
          (targets, rules) = v2_flatten (rule_index + of_nat n) ts in
      (\<lparr>target_uid = v2_uid t, first_rule = rule_index, rule_count = of_nat n,
         target_mode = v2_mode t, target_reserved = (0, 0, 0)\<rparr> # targets,
       map v2_rule (take n (v2_rules t)) @ rules))"

definition sections_from :: "nat \<Rightarrow> nat \<Rightarrow> nat \<Rightarrow> nat \<Rightarrow> nat \<Rightarrow> nat \<Rightarrow> policy_section list" where
  "sections_from base nk nl nt nr nm =
     [\<lparr>section_offset = of_nat base, section_count = of_nat nk\<rparr>,
      \<lparr>section_offset = of_nat (base + nk * 4), section_count = of_nat nl\<rparr>,
      \<lparr>section_offset = of_nat (base + nk * 4 + nl * 4), section_count = of_nat nt\<rparr>,
      \<lparr>section_offset = of_nat (base + nk * 4 + nl * 4 + nt * 16), section_count = of_nat nr\<rparr>,
      \<lparr>section_offset = of_nat (base + nk * 4 + nl * 4 + nt * 16 + nr * 8),
       section_count = of_nat nm\<rparr>]"

definition sections_size :: "nat \<Rightarrow> nat \<Rightarrow> nat \<Rightarrow> nat \<Rightarrow> nat \<Rightarrow> nat \<Rightarrow> nat" where
  "sections_size base nk nl nt nr nm = base + nk * 4 + nl * 4 + nt * 16 + nr * 8 + nm * 16"

definition sections_bytes :: "uid_t list \<Rightarrow> uid_t list \<Rightarrow> port_target_v3 list \<Rightarrow> port_rule_v3 list \<Rightarrow>
    app_hook_mask_v3 list \<Rightarrow> u8 list" where
  "sections_bytes kmod lsposed targets rules masks =
     concat (map u32_bytes kmod) @ concat (map u32_bytes lsposed) @ concat (map put_target targets) @
     concat (map put_rule rules) @ concat (map put_mask masks)"

definition v3_header_of_v2 :: "policy_payload_v2 \<Rightarrow> nat \<Rightarrow> nat \<Rightarrow> nat \<Rightarrow> nat \<Rightarrow> nat \<Rightarrow> payload_header" where
  "v3_header_of_v2 p nk nl nt nr nm =
     (let secs = sections_from sizeof_payload_v3 nk nl nt nr nm in
      \<lparr>total_size = of_nat (sections_size sizeof_payload_v3 nk nl nt nr nm), hdr_flags = v2_flags p,
       hdr_active_hooks_mask = v2_active_hooks_mask p, hdr_java_hooks_mask = v2_java_hooks_mask p,
       hdr_debug_enabled = v2_debug_enabled p, hdr_iface_count = of_int (v2_iface_count p),
       hdr_iface_prefixes = v2_iface_prefixes p,
       sec_kmod_uids = secs ! 0, sec_lsposed_uids = secs ! 1, sec_port_targets = secs ! 2,
       sec_port_rules = secs ! 3, sec_app_hook_masks = secs ! 4\<rparr>)"

text \<open>
  The arrays of the version 2 structure have 512 (rules: 16) elements, so that the first
  \<open>count\<close> of them are as many as the count says.
\<close>

definition v3_payload_of_v2 :: "bool \<Rightarrow> policy_payload_v2 \<Rightarrow> errno + u8 list" where
  "v3_payload_of_v2 alloc_ok p =
     (let bad = (\<lambda>n. n < 0 \<or> n > int VPNHIDE_LEGACY_TARGET_UIDS) in
      if bad (v2_kmod_count p) \<or> bad (v2_lsposed_count p) \<or> bad (v2_port_count p) \<or>
         v2_iface_count p < 0 \<or> v2_iface_count p > int MAX_IFACE_PREFIXES \<or> bad (v2_mask_count p)
      then Inl EINVAL
      else
        let ports = take (nat (v2_port_count p)) (v2_port_targets p) in
        if list_ex v2_target_rejected ports then Inl EINVAL
        else if \<not> alloc_ok then Inl ENOMEM
        else
          let kmod = take (nat (v2_kmod_count p)) (v2_kmod_uids p);
              lsposed = take (nat (v2_lsposed_count p)) (v2_lsposed_uids p);
              (targets, rules) = v2_flatten 0 ports;
              masks = map v2_mask (take (nat (v2_mask_count p)) (v2_masks p)) in
          Inr (put_header_v3 (v3_header_of_v2 p (length kmod) (length lsposed) (length targets)
                 (length rules) (length masks)) @
               sections_bytes kmod lsposed targets rules masks))"

section \<open>The invariant of a snapshot\<close>

definition target_rules :: "port_rule_v3 list \<Rightarrow> port_target_v3 \<Rightarrow> port_rule_v3 list" where
  "target_rules rules t = take (unat (rule_count t)) (drop (unat (first_rule t)) rules)"

definition uids_wf :: "uid_t list \<Rightarrow> bool" where
  "uids_wf uids \<longleftrightarrow> ascending (\<lambda>u. u) uids \<and> 0 \<notin> set uids"

definition target_wf :: "port_rule_v3 list \<Rightarrow> port_target_v3 \<Rightarrow> bool" where
  "target_wf rules t \<longleftrightarrow> target_uid t \<noteq> 0 \<and> target_mode t \<le> VH_PORT_POLICY_DENY_ALL \<and>
     unat (first_rule t) + unat (rule_count t) \<le> length rules \<and>
     sorted (map rule_key (target_rules rules t))"

definition rule_wf :: "port_rule_v3 \<Rightarrow> bool" where
  "rule_wf r \<longleftrightarrow> start_port r \<le> end_port r \<and> rule_protocol r \<le> VH_PROTO_BOTH"

definition mask_wf :: "app_hook_mask_v3 \<Rightarrow> bool" where
  "mask_wf m \<longleftrightarrow> mask_uid m \<noteq> 0 \<and>
     (has_kernel_override m \<noteq> 0 \<longrightarrow> kernel_mask m AND port_hook_bits = port_hook_bits)"

definition snapshot_wf :: "policy_snapshot \<Rightarrow> bool" where
  "snapshot_wf s \<longleftrightarrow>
     uids_wf (kmod_uids s) \<and> uids_wf (lsposed_uids s) \<and>
     ascending target_uid (port_targets s) \<and> list_all (target_wf (port_rules s)) (port_targets s) \<and>
     list_all rule_wf (port_rules s) \<and>
     ascending mask_uid (app_hook_masks s) \<and> list_all mask_wf (app_hook_masks s) \<and>
     active_hooks_mask s AND port_hook_bits = port_hook_bits \<and>
     sum_list (map (\<lambda>t. unat (rule_count t)) (port_targets s)) = length (port_rules s) \<and>
     unat (iface_count s) \<le> MAX_IFACE_PREFIXES \<and>
     kmod_match_mode s \<le> VPNHIDE_MATCH_EXCLUDE \<and> lsposed_match_mode s \<le> VPNHIDE_MATCH_EXCLUDE \<and>
     port_match_mode s \<le> VPNHIDE_MATCH_EXCLUDE \<and>
     sections_size sizeof_payload_v3 (length (kmod_uids s)) (length (lsposed_uids s))
       (length (port_targets s)) (length (port_rules s)) (length (app_hook_masks s))
       \<le> VPNHIDE_POLICY_MAX_BYTES"

section \<open>Section walk\<close>

lemma policy_section_validate_Inr:
  "policy_section_validate sec esize cursor limit = Inr cursor' \<longleftrightarrow>
     unat (section_offset sec) = cursor \<and> cursor' = cursor + unat (section_count sec) * esize \<and>
     cursor' \<le> limit \<and> cursor' < 2 ^ 64"
  by (auto simp: policy_section_validate_def Let_def)

lemma policy_sections_validate_Inr:
  "policy_sections_validate secs cursor limit = Inr cursor' \<Longrightarrow> cursor \<le> limit \<Longrightarrow>
     cursor' \<le> limit \<and>
     cursor' = cursor + (\<Sum>(sec, esize) \<leftarrow> secs. unat (section_count sec) * esize) \<and>
     (\<forall>(sec, esize) \<in> set secs. cursor \<le> unat (section_offset sec) \<and>
        unat (section_offset sec) + unat (section_count sec) * esize \<le> cursor')"
proof (induction secs cursor limit arbitrary: cursor' rule: policy_sections_validate.induct)
  case (2 sec esize rest cursor limit)
  from "2.prems"(1) obtain c where
    c: "policy_section_validate sec esize cursor limit = Inr c"
       "policy_sections_validate rest c limit = Inr cursor'"
    by (auto split: sum.splits)
  from policy_section_validate_Inr [THEN iffD1, OF c(1)] "2.IH" [OF c(1) c(2)] show ?case
    by fastforce
qed simp

section \<open>The rule segments\<close>

lemma length_sort_segment: "length (sort_segment first n rules) = length rules"
  by (simp add: sort_segment_def)

lemma mset_sort_segment: "mset (sort_segment first n rules) = mset rules"
proof -
  have "mset (sort_segment first n rules) =
      mset (take first rules) + (mset (take n (drop first rules)) + mset (drop n (drop first rules)))"
    by (simp add: sort_segment_def add.commute)
  also have "\<dots> = mset (take first rules) + mset (drop first rules)"
    by (metis append_take_drop_id mset_append)
  finally show ?thesis by (metis append_take_drop_id mset_append)
qed

lemma take_sort_segment: "k \<le> first \<Longrightarrow> first \<le> length rules \<Longrightarrow>
    take k (sort_segment first n rules) = take k rules"
  by (simp add: sort_segment_def min_def)

lemma drop_sort_segment: "first + n \<le> length rules \<Longrightarrow> first + n \<le> k \<Longrightarrow>
    drop k (sort_segment first n rules) = drop k rules"
  by (simp add: sort_segment_def drop_append min_def)

lemma segment_sort_segment: "first + n \<le> length rules \<Longrightarrow>
    take n (drop first (sort_segment first n rules)) = sort_key rule_key (take n (drop first rules))"
  by (auto simp: sort_segment_def min_def)

lemma sort_key_short: "length xs \<le> 1 \<Longrightarrow> sort_key f xs = xs"
  by (cases xs) simp_all

lemma sort_segment_short: "n \<le> 1 \<Longrightarrow> sort_segment first n rules = rules"
  by (simp add: sort_segment_def sort_key_short min_def) (metis add.commute append_take_drop_id drop_drop)

lemma unat_less_32: "unat (w :: 32 word) < 2 ^ 32"
  using unsigned_less [of w, where 'a = nat] by simp

lemma word_gt_1_iff: "(1 :: 'a::len word) < w \<longleftrightarrow> 1 < unat w" if "1 < LENGTH('a)"
  using that by (simp add: word_less_nat_alt)

lemma check_port_targets_Cons:
  "check_port_targets c nr (t # ts) rules =
     (if target_rejected c nr t then None
      else check_port_targets c (nr + rule_count t) ts
        (sort_segment (unat (first_rule t)) (unat (rule_count t)) rules))"
  by (simp add: word_gt_1_iff sort_segment_short)

lemma target_accepted:
  assumes "\<not> target_rejected c nr t" and "nr \<le> c"
  shows "target_uid t \<noteq> 0" "target_mode t \<le> 2" "first_rule t = nr"
    "unat (nr + rule_count t) = unat nr + unat (rule_count t)"
    "nr + rule_count t \<le> c"
proof -
  from assms have r: "rule_count t \<le> c - nr" by (simp add: target_rejected_def not_less)
  with assms(2) have le: "unat nr + unat (rule_count t) \<le> unat c"
    by (simp add: word_le_nat_alt unat_sub)
  then have "unat nr + unat (rule_count t) < 2 ^ 32"
    using unat_less_32 [of c] by simp
  then show eq: "unat (nr + rule_count t) = unat nr + unat (rule_count t)"
    by (simp add: unat_word_ariths)
  from eq le show "nr + rule_count t \<le> c" by (simp add: word_le_nat_alt)
qed (use assms in \<open>auto simp: target_rejected_def not_less\<close>)

text \<open>
  The loop over the targets accepts exactly a partition of the rule array into consecutive
  segments, and leaves in each of them the same rules in sorted order.
\<close>

lemma check_port_targets_Some:
  "check_port_targets c nr ts rules = Some (nr', rules') \<Longrightarrow> nr \<le> c \<Longrightarrow>
   length rules = unat c \<Longrightarrow>
     mset rules' = mset rules \<and> nr' \<le> c \<and>
     unat nr' = unat nr + (\<Sum>t \<leftarrow> ts. unat (rule_count t)) \<and>
     take (unat nr) rules' = take (unat nr) rules \<and>
     (\<forall>t \<in> set ts. target_uid t \<noteq> 0 \<and> target_mode t \<le> 2 \<and> unat nr \<le> unat (first_rule t) \<and>
        unat (first_rule t) + unat (rule_count t) \<le> unat c \<and>
        target_rules rules' t = sort_key rule_key (target_rules rules t))"
proof (induction ts arbitrary: nr rules)
  case (Cons t ts)
  let ?r = "sort_segment (unat (first_rule t)) (unat (rule_count t)) rules"
  let ?n = "nr + rule_count t"
  from Cons.prems(1) have ok: "\<not> target_rejected c nr t"
    and rest: "check_port_targets c ?n ts ?r = Some (nr', rules')"
    by (auto simp del: check_port_targets.simps simp: check_port_targets_Cons split: if_splits)
  note t = target_accepted [OF ok Cons.prems(2)]
  have bnd: "unat nr + unat (rule_count t) \<le> length rules"
    using t(4,5) Cons.prems(3) by (simp add: word_le_nat_alt)
  note IH = Cons.IH [OF rest t(5)]
  have len: "length ?r = unat c" by (simp add: length_sort_segment Cons.prems(3))
  have keep: "take (unat ?n) rules' = take (unat ?n) ?r" using IH len by simp
  have pre: "take (unat nr) rules' = take (unat nr) rules"
  proof -
    have le: "unat nr \<le> unat ?n" using t(4) by simp
    then have "take (unat nr) rules' = take (unat nr) (take (unat ?n) rules')"
      by (simp add: min_absorb1 del: unat_arith_simps)
    also have "\<dots> = take (unat nr) ?r" unfolding keep using le by (simp add: min_absorb1)
    also have "\<dots> = take (unat nr) rules" using t(3) bnd by (simp add: take_sort_segment)
    finally show ?thesis .
  qed
  have seg: "target_rules rules' t = sort_key rule_key (target_rules rules t)"
  proof -
    have "target_rules rules' t = drop (unat nr) (take (unat ?n) rules')"
      using t(3,4) by (simp add: target_rules_def take_drop add.commute)
    also have "\<dots> = take (unat (rule_count t)) (drop (unat nr) ?r)"
      using keep t(4) by (simp add: take_drop add.commute)
    finally show ?thesis using bnd t(3) by (simp add: segment_sort_segment target_rules_def)
  qed
  have later: "target_rules ?r u = target_rules rules u" if "unat ?n \<le> unat (first_rule u)" for u
    using that t(3,4) bnd by (simp add: target_rules_def drop_sort_segment)
  have rest_ok: "\<forall>u \<in> set ts. target_uid u \<noteq> 0 \<and> target_mode u \<le> 2 \<and> unat nr \<le> unat (first_rule u) \<and>
      unat (first_rule u) + unat (rule_count u) \<le> unat c \<and>
      target_rules rules' u = sort_key rule_key (target_rules rules u)"
  proof
    fix u assume u: "u \<in> set ts"
    from IH len u have ih: "target_uid u \<noteq> 0" "target_mode u \<le> 2" "unat ?n \<le> unat (first_rule u)"
      "unat (first_rule u) + unat (rule_count u) \<le> unat c"
      "target_rules rules' u = sort_key rule_key (target_rules ?r u)" by blast+
    with later [OF ih(3)] t(4) show "target_uid u \<noteq> 0 \<and> target_mode u \<le> 2 \<and>
      unat nr \<le> unat (first_rule u) \<and> unat (first_rule u) + unat (rule_count u) \<le> unat c \<and>
      target_rules rules' u = sort_key rule_key (target_rules rules u)" by simp
  qed
  from IH len have "mset rules' = mset rules" "nr' \<le> c"
    "unat nr' = unat ?n + (\<Sum>t \<leftarrow> ts. unat (rule_count t))" by (simp_all add: mset_sort_segment)
  with t pre seg rest_ok bnd Cons.prems(3) show ?case
    by (simp del: sort_key_simps)
qed simp

section \<open>Accepted payloads give well-formed snapshots\<close>

lemma or_and_absorb: "(a OR b) AND b = (b :: 'a::len word)"
  by (rule bit_word_eqI) (auto simp: bit_simps)

lemma mask_uid_force [simp]: "mask_uid (force_port_hooks m) = mask_uid m"
  by (simp add: force_port_hooks_def)

lemma mask_wf_force: "\<not> mask_rejected m \<Longrightarrow> mask_wf (force_port_hooks m)"
  by (auto simp: mask_rejected_def mask_wf_def force_port_hooks_def or_and_absorb)

lemma uids_wf_sorted: "\<not> uids_rejected (sort_key (\<lambda>u. u) uids) \<Longrightarrow> uids_wf (sort_key (\<lambda>u. u) uids)"
proof -
  let ?s = "sort_key (\<lambda>u. u) uids"
  assume "\<not> uids_rejected ?s"
  then have dup: "\<not> has_adjacent_dup (map (\<lambda>u. u) ?s)" and hd: "?s = [] \<or> hd ?s \<noteq> 0"
    by (simp_all add: uids_rejected_def)
  from sort_key_ascending [OF dup] have asc: "ascending (\<lambda>u. u) ?s" .
  have "0 \<notin> set ?s"
  proof (cases ?s)
    case (Cons x xs)
    with hd have "0 < x" by (simp add: word_gt_0)
    with asc Cons show ?thesis by auto
  qed simp
  with asc show ?thesis by (simp add: uids_wf_def)
qed

lemma rule_wf_accepted: "\<not> rule_rejected r \<Longrightarrow> rule_wf r"
  by (auto simp: rule_rejected_def rule_wf_def not_less)

lemma length_copy_section [simp]:
  "length (copy_section esize get payload sec) = unat (section_count sec)"
  by (simp add: copy_section_def)

lemma sum_list_sort_key: "sum_list (map f (sort_key g xs)) = (sum_list (map f xs) :: nat)"
  by (metis mset_map mset_sort sum_mset_sum_list)

text \<open>What \<open>build_snapshot\<close> did when it succeeded.\<close>

lemma build_snapshot_Inr:
  assumes "build_snapshot h kmod lsposed targets rules masks = Inr s"
  obtains rules' where
    "check_port_targets (section_count (sec_port_rules h)) 0 targets rules =
       Some (section_count (sec_port_rules h), rules')"
    "list_all (\<lambda>r. \<not> rule_rejected r) rules'" "list_all (\<lambda>m. \<not> mask_rejected m) masks"
    "\<not> uids_rejected (sort_key (\<lambda>u. u) kmod)" "\<not> uids_rejected (sort_key (\<lambda>u. u) lsposed)"
    "\<not> has_adjacent_dup (map target_uid (sort_key target_uid targets))"
    "\<not> has_adjacent_dup (map mask_uid (sort_key mask_uid (map force_port_hooks masks)))"
    "s = \<lparr>active_hooks_mask = hdr_active_hooks_mask h OR port_hook_bits,
       java_hooks_mask = hdr_java_hooks_mask h,
       debug_enabled = (if hdr_debug_enabled h = 0 then 0 else 1),
       policy_flags = hdr_flags h, kmod_match_mode = 0, lsposed_match_mode = 0, port_match_mode = 0,
       iface_count = hdr_iface_count h, iface_prefixes = hdr_iface_prefixes h,
       kmod_uids = sort_key (\<lambda>u. u) kmod, lsposed_uids = sort_key (\<lambda>u. u) lsposed,
       port_targets = sort_key target_uid targets, port_rules = rules',
       app_hook_masks = sort_key mask_uid (map force_port_hooks masks)\<rparr>"
  using assms by (auto simp: build_snapshot_def Let_def list_all_iff list_ex_iff
      split: option.splits if_splits prod.splits)

lemma build_snapshot_wf:
  assumes ok: "build_snapshot h kmod lsposed targets rules masks = Inr s"
    and len: "length rules = unat (section_count (sec_port_rules h))"
    and iface: "unat (hdr_iface_count h) \<le> 32"
    and total: "sections_size 576 (length kmod) (length lsposed) (length targets) (length rules)
      (length masks) \<le> 16777216"
  shows "snapshot_wf s"
proof -
  from ok obtain rules' where b:
    "check_port_targets (section_count (sec_port_rules h)) 0 targets rules =
       Some (section_count (sec_port_rules h), rules')"
    "list_all (\<lambda>r. \<not> rule_rejected r) rules'" "list_all (\<lambda>m. \<not> mask_rejected m) masks"
    "\<not> uids_rejected (sort_key (\<lambda>u. u) kmod)" "\<not> uids_rejected (sort_key (\<lambda>u. u) lsposed)"
    "\<not> has_adjacent_dup (map target_uid (sort_key target_uid targets))"
    "\<not> has_adjacent_dup (map mask_uid (sort_key mask_uid (map force_port_hooks masks)))"
    and s: "kmod_uids s = sort_key (\<lambda>u. u) kmod" "lsposed_uids s = sort_key (\<lambda>u. u) lsposed"
      "port_targets s = sort_key target_uid targets" "port_rules s = rules'"
      "app_hook_masks s = sort_key mask_uid (map force_port_hooks masks)"
      "active_hooks_mask s = hdr_active_hooks_mask h OR port_hook_bits"
      "iface_count s = hdr_iface_count h"
      "kmod_match_mode s = 0" "lsposed_match_mode s = 0" "port_match_mode s = 0"
    by (elim build_snapshot_Inr) simp
  note seg = check_port_targets_Some [OF b(1) _ len]
  from seg have "mset rules' = mset rules" by simp
  then have len': "length rules' = length rules" by (metis size_mset)
  have "list_all (target_wf rules') targets"
    using seg len len' by (auto simp: list_all_iff target_wf_def)
  moreover have "list_all rule_wf rules'"
    using b(2) by (auto simp: list_all_iff intro: rule_wf_accepted)
  moreover have "list_all mask_wf (map force_port_hooks masks)"
    using b(3) by (auto simp: list_all_iff intro: mask_wf_force)
  moreover have "(\<Sum>t \<leftarrow> targets. unat (rule_count t)) = length rules'"
    using seg len len' by simp
  ultimately show ?thesis
    using b s iface total len' sort_key_ascending [OF b(6)] sort_key_ascending [OF b(7)]
      uids_wf_sorted [OF b(4)] uids_wf_sorted [OF b(5)]
    by (simp add: snapshot_wf_def list_all_iff or_and_absorb sum_list_sort_key)
qed

lemma from_v3_Inr:
  assumes "policy_snapshot_from_v3 alloc_ok payload = Inr s"
  shows "576 \<le> length payload" "length payload \<le> 16777216"
    "unat (hdr_iface_count (get_header_v3 payload)) \<le> 32"
    "policy_sections_validate (header_sections (get_header_v3 payload)) 576 (length payload)
      = Inr (length payload)"
    "build_snapshot (get_header_v3 payload)
        (copy_section 4 (\<lambda>bs. get_u32 bs 0) payload (sec_kmod_uids (get_header_v3 payload)))
        (copy_section 4 (\<lambda>bs. get_u32 bs 0) payload (sec_lsposed_uids (get_header_v3 payload)))
        (copy_section 16 get_target payload (sec_port_targets (get_header_v3 payload)))
        (copy_section 8 get_rule payload (sec_port_rules (get_header_v3 payload)))
        (copy_section 16 get_mask payload (sec_app_hook_masks (get_header_v3 payload))) = Inr s"
  using assms by (auto simp: policy_snapshot_from_v3_def Let_def split: if_splits)

lemma from_v3_wf:
  assumes "policy_snapshot_from_v3 alloc_ok payload = Inr s"
  shows "snapshot_wf s"
proof (rule build_snapshot_wf)
  note v3 = from_v3_Inr [OF assms]
  show "build_snapshot (get_header_v3 payload)
        (copy_section 4 (\<lambda>bs. get_u32 bs 0) payload (sec_kmod_uids (get_header_v3 payload)))
        (copy_section 4 (\<lambda>bs. get_u32 bs 0) payload (sec_lsposed_uids (get_header_v3 payload)))
        (copy_section 16 get_target payload (sec_port_targets (get_header_v3 payload)))
        (copy_section 8 get_rule payload (sec_port_rules (get_header_v3 payload)))
        (copy_section 16 get_mask payload (sec_app_hook_masks (get_header_v3 payload))) = Inr s"
    by (rule v3(5))
  show "unat (hdr_iface_count (get_header_v3 payload)) \<le> 32" by (rule v3(3))
  from policy_sections_validate_Inr [OF v3(4) v3(1)] v3(2)
  show "sections_size 576
      (length (copy_section 4 (\<lambda>bs. get_u32 bs 0) payload (sec_kmod_uids (get_header_v3 payload))))
      (length (copy_section 4 (\<lambda>bs. get_u32 bs 0) payload (sec_lsposed_uids (get_header_v3 payload))))
      (length (copy_section 16 get_target payload (sec_port_targets (get_header_v3 payload))))
      (length (copy_section 8 get_rule payload (sec_port_rules (get_header_v3 payload))))
      (length (copy_section 16 get_mask payload (sec_app_hook_masks (get_header_v3 payload))))
      \<le> 16777216"
    by (simp add: sections_size_def header_sections_def)
qed simp

lemma from_v4_Inr:
  assumes "policy_snapshot_from_v4 alloc_v3_ok alloc_ok payload = Inr s"
  obtains s3 where
    "policy_snapshot_from_v3 alloc_ok
       (put_header_v3 (v3_header_of_v4 16 (length payload - 16) (get_header_v4 payload)) @
        drop 592 payload) = Inr s3"
    "s = s3\<lparr>kmod_match_mode := hdr_kmod_match_mode (get_header_v4 payload),
            lsposed_match_mode := hdr_lsposed_match_mode (get_header_v4 payload),
            port_match_mode := hdr_port_match_mode (get_header_v4 payload)\<rparr>"
    "hdr_kmod_match_mode (get_header_v4 payload) \<le> 1"
    "hdr_lsposed_match_mode (get_header_v4 payload) \<le> 1"
    "hdr_port_match_mode (get_header_v4 payload) \<le> 1"
  using assms
  by (auto simp: policy_snapshot_from_v4_def Let_def not_less split: if_splits sum.splits)

lemma from_v4_wf:
  assumes "policy_snapshot_from_v4 alloc_v3_ok alloc_ok payload = Inr s"
  shows "snapshot_wf s"
  using from_v4_Inr [OF assms] from_v3_wf by (fastforce simp: snapshot_wf_def)

section \<open>Well-formed payloads are accepted and decode to what was encoded\<close>

definition sections_match :: "nat \<Rightarrow> 'a payload_header_scheme \<Rightarrow> uid_t list \<Rightarrow> uid_t list \<Rightarrow>
    port_target_v3 list \<Rightarrow> port_rule_v3 list \<Rightarrow> app_hook_mask_v3 list \<Rightarrow> bool" where
  "sections_match base h kmod lsposed targets rules masks \<longleftrightarrow>
     [sec_kmod_uids h, sec_lsposed_uids h, sec_port_targets h, sec_port_rules h, sec_app_hook_masks h] =
       sections_from base (length kmod) (length lsposed) (length targets) (length rules) (length masks) \<and>
     unat (total_size h) =
       sections_size base (length kmod) (length lsposed) (length targets) (length rules) (length masks) \<and>
     sections_size base (length kmod) (length lsposed) (length targets) (length rules) (length masks)
       < 2 ^ 32 \<and>
     length (hdr_iface_prefixes h) = 512"

lemma unat_of_nat_32: "n < 2 ^ 32 \<Longrightarrow> unat (of_nat n :: 32 word) = n"
  by (simp add: unat_of_nat)

lemma sections_matchD:
  assumes "sections_match base h kmod lsposed targets rules masks"
  shows "unat (section_offset (sec_kmod_uids h)) = base"
    "unat (section_offset (sec_lsposed_uids h)) = base + length kmod * 4"
    "unat (section_offset (sec_port_targets h)) = base + length kmod * 4 + length lsposed * 4"
    "unat (section_offset (sec_port_rules h)) =
       base + length kmod * 4 + length lsposed * 4 + length targets * 16"
    "unat (section_offset (sec_app_hook_masks h)) =
       base + length kmod * 4 + length lsposed * 4 + length targets * 16 + length rules * 8"
    "unat (section_count (sec_kmod_uids h)) = length kmod"
    "unat (section_count (sec_lsposed_uids h)) = length lsposed"
    "unat (section_count (sec_port_targets h)) = length targets"
    "unat (section_count (sec_port_rules h)) = length rules"
    "unat (section_count (sec_app_hook_masks h)) = length masks"
    "unat (total_size h) = base + length kmod * 4 + length lsposed * 4 + length targets * 16 +
       length rules * 8 + length masks * 16"
    "base + length kmod * 4 + length lsposed * 4 + length targets * 16 +
       length rules * 8 + length masks * 16 < 2 ^ 32"
    "length (hdr_iface_prefixes h) = 512"
  using assms
  by (simp_all add: sections_match_def sections_from_def sections_size_def unat_of_nat_32
      del: of_nat_add of_nat_mult)

lemma length_sections_bytes:
  "length (sections_bytes kmod lsposed targets rules masks) + base =
     sections_size base (length kmod) (length lsposed) (length targets) (length rules) (length masks)"
  by (simp add: sections_bytes_def sections_size_def u32_elem.length_concat_put
      target_elem.length_concat_put rule_elem.length_concat_put mask_elem.length_concat_put)

lemma sections_validate_match:
  assumes "sections_match base h kmod lsposed targets rules masks"
  shows "policy_sections_validate (header_sections h) base
      (sections_size base (length kmod) (length lsposed) (length targets) (length rules) (length masks))
    = Inr (sections_size base (length kmod) (length lsposed) (length targets) (length rules) (length masks))"
  using sections_matchD(12) [OF assms]
  by (simp add: sections_size_def header_sections_def policy_section_validate_def Let_def
      sections_matchD [OF assms])

lemma copy_sections_match:
  assumes m: "sections_match (length hdr) h kmod lsposed targets rules masks"
  defines "payload \<equiv> hdr @ sections_bytes kmod lsposed targets rules masks"
  shows "copy_section 4 (\<lambda>bs. get_u32 bs 0) payload (sec_kmod_uids h) = kmod"
    "copy_section 4 (\<lambda>bs. get_u32 bs 0) payload (sec_lsposed_uids h) = lsposed"
    "copy_section 16 get_target payload (sec_port_targets h) = targets"
    "copy_section 8 get_rule payload (sec_port_rules h) = rules"
    "copy_section 16 get_mask payload (sec_app_hook_masks h) = masks"
proof -
  note lens = u32_elem.length_concat_put target_elem.length_concat_put rule_elem.length_concat_put
  note at = copy_section_def sections_matchD [OF m]
  show "copy_section 4 (\<lambda>bs. get_u32 bs 0) payload (sec_kmod_uids h) = kmod"
    using u32_elem.get_array_put [of hdr kmod]
    by (simp add: at payload_def sections_bytes_def)
  show "copy_section 4 (\<lambda>bs. get_u32 bs 0) payload (sec_lsposed_uids h) = lsposed"
    using u32_elem.get_array_put [of "hdr @ concat (map u32_bytes kmod)" lsposed]
    by (simp add: at payload_def sections_bytes_def lens)
  show "copy_section 16 get_target payload (sec_port_targets h) = targets"
    using target_elem.get_array_put
      [of "hdr @ concat (map u32_bytes kmod) @ concat (map u32_bytes lsposed)" targets]
    by (simp add: at payload_def sections_bytes_def lens add.assoc)
  show "copy_section 8 get_rule payload (sec_port_rules h) = rules"
    using rule_elem.get_array_put
      [of "hdr @ concat (map u32_bytes kmod) @ concat (map u32_bytes lsposed) @
          concat (map put_target targets)" rules]
    by (simp add: at payload_def sections_bytes_def lens add.assoc)
  show "copy_section 16 get_mask payload (sec_app_hook_masks h) = masks"
    using mask_elem.get_array_put
      [of "hdr @ concat (map u32_bytes kmod) @ concat (map u32_bytes lsposed) @
          concat (map put_target targets) @ concat (map put_rule rules)" masks "[]"]
    by (simp add: at payload_def sections_bytes_def lens add.assoc)
qed

lemma from_v3_encode:
  assumes m: "sections_match 576 h kmod lsposed targets rules masks"
    and "unat (hdr_iface_count h) \<le> 32" and "unat (total_size h) \<le> 16777216"
  shows "policy_snapshot_from_v3 alloc_ok (put_header_v3 h @ sections_bytes kmod lsposed targets rules masks)
    = (if alloc_ok then build_snapshot h kmod lsposed targets rules masks else Inl ENOMEM)"
proof -
  have len: "length (put_header_v3 h) = 576"
    using m by (simp add: sections_match_def length_put_header_v3)
  have hdr: "get_header_v3 (put_header_v3 h @ sections_bytes kmod lsposed targets rules masks) = h"
    using m by (simp add: sections_match_def get_put_header_v3)
  have tot: "length (put_header_v3 h @ sections_bytes kmod lsposed targets rules masks) = unat (total_size h)"
    using m len length_sections_bytes [of kmod lsposed targets rules masks 576]
    by (simp add: sections_match_def)
  have val: "policy_sections_validate (header_sections h) 576 (unat (total_size h)) = Inr (unat (total_size h))"
    using sections_validate_match [OF m] m by (simp add: sections_match_def)
  have "576 \<le> unat (total_size h)" using m by (simp add: sections_match_def sections_size_def)
  then show ?thesis
    using assms(2,3) copy_sections_match [of "put_header_v3 h" h kmod lsposed targets rules masks] m len
    by (simp add: policy_snapshot_from_v3_def Let_def hdr tot val del: length_append)
qed

lemma from_v4_encode:
  assumes m: "sections_match 592 h kmod lsposed targets rules masks"
    and "unat (hdr_iface_count h) \<le> 32" and "unat (total_size h) \<le> 16777216 + 16"
    and "hdr_reserved h = 0" and "hdr_kmod_match_mode h \<le> 1" and "hdr_lsposed_match_mode h \<le> 1"
    and "hdr_port_match_mode h \<le> 1"
  shows "policy_snapshot_from_v4 True True (put_header_v4 h @ sections_bytes kmod lsposed targets rules masks)
    = (case build_snapshot (v3_header_of_v4 16 (unat (total_size h) - 16) h) kmod lsposed targets rules masks of
         Inl e \<Rightarrow> Inl e
       | Inr s \<Rightarrow> Inr (s\<lparr>kmod_match_mode := hdr_kmod_match_mode h,
            lsposed_match_mode := hdr_lsposed_match_mode h, port_match_mode := hdr_port_match_mode h\<rparr>))"
proof -
  let ?b = "sections_bytes kmod lsposed targets rules masks"
  let ?h3 = "v3_header_of_v4 16 (unat (total_size h) - 16) h"
  have len: "length (put_header_v4 h) = 592"
    using m by (simp add: sections_match_def length_put_header_v4)
  have hdr: "get_header_v4 (put_header_v4 h @ ?b) = h"
    using m by (simp add: sections_match_def get_put_header_v4)
  have tot: "length (put_header_v4 h @ ?b) = unat (total_size h)"
    using m len length_sections_bytes [of kmod lsposed targets rules masks 592]
    by (simp add: sections_match_def)
  have dr: "drop 592 (put_header_v4 h @ ?b) = ?b" using len by simp
  have big: "592 \<le> unat (total_size h)" using m by (simp add: sections_match_def sections_size_def)
  have offs: "\<not> list_ex (\<lambda>(sec, _). unat (section_offset sec) < 592) (header_sections h)"
    by (simp add: header_sections_def sections_matchD [OF m])
  have modes: "\<not> 1 < hdr_kmod_match_mode h" "\<not> 1 < hdr_lsposed_match_mode h"
      "\<not> 1 < hdr_port_match_mode h"
    using assms(5-7) by (simp_all add: not_less)
  have t3: "unat (total_size ?h3) = unat (total_size h) - 16"
    using unat_less_32 [of "total_size h"] by (simp add: v3_header_of_v4_def unat_of_nat_32)
  have p3: "hdr_iface_prefixes ?h3 = hdr_iface_prefixes h" by (simp add: v3_header_of_v4_def)
  have "[sec_kmod_uids ?h3, sec_lsposed_uids ?h3, sec_port_targets ?h3, sec_port_rules ?h3,
      sec_app_hook_masks ?h3] = sections_from 576 (length kmod) (length lsposed) (length targets)
        (length rules) (length masks)"
    using m by (simp add: sections_match_def sections_from_def v3_header_of_v4_def V4_SECTION_def)
  then have m3: "sections_match 576 ?h3 kmod lsposed targets rules masks"
    using t3 p3 sections_matchD(11-13) [OF m] by (simp add: sections_match_def sections_size_def)
  have "policy_snapshot_from_v3 True (put_header_v3 ?h3 @ ?b) = build_snapshot ?h3 kmod lsposed targets rules masks"
    using from_v3_encode [OF m3, of True] assms(2,3) t3 by (simp add: v3_header_of_v4_def)
  then show ?thesis
    using assms(4) big offs modes
    by (simp add: policy_snapshot_from_v4_def Let_def hdr tot dr del: length_append drop_append)
qed

text \<open>
  The arrays a payload must carry to be accepted: consecutive rule segments, nonzero distinct
  identifiers, and fields in range. Such arrays are accepted, and the snapshot holds them as sets.
\<close>

fun consecutive :: "nat \<Rightarrow> port_target_v3 list \<Rightarrow> nat \<Rightarrow> bool" where
  "consecutive i [] n \<longleftrightarrow> i = n"
| "consecutive i (t # ts) n \<longleftrightarrow>
     unat (first_rule t) = i \<and> consecutive (i + unat (rule_count t)) ts n"

definition parts_ok :: "uid_t list \<Rightarrow> uid_t list \<Rightarrow> port_target_v3 list \<Rightarrow> port_rule_v3 list \<Rightarrow>
    app_hook_mask_v3 list \<Rightarrow> bool" where
  "parts_ok kmod lsposed targets rules masks \<longleftrightarrow>
     distinct kmod \<and> 0 \<notin> set kmod \<and> distinct lsposed \<and> 0 \<notin> set lsposed \<and>
     distinct (map target_uid targets) \<and> distinct (map mask_uid masks) \<and>
     list_all (\<lambda>t. target_uid t \<noteq> 0 \<and> target_mode t \<le> 2 \<and> target_reserved t = (0, 0, 0)) targets \<and>
     consecutive 0 targets (length rules) \<and>
     list_all (\<lambda>r. \<not> rule_rejected r) rules \<and> list_all (\<lambda>m. \<not> mask_rejected m) masks"

lemma consecutive_le: "consecutive i ts n \<Longrightarrow> i \<le> n"
  by (induction ts arbitrary: i) (auto intro: add_leD1)

lemma check_port_targets_accepts:
  "consecutive (unat nr) ts (unat c) \<Longrightarrow>
   list_all (\<lambda>t. target_uid t \<noteq> 0 \<and> target_mode t \<le> 2 \<and> target_reserved t = (0, 0, 0)) ts \<Longrightarrow>
     \<exists>rules'. check_port_targets c nr ts rules = Some (c, rules')"
proof (induction ts arbitrary: nr rules)
  case (Cons t ts)
  from Cons.prems(1) have f: "first_rule t = nr" and rest: "consecutive (unat nr + unat (rule_count t)) ts (unat c)"
    by (auto simp: word_unat_eq_iff)
  from consecutive_le [OF rest] have le: "unat nr + unat (rule_count t) \<le> unat c" .
  then have sum: "unat (nr + rule_count t) = unat nr + unat (rule_count t)"
    using unat_less_32 [of c] by (simp add: unat_word_ariths)
  from le have "rule_count t \<le> c - nr" by (simp add: word_le_nat_alt unat_sub)
  with Cons.prems(2) f have "\<not> target_rejected c nr t" by (simp add: target_rejected_def not_less)
  with Cons.IH [of "nr + rule_count t"] rest sum Cons.prems(2) show ?case by simp
qed (simp add: word_unat_eq_iff)

lemma sorted_uids_ok:
  assumes "distinct uids" "0 \<notin> set uids"
  shows "\<not> uids_rejected (sort_key (\<lambda>u. u) uids)"
proof -
  have "ascending (\<lambda>u. u) (sort_key (\<lambda>u. u) uids)"
    by (rule distinct_sort_key_ascending) (use assms in simp)
  from ascending_no_dup [OF this] have "\<not> has_adjacent_dup (sort_key (\<lambda>u. u) uids)" by simp
  moreover have "hd (sort_key (\<lambda>u. u) uids) \<noteq> 0" if "sort_key (\<lambda>u. u) uids \<noteq> []"
    using hd_in_set [OF that] assms(2) by auto
  ultimately show ?thesis by (auto simp: uids_rejected_def)
qed

lemma build_snapshot_accepts:
  assumes ok: "parts_ok kmod lsposed targets rules masks"
    and len: "unat (section_count (sec_port_rules h)) = length rules"
  shows "\<exists>s. build_snapshot h kmod lsposed targets rules masks = Inr s \<and>
    set (kmod_uids s) = set kmod \<and> set (lsposed_uids s) = set lsposed \<and>
    set (port_targets s) = set targets \<and>
    (\<forall>t \<in> set targets. target_rules (port_rules s) t = sort_key rule_key (target_rules rules t)) \<and>
    set (app_hook_masks s) = force_port_hooks ` set masks \<and>
    active_hooks_mask s = hdr_active_hooks_mask h OR port_hook_bits \<and>
    java_hooks_mask s = hdr_java_hooks_mask h"
proof -
  let ?c = "section_count (sec_port_rules h)"
  from check_port_targets_accepts [of 0 targets ?c rules] ok len obtain rules' where
    c: "check_port_targets ?c 0 targets rules = Some (?c, rules')"
    by (auto simp: parts_ok_def)
  note seg = check_port_targets_Some [OF c _ len [symmetric]]
  from seg have "set rules' = set rules" by (metis mset_eq_setD word_zero_le)
  then have r: "\<not> list_ex rule_rejected rules'" using ok by (auto simp: parts_ok_def list_all_iff list_ex_iff)
  have "\<not> has_adjacent_dup (map target_uid (sort_key target_uid targets))"
    using ok by (intro ascending_no_dup distinct_sort_key_ascending) (simp add: parts_ok_def)
  moreover have "\<not> has_adjacent_dup (map mask_uid (sort_key mask_uid (map force_port_hooks masks)))"
    using ok by (intro ascending_no_dup distinct_sort_key_ascending) (simp add: parts_ok_def comp_def)
  moreover have "\<not> list_ex mask_rejected masks" using ok by (auto simp: parts_ok_def list_all_iff list_ex_iff)
  ultimately show ?thesis
    using ok r c seg sorted_uids_ok [of kmod] sorted_uids_ok [of lsposed]
    by (simp add: build_snapshot_def Let_def parts_ok_def)
qed

section \<open>Version 2 payloads\<close>

lemma length_v2_flatten: "length (fst (v2_flatten i ts)) = length ts"
  by (induction ts arbitrary: i) (simp_all add: Let_def split: prod.splits, metis fst_conv)

lemma length_v2_rules:
  "list_all (\<lambda>t. v2_rule_count t \<le> 16) ts \<Longrightarrow> length (snd (v2_flatten i ts)) \<le> 16 * length ts"
proof (induction ts arbitrary: i)
  case (Cons t ts)
  from Cons.prems have "min (length (v2_rules t)) (nat (v2_rule_count t)) \<le> 16" by auto
  with Cons.IH [of "i + of_nat (nat (v2_rule_count t))"] Cons.prems show ?case
    by (simp add: Let_def split: prod.splits) (metis add_mono snd_conv min.commute)
qed simp

lemma v2_flatten_consecutive:
  "list_all (\<lambda>t. 0 \<le> v2_rule_count t \<and> v2_rule_count t \<le> 16 \<and> length (v2_rules t) = 16) ts \<Longrightarrow>
   unat i + 16 * length ts < 2 ^ 32 \<Longrightarrow>
     consecutive (unat i) (fst (v2_flatten i ts)) (unat i + length (snd (v2_flatten i ts)))"
proof (induction ts arbitrary: i)
  case (Cons t ts)
  let ?n = "nat (v2_rule_count t)"
  from Cons.prems have n: "?n \<le> 16" "length (v2_rules t) = 16" by auto
  then have u: "unat (of_nat ?n :: u32) = ?n" by (simp add: unat_of_nat_32)
  from n Cons.prems(2) have "unat (i + of_nat ?n) = unat i + ?n"
    by (simp add: unat_word_ariths unat_of_nat)
  with Cons.IH [of "i + of_nat ?n"] Cons.prems n u show ?case
    by (auto simp: Let_def min_def add.assoc split: prod.splits)
qed simp

lemma v2_rules_accepted:
  "list_all (\<lambda>t. \<not> v2_target_rejected t) ts \<Longrightarrow>
     list_all (\<lambda>r. \<not> rule_rejected r) (snd (v2_flatten i ts))"
proof (induction ts arbitrary: i)
  case (Cons t ts)
  have "\<not> rule_rejected (v2_rule r)" if "r \<in> set (take (nat (v2_rule_count t)) (v2_rules t))" for r
    using that Cons.prems by (cases r)
      (auto simp: v2_target_rejected_def rule_rejected_def v2_rule_def list_ex_iff not_less)
  with Cons.IH [of "i + of_nat (nat (v2_rule_count t))"] Cons.prems show ?case
    by (auto simp: Let_def list_all_iff split: prod.splits)
qed simp

definition v2_shape :: "policy_payload_v2 \<Rightarrow> bool" where
  "v2_shape p \<longleftrightarrow> length (v2_kmod_uids p) = 512 \<and> length (v2_lsposed_uids p) = 512 \<and>
     length (v2_port_targets p) = 512 \<and> list_all (\<lambda>t. length (v2_rules t) = 16) (v2_port_targets p) \<and>
     length (v2_iface_prefixes p) = 512 \<and> length (v2_masks p) = 512"

lemma v3_payload_of_v2_Inr:
  assumes sh: "v2_shape p" and ok: "v3_payload_of_v2 alloc_ok p = Inr payload"
    and parts: "kmod = take (nat (v2_kmod_count p)) (v2_kmod_uids p)"
      "lsposed = take (nat (v2_lsposed_count p)) (v2_lsposed_uids p)"
      "(targets, rules) = v2_flatten 0 (take (nat (v2_port_count p)) (v2_port_targets p))"
      "masks = map v2_mask (take (nat (v2_mask_count p)) (v2_masks p))"
      "h = v3_header_of_v2 p (length kmod) (length lsposed) (length targets) (length rules) (length masks)"
  shows "payload = put_header_v3 h @ sections_bytes kmod lsposed targets rules masks"
    and "sections_match 576 h kmod lsposed targets rules masks"
    and "unat (hdr_iface_count h) \<le> 32" and "unat (total_size h) \<le> 16777216"
    and "consecutive 0 targets (length rules)" and "list_all (\<lambda>r. \<not> rule_rejected r) rules"
proof -
  let ?ts = "take (nat (v2_port_count p)) (v2_port_targets p)"
  from ok have acc: "list_all (\<lambda>t. \<not> v2_target_rejected t) ?ts"
    and ifc: "0 \<le> v2_iface_count p" "v2_iface_count p \<le> 32"
    by (auto simp: v3_payload_of_v2_def Let_def list_all_iff list_ex_iff split: if_splits)
  from acc sh have ts: "list_all (\<lambda>t. 0 \<le> v2_rule_count t \<and> v2_rule_count t \<le> 16 \<and> length (v2_rules t) = 16) ?ts"
    by (auto simp: list_all_iff v2_target_rejected_def v2_shape_def not_less dest: in_set_takeD)
  have lt: "length ?ts \<le> 512" using sh by (simp add: v2_shape_def)
  have lens: "length kmod \<le> 512" "length lsposed \<le> 512" "length masks \<le> 512" "length targets \<le> 512"
    "length rules \<le> 8192"
    using sh parts(1,2,4) lt length_v2_flatten [of 0 ?ts] length_v2_rules [of ?ts 0] ts
    by (auto simp: v2_shape_def parts(3) [symmetric] list_all_iff)
  have sz: "sections_size 576 (length kmod) (length lsposed) (length targets) (length rules) (length masks) \<le> 16777216"
    using lens by (simp add: sections_size_def)
  show "payload = put_header_v3 h @ sections_bytes kmod lsposed targets rules masks"
    using ok parts by (auto simp: v3_payload_of_v2_def Let_def split: if_splits prod.splits)
  show "sections_match 576 h kmod lsposed targets rules masks"
    using sz sh by (simp add: sections_match_def parts(5) v3_header_of_v2_def Let_def sections_from_def
        v2_shape_def unat_of_nat_32)
  show "unat (total_size h) \<le> 16777216"
    using sz by (simp add: parts(5) v3_header_of_v2_def Let_def unat_of_nat_32)
  from ifc obtain n where "v2_iface_count p = int n" "n \<le> 32" by (auto elim: nonneg_int_cases)
  then show "unat (hdr_iface_count h) \<le> 32"
    by (simp add: parts(5) v3_header_of_v2_def Let_def unat_of_nat_32)
  show "consecutive 0 targets (length rules)"
    using v2_flatten_consecutive [OF ts, of 0] lt by (simp add: parts(3) [symmetric])
  show "list_all (\<lambda>r. \<not> rule_rejected r) rules"
    using v2_rules_accepted [OF acc, of 0] by (simp add: parts(3) [symmetric])
qed

lemma v2_flatten_reserved: "list_all (\<lambda>t. target_reserved t = (0, 0, 0)) (fst (v2_flatten i ts))"
  by (induction ts arbitrary: i) (auto simp: Let_def split: prod.splits, metis fst_conv)

section \<open>Properties of the payload decoders\<close>

text \<open>A sample payload: two exceptions, one port target with two rules out of order, one override.\<close>

definition sample_payload_rules :: "port_rule_v3 list" where
  "sample_payload_rules =
     [\<lparr>start_port = 1000, end_port = 2000, rule_protocol = 2, rule_reserved = (0, 0, 0)\<rparr>,
      \<lparr>start_port = 80, end_port = 90, rule_protocol = 0, rule_reserved = (0, 0, 0)\<rparr>]"

definition sample_payload_targets :: "port_target_v3 list" where
  "sample_payload_targets = [\<lparr>target_uid = 10050, first_rule = 0, rule_count = 2, target_mode = 0,
     target_reserved = (0, 0, 0)\<rparr>]"

definition sample_header_v4 :: "nat \<Rightarrow> payload_header_v4" where
  "sample_header_v4 base = \<lparr>total_size = of_nat base + 40, hdr_flags = 0, hdr_active_hooks_mask = 3,
     hdr_java_hooks_mask = 0, hdr_debug_enabled = 5, hdr_iface_count = 0,
     hdr_iface_prefixes = replicate 512 0,
     sec_kmod_uids = \<lparr>section_offset = of_nat base, section_count = 2\<rparr>,
     sec_lsposed_uids = \<lparr>section_offset = of_nat base + 8, section_count = 0\<rparr>,
     sec_port_targets = \<lparr>section_offset = of_nat base + 8, section_count = 1\<rparr>,
     sec_port_rules = \<lparr>section_offset = of_nat base + 24, section_count = 2\<rparr>,
     sec_app_hook_masks = \<lparr>section_offset = of_nat base + 40, section_count = 0\<rparr>,
     hdr_kmod_match_mode = 1, hdr_lsposed_match_mode = 1, hdr_port_match_mode = 1, hdr_reserved = 0\<rparr>"

definition sample_body :: "u8 list" where
  "sample_body = sections_bytes [10002, 10001] [] sample_payload_targets sample_payload_rules []"

lemma sample_parts_ok: "parts_ok [10002, 10001] [] sample_payload_targets sample_payload_rules []"
  by (simp add: parts_ok_def sample_payload_targets_def sample_payload_rules_def rule_rejected_def)

lemma sample_match:
  "sections_match 592 (sample_header_v4 592) [10002, 10001] [] sample_payload_targets sample_payload_rules []"
  by (simp add: sections_match_def sections_from_def sections_size_def sample_header_v4_def
      sample_payload_targets_def sample_payload_rules_def)

text \<open>
  C2: Whatever bytes user space passes as a version 3 payload, if the decoder accepts them the
  snapshot satisfies the invariant the readers rely on: UID arrays strictly ascending and without
  zero, port targets and overrides strictly ascending, every rule segment inside the rule array
  and sorted, the segments adding up to the whole array, rules with start at most end, match modes
  in range, the CONNECT and BIND bits forced, and the sections within the size limit.
\<close>

theorem accepted_v3_snapshot_wf:
  assumes "policy_snapshot_from_v3 alloc_ok payload = Inr s"
  shows "snapshot_wf s"
  using from_v3_wf [OF assms] .

definition sample_payload_v3 :: "u8 list" where
  "sample_payload_v3 = put_header_v3 (v3_header_of_v4 16 616 (sample_header_v4 592)) @ sample_body"

lemma sample_v3_accepted: "\<exists>s. policy_snapshot_from_v3 True sample_payload_v3 = Inr s"
proof -
  let ?h = "v3_header_of_v4 16 616 (sample_header_v4 592)"
  have m: "sections_match 576 ?h [10002, 10001] [] sample_payload_targets sample_payload_rules []"
    by (simp add: sections_match_def sections_from_def sections_size_def sample_header_v4_def
        v3_header_of_v4_def V4_SECTION_def sample_payload_targets_def sample_payload_rules_def)
  have "policy_snapshot_from_v3 True sample_payload_v3 =
      build_snapshot ?h [10002, 10001] [] sample_payload_targets sample_payload_rules []"
    using from_v3_encode [OF m, of True]
    by (simp add: sample_payload_v3_def sample_body_def v3_header_of_v4_def sample_header_v4_def)
  moreover have "unat (section_count (sec_port_rules ?h)) = length sample_payload_rules"
    by (simp add: v3_header_of_v4_def sample_header_v4_def V4_SECTION_def sample_payload_rules_def)
  ultimately show ?thesis using build_snapshot_accepts [OF sample_parts_ok] by metis
qed

theorem accepted_v3_snapshot_wf_witness:
  "\<exists>s. policy_snapshot_from_v3 True sample_payload_v3 = Inr s \<and> snapshot_wf s"
  using sample_v3_accepted accepted_v3_snapshot_wf [of True sample_payload_v3] by blast

text \<open>
  Every section an accepted version 3 payload makes the kernel copy lies inside the payload,
  after the header, and the sections follow each other without gap or overlap up to its last byte:
  no copy reads outside the buffer, for any offsets and counts user space chose.
\<close>

theorem v3_section_reads_in_bounds:
  assumes "policy_snapshot_from_v3 alloc_ok payload = Inr s"
    and "(sec, esize) \<in> set (header_sections (get_header_v3 payload))"
  shows "sizeof_payload_v3 \<le> unat (section_offset sec) \<and>
    unat (section_offset sec) + unat (section_count sec) * esize \<le> length payload \<and>
    sizeof_payload_v3 + (\<Sum>(sec, esize) \<leftarrow> header_sections (get_header_v3 payload).
      unat (section_count sec) * esize) = length payload"
  using policy_sections_validate_Inr [OF from_v3_Inr(4) [OF assms(1)] from_v3_Inr(1) [OF assms(1)]] assms(2)
  by auto

theorem v3_section_reads_witness:
  "unat (section_offset (sec_port_rules (get_header_v3 sample_payload_v3))) +
     unat (section_count (sec_port_rules (get_header_v3 sample_payload_v3))) * 8 \<le> length sample_payload_v3"
proof -
  from sample_v3_accepted obtain s where "policy_snapshot_from_v3 True sample_payload_v3 = Inr s" ..
  from v3_section_reads_in_bounds [OF this] show ?thesis by (simp add: header_sections_def)
qed

text \<open>
  C4: The version 4 decoder is faithful: a payload laid out as the controller lays it out, with
  distinct nonzero UIDs, consecutive rule segments and fields in range, is accepted, and the
  snapshot holds exactly those UIDs, targets, rules (each segment sorted) and overrides, with the
  match modes of the header. The rewriting into version 3 form loses nothing.
\<close>

theorem v4_payload_round_trip:
  assumes "sections_match sizeof_payload_v4 h kmod lsposed targets rules masks"
    and "parts_ok kmod lsposed targets rules masks"
    and "unat (hdr_iface_count h) \<le> MAX_IFACE_PREFIXES"
    and "unat (total_size h) \<le> VPNHIDE_POLICY_MAX_BYTES"
    and "hdr_reserved h = 0" and "hdr_kmod_match_mode h \<le> 1" and "hdr_lsposed_match_mode h \<le> 1"
    and "hdr_port_match_mode h \<le> 1"
  shows "\<exists>s. policy_snapshot_from_v4 True True
       (put_header_v4 h @ sections_bytes kmod lsposed targets rules masks) = Inr s \<and>
     set (kmod_uids s) = set kmod \<and> set (lsposed_uids s) = set lsposed \<and>
     set (port_targets s) = set targets \<and>
     (\<forall>t \<in> set targets. target_rules (port_rules s) t = sort_key rule_key (target_rules rules t)) \<and>
     set (app_hook_masks s) = force_port_hooks ` set masks \<and>
     kmod_match_mode s = hdr_kmod_match_mode h \<and> lsposed_match_mode s = hdr_lsposed_match_mode h \<and>
     port_match_mode s = hdr_port_match_mode h"
proof -
  let ?h3 = "v3_header_of_v4 16 (unat (total_size h) - 16) h"
  have "unat (section_count (sec_port_rules ?h3)) = length rules"
    using sections_matchD(9) [OF assms(1)] by (simp add: v3_header_of_v4_def V4_SECTION_def)
  from build_snapshot_accepts [OF assms(2) this] obtain s where
    s: "build_snapshot ?h3 kmod lsposed targets rules masks = Inr s"
    "set (kmod_uids s) = set kmod" "set (lsposed_uids s) = set lsposed" "set (port_targets s) = set targets"
    "\<forall>t \<in> set targets. target_rules (port_rules s) t = sort_key rule_key (target_rules rules t)"
    "set (app_hook_masks s) = force_port_hooks ` set masks" by blast
  show ?thesis
    using from_v4_encode [OF assms(1,3) _ assms(5-8)] assms(4) s by simp
qed

theorem v4_payload_round_trip_witness:
  "\<exists>s. policy_snapshot_from_v4 True True (put_header_v4 (sample_header_v4 592) @ sample_body) = Inr s \<and>
     set (kmod_uids s) = {10001, 10002} \<and> port_match_mode s = 1"
  using v4_payload_round_trip [OF sample_match sample_parts_ok]
  by (auto simp: sample_header_v4_def sample_body_def)

text \<open>
  The version 4 decoder keeps the same invariant for arbitrary bytes.
\<close>

theorem accepted_v4_snapshot_wf:
  assumes "policy_snapshot_from_v4 alloc_v3_ok alloc_ok payload = Inr s"
  shows "snapshot_wf s"
  using from_v4_wf [OF assms] .

theorem accepted_v4_snapshot_wf_witness:
  "\<exists>s. policy_snapshot_from_v4 True True (put_header_v4 (sample_header_v4 592) @ sample_body) = Inr s \<and>
     snapshot_wf s"
proof -
  have "unat (section_count (sec_port_rules (v3_header_of_v4 16 616 (sample_header_v4 592)))) =
      length sample_payload_rules"
    by (simp add: v3_header_of_v4_def sample_header_v4_def V4_SECTION_def sample_payload_rules_def)
  from build_snapshot_accepts [OF sample_parts_ok this]
  have "\<exists>s. policy_snapshot_from_v4 True True (put_header_v4 (sample_header_v4 592) @ sample_body) = Inr s"
    using from_v4_encode [OF sample_match] by (auto simp: sample_header_v4_def sample_body_def)
  then show ?thesis using accepted_v4_snapshot_wf [of True True "put_header_v4 (sample_header_v4 592) @ sample_body"] by blast
qed

text \<open>
  The version 2 path loses nothing: for a structure with arrays of their C sizes whose counts
  and rules are in range, the conversion writes a version 3 payload that the version 3 decoder
  accepts and reads back as the same UIDs, targets and rules, provided UIDs are distinct and
  nonzero, modes known and override flags at most one.
\<close>

theorem v2_payload_round_trip:
  assumes "v2_shape p" and "v3_payload_of_v2 True p = Inr payload"
    and "(targets, rules) = v2_flatten 0 (take (nat (v2_port_count p)) (v2_port_targets p))"
    and "kmod = take (nat (v2_kmod_count p)) (v2_kmod_uids p)"
    and "lsposed = take (nat (v2_lsposed_count p)) (v2_lsposed_uids p)"
    and "masks = map v2_mask (take (nat (v2_mask_count p)) (v2_masks p))"
    and "distinct kmod" "0 \<notin> set kmod" "distinct lsposed" "0 \<notin> set lsposed"
    and "distinct (map target_uid targets)" "distinct (map mask_uid masks)"
    and "list_all (\<lambda>t. target_uid t \<noteq> 0 \<and> target_mode t \<le> 2) targets"
    and "list_all (\<lambda>m. \<not> mask_rejected m) masks"
  shows "\<exists>s. policy_snapshot_from_v3 True payload = Inr s \<and> set (kmod_uids s) = set kmod \<and>
    set (lsposed_uids s) = set lsposed \<and> set (port_targets s) = set targets \<and>
    (\<forall>t \<in> set targets. target_rules (port_rules s) t = sort_key rule_key (target_rules rules t)) \<and>
    set (app_hook_masks s) = force_port_hooks ` set masks"
proof -
  let ?h = "v3_header_of_v2 p (length kmod) (length lsposed) (length targets) (length rules) (length masks)"
  note c = v3_payload_of_v2_Inr [OF assms(1,2,4,5,3,6) refl]
  have "list_all (\<lambda>t. target_reserved t = (0, 0, 0)) targets"
    using v2_flatten_reserved [of 0 "take (nat (v2_port_count p)) (v2_port_targets p)"] assms(3)
    by (metis fst_conv)
  with c(5,6) assms(7-14) have ok: "parts_ok kmod lsposed targets rules masks"
    by (auto simp: parts_ok_def list_all_iff)
  from build_snapshot_accepts [OF ok sections_matchD(9) [OF c(2)]] from_v3_encode [OF c(2-4), of True] c(1)
  show ?thesis by auto
qed

definition sample_v2 :: policy_payload_v2 where
  "sample_v2 = \<lparr>v2_kmod_count = 1, v2_kmod_uids = 10001 # replicate 511 0,
     v2_lsposed_count = 0, v2_lsposed_uids = replicate 512 0, v2_port_count = 1,
     v2_port_targets = \<lparr>v2_uid = 10050, v2_rule_count = 1, v2_mode = 0,
       v2_rules = (80, 90, 0) # replicate 15 (0, 0, 0)\<rparr> #
       replicate 511 \<lparr>v2_uid = 0, v2_rule_count = 0, v2_mode = 0, v2_rules = replicate 16 (0, 0, 0)\<rparr>,
     v2_iface_count = 0, v2_iface_prefixes = replicate 512 0, v2_mask_count = 0,
     v2_masks = replicate 512 (0, 0, 0, 0, 0), v2_active_hooks_mask = 0, v2_java_hooks_mask = 0,
     v2_debug_enabled = 0, v2_flags = 0\<rparr>"

theorem v2_payload_round_trip_witness:
  "\<exists>payload s. v3_payload_of_v2 True sample_v2 = Inr payload \<and>
     policy_snapshot_from_v3 True payload = Inr s \<and> set (kmod_uids s) = {10001} \<and>
     target_uid ` set (port_targets s) = {10050}"
proof -
  have shape: "v2_shape sample_v2" by (simp add: v2_shape_def sample_v2_def list_all_iff)
  have "\<exists>payload. v3_payload_of_v2 True sample_v2 = Inr payload"
    by (simp add: v3_payload_of_v2_def sample_v2_def Let_def v2_target_rejected_def split: prod.split)
  then obtain payload where p: "v3_payload_of_v2 True sample_v2 = Inr payload" ..
  let ?t = "\<lparr>target_uid = 10050, first_rule = 0, rule_count = 1, target_mode = 0, target_reserved = (0, 0, 0)\<rparr>"
  have f: "([?t], [v2_rule (80, 90, 0)]) =
      v2_flatten 0 (take (nat (v2_port_count sample_v2)) (v2_port_targets sample_v2))"
    by (simp add: sample_v2_def)
  from v2_payload_round_trip [OF shape p f refl refl refl] p show ?thesis
    by (auto simp: sample_v2_def)
qed

end
