(* ===== verification/Policy_Match.thy ===== *)
theory Policy_Match
  imports Policy_Snapshot
begin

text \<open>
  The readers of a published snapshot: \<^verbatim>\<open>vpnhide_uid_matches_mode\<close>, \<^verbatim>\<open>is_target_uid_val\<close>,
  \<^verbatim>\<open>lookup_app_kernel_mask\<close>, \<^verbatim>\<open>is_hook_active\<close> and \<^verbatim>\<open>vpnhide_find_port_target\<close> of kmod/main.c
  and \<^verbatim>\<open>should_block_port\<close> of kmod/hooks_socket.c. The RCU pointer to the snapshot is an option
  (None before the first policy). The lemmas give each reader its meaning over sets, which is
  what the searches and the early exit of the rule scan compute on a well-formed snapshot.
\<close>

section \<open>Membership of a UID in a layer\<close>

definition uid_protected :: "uid_t \<Rightarrow> bool" where
  "uid_protected uid \<longleftrightarrow> uid = 0 \<or> uid = 1000 \<or> uid mod 100000 < 10000"

definition vpnhide_uid_matches_mode :: "uid_t list \<Rightarrow> u32 \<Rightarrow> uid_t \<Rightarrow> bool" where
  "vpnhide_uid_matches_mode uids mode uid =
     (if uid_protected uid then False
      else
        let found = (if uids = [] then False else entry (\<lambda>u. u) uids uid \<noteq> None) in
        if mode = VPNHIDE_MATCH_EXCLUDE then \<not> found else found)"

definition is_target_uid_val :: "policy_snapshot option \<Rightarrow> uid_t \<Rightarrow> bool" where
  "is_target_uid_val global uid = (case global of
     None \<Rightarrow> False
   | Some s \<Rightarrow> vpnhide_uid_matches_mode (kmod_uids s) (kmod_match_mode s) uid)"

section \<open>Hook masks\<close>

definition lookup_app_kernel_mask :: "policy_snapshot option \<Rightarrow> uid_t \<Rightarrow> u32 option" where
  "lookup_app_kernel_mask global uid = (case global of
     None \<Rightarrow> None
   | Some s \<Rightarrow> (case entry mask_uid (app_hook_masks s) uid of
       None \<Rightarrow> None
     | Some m \<Rightarrow> if has_kernel_override m \<noteq> 0 then Some (kernel_mask m) else None))"

definition is_hook_active :: "policy_snapshot option \<Rightarrow> vpnhide_hook_idx \<Rightarrow> uid_t \<Rightarrow> bool" where
  "is_hook_active global index uid = (case global of
     None \<Rightarrow> False
   | Some s \<Rightarrow>
       let mask = (case entry mask_uid (app_hook_masks s) uid of
             None \<Rightarrow> active_hooks_mask s
           | Some m \<Rightarrow> if has_kernel_override m \<noteq> 0 then kernel_mask m else active_hooks_mask s)
       in mask AND push_bit (hook_bit index) 1 \<noteq> 0)"

definition vpnhide_debug_is_enabled :: "policy_snapshot option \<Rightarrow> bool" where
  "vpnhide_debug_is_enabled global = (case global of None \<Rightarrow> False | Some s \<Rightarrow> debug_enabled s \<noteq> 0)"

definition vpnhide_active_hooks_mask :: "policy_snapshot option \<Rightarrow> u32" where
  "vpnhide_active_hooks_mask global = (case global of None \<Rightarrow> 0 | Some s \<Rightarrow> active_hooks_mask s)"

definition vpnhide_java_hooks_mask :: "policy_snapshot option \<Rightarrow> u32" where
  "vpnhide_java_hooks_mask global = (case global of None \<Rightarrow> 0 | Some s \<Rightarrow> java_hooks_mask s)"

section \<open>Port targets and port rules\<close>

definition deny_all :: port_target_v3 where
  "deny_all = \<lparr>target_uid = 0, first_rule = 0, rule_count = 0,
     target_mode = VH_PORT_POLICY_DENY_ALL, target_reserved = (0, 0, 0)\<rparr>"

definition vpnhide_find_port_target :: "policy_snapshot option \<Rightarrow> uid_t \<Rightarrow> port_target_v3 option" where
  "vpnhide_find_port_target global uid = (case global of
     None \<Rightarrow> None
   | Some s \<Rightarrow> (case entry target_uid (port_targets s) uid of
       Some t \<Rightarrow> Some t
     | None \<Rightarrow>
         if port_match_mode s = VPNHIDE_MATCH_EXCLUDE \<and>
            vpnhide_uid_matches_mode [] VPNHIDE_MATCH_EXCLUDE uid
         then Some deny_all else None))"

definition rule_covers :: "port_rule_v3 \<Rightarrow> u16 \<Rightarrow> u8 \<Rightarrow> bool" where
  "rule_covers r port proto \<longleftrightarrow> start_port r \<le> port \<and> port \<le> end_port r \<and>
     (rule_protocol r = VH_PROTO_BOTH \<or> rule_protocol r = proto)"

fun scan_rules :: "port_rule_v3 list \<Rightarrow> u16 \<Rightarrow> u8 \<Rightarrow> bool" where
  "scan_rules [] port proto = False"
| "scan_rules (r # rs) port proto =
     (if rule_covers r port proto then True
      else if start_port r > port then False
      else scan_rules rs port proto)"

definition should_block_port :: "policy_snapshot \<Rightarrow> port_target_v3 \<Rightarrow> u16 \<Rightarrow> u8 \<Rightarrow> bool" where
  "should_block_port s t port proto =
     (if target_mode t = VH_PORT_POLICY_UNRESTRICTED then False
      else if target_mode t = VH_PORT_POLICY_DENY_ALL then True
      else scan_rules (target_rules (port_rules s) t) port proto)"

section \<open>Meaning of the readers\<close>

lemma snapshot_wfD [snapshot_wf_rules]:
  assumes "snapshot_wf s"
  shows "ascending (\<lambda>u. u) (kmod_uids s)" "ascending (\<lambda>u. u) (lsposed_uids s)"
    "ascending target_uid (port_targets s)" "ascending mask_uid (app_hook_masks s)"
    "\<And>t. t \<in> set (port_targets s) \<Longrightarrow> target_wf (port_rules s) t"
    "\<And>m. m \<in> set (app_hook_masks s) \<Longrightarrow> mask_wf m"
    "\<And>r. r \<in> set (port_rules s) \<Longrightarrow> rule_wf r"
    "active_hooks_mask s AND port_hook_bits = port_hook_bits"
  using assms by (simp_all add: snapshot_wf_def uids_wf_def list_all_iff)

lemma uid_matches_mode_iff:
  assumes "ascending (\<lambda>u. u) uids"
  shows "vpnhide_uid_matches_mode uids mode uid \<longleftrightarrow>
    \<not> uid_protected uid \<and> (uid \<in> set uids \<longleftrightarrow> mode \<noteq> 1)"
  using entry_None_iff [OF assms, of uid]
  by (auto simp: vpnhide_uid_matches_mode_def Let_def)

lemma uid_matches_Nil: "vpnhide_uid_matches_mode [] mode uid \<longleftrightarrow> \<not> uid_protected uid \<and> mode = 1"
  by (simp add: vpnhide_uid_matches_mode_def)

lemma app_kernel_mask_iff:
  assumes "snapshot_wf s"
  shows "lookup_app_kernel_mask (Some s) uid = Some k \<longleftrightarrow>
    (\<exists>m \<in> set (app_hook_masks s). mask_uid m = uid \<and> has_kernel_override m \<noteq> 0 \<and> kernel_mask m = k)"
  using entry_lookup.lookup_Some [OF snapshot_wfD(4) [OF assms], of uid]
    ascending_key_inj [OF snapshot_wfD(4) [OF assms]]
  by (cases "entry mask_uid (app_hook_masks s) uid")
    (force simp: lookup_app_kernel_mask_def)+

lemma is_hook_active_lookup:
  "is_hook_active (Some s) index uid =
     (case lookup_app_kernel_mask (Some s) uid of
        Some k \<Rightarrow> bit k (hook_bit index) | None \<Rightarrow> bit (active_hooks_mask s) (hook_bit index))"
  by (auto simp: is_hook_active_def lookup_app_kernel_mask_def Let_def bit_iff_and_push_bit_not_eq_0
      split: option.splits)

lemma port_hook_bits_bit:
  assumes "k AND port_hook_bits = port_hook_bits"
  shows "bit k (hook_bit HOOK_CONNECT)" and "bit k (hook_bit HOOK_BIND)"
proof -
  have "bit port_hook_bits 13" "bit port_hook_bits 16"
    by (simp_all add: port_hook_bits_def bit_simps)
  with assms have "bit (k AND port_hook_bits) 13" "bit (k AND port_hook_bits) 16" by simp_all
  then show "bit k (hook_bit HOOK_CONNECT)" "bit k (hook_bit HOOK_BIND)"
    by (simp_all add: bit_simps)
qed

lemma port_hooks_active:
  assumes wf: "snapshot_wf s" and h: "h = HOOK_CONNECT \<or> h = HOOK_BIND"
  shows "is_hook_active (Some s) h uid"
proof (cases "lookup_app_kernel_mask (Some s) uid")
  case None
  with h port_hook_bits_bit [OF snapshot_wfD(8) [OF wf]] show ?thesis
    by (auto simp: is_hook_active_lookup)
next
  case (Some k)
  with app_kernel_mask_iff [OF wf] snapshot_wfD(6) [OF wf] have "k AND port_hook_bits = port_hook_bits"
    by (auto simp: mask_wf_def)
  with Some h port_hook_bits_bit show ?thesis by (auto simp: is_hook_active_lookup)
qed

lemma find_port_target_iff:
  assumes "snapshot_wf s"
  shows "vpnhide_find_port_target (Some s) uid = Some t \<longleftrightarrow>
    t \<in> set (port_targets s) \<and> target_uid t = uid \<or>
    uid \<notin> target_uid ` set (port_targets s) \<and> port_match_mode s = 1 \<and> \<not> uid_protected uid \<and>
    t = deny_all"
  using entry_lookup.lookup_Some [OF snapshot_wfD(3) [OF assms], of uid]
    entry_lookup.lookup_None [OF snapshot_wfD(3) [OF assms], of uid]
  by (cases "entry target_uid (port_targets s) uid")
    (auto simp: vpnhide_find_port_target_def uid_matches_Nil)

lemma scan_rules_sorted:
  "sorted (map rule_key rs) \<Longrightarrow> scan_rules rs port proto \<longleftrightarrow> (\<exists>r \<in> set rs. rule_covers r port proto)"
proof (induction rs)
  case (Cons r rs)
  have "start_port r \<le> start_port r'" if "r' \<in> set rs" for r'
    using Cons.prems that by (auto simp: rule_key_def less_eq_prod_def intro: less_imp_le)
  then have "\<not> rule_covers r' port proto" if "start_port r > port" "r' \<in> set rs" for r'
    using that by (fastforce simp: rule_covers_def)
  with Cons show ?case by auto
qed simp

lemma should_block_port_iff:
  assumes "target_wf (port_rules s) t"
  shows "should_block_port s t port proto \<longleftrightarrow>
    target_mode t = 2 \<or>
    target_mode t = 0 \<and> (\<exists>r \<in> set (target_rules (port_rules s) t). rule_covers r port proto)"
proof -
  have "target_mode t = 0 \<or> target_mode t = 1 \<or> target_mode t = 2"
    using assms by (simp add: target_wf_def) unat_arith
  then show ?thesis
    using assms scan_rules_sorted [of "target_rules (port_rules s) t" port proto]
    by (auto simp: should_block_port_def target_wf_def)
qed

lemma target_wf_deny_all_block: "should_block_port s deny_all port proto"
  by (simp add: should_block_port_def deny_all_def)

section \<open>A sample snapshot\<close>

text \<open>
  An allowlist policy with one exception, one port target with two rules, and one hook override:
  the concrete input of the witnesses.
\<close>

definition sample_rules :: "port_rule_v3 list" where
  "sample_rules = [\<lparr>start_port = 80, end_port = 90, rule_protocol = 0, rule_reserved = (0, 0, 0)\<rparr>,
     \<lparr>start_port = 1000, end_port = 2000, rule_protocol = 2, rule_reserved = (0, 0, 0)\<rparr>]"

definition sample_target :: port_target_v3 where
  "sample_target = \<lparr>target_uid = 10050, first_rule = 0, rule_count = 2, target_mode = 0,
     target_reserved = (0, 0, 0)\<rparr>"

definition sample_policy :: policy_snapshot where
  "sample_policy = \<lparr>active_hooks_mask = 0xFFFFFFFF, java_hooks_mask = 0, debug_enabled = 0,
     policy_flags = 0, kmod_match_mode = 1, lsposed_match_mode = 1, port_match_mode = 1,
     iface_count = 0, iface_prefixes = replicate 512 0,
     kmod_uids = [10001], lsposed_uids = [], port_targets = [sample_target],
     port_rules = sample_rules,
     app_hook_masks = [\<lparr>mask_uid = 10007, kernel_mask = 0x12000, java_mask = 0,
       has_kernel_override = 1, has_java_override = 0, mask_reserved = (0, 0)\<rparr>]\<rparr>"

lemma sample_policy_wf: "snapshot_wf sample_policy"
  by (simp add: snapshot_wf_def sample_policy_def sample_target_def sample_rules_def uids_wf_def
      target_wf_def rule_wf_def mask_wf_def target_rules_def rule_key_def port_hook_bits_def
      sections_size_def less_eq_prod_def)

lemma find_port_target_sample: "vpnhide_find_port_target (Some sample_policy) 10123 = Some deny_all"
  using find_port_target_iff [OF sample_policy_wf]
  by (simp add: sample_policy_def sample_target_def uid_protected_def)

section \<open>Properties of the readers\<close>

text \<open>
  On every published snapshot the kernel layer targets exactly the UIDs the policy contract
  names: a UID in the protected range never matches, and any other matches iff it is listed in
  include mode, or not listed in exclude mode.
\<close>

theorem target_uid_policy:
  assumes "snapshot_wf s"
  shows "is_target_uid_val (Some s) uid \<longleftrightarrow>
    \<not> uid_protected uid \<and> (if kmod_match_mode s = VPNHIDE_MATCH_EXCLUDE then uid \<notin> set (kmod_uids s)
      else uid \<in> set (kmod_uids s))"
  using uid_matches_mode_iff [OF snapshot_wfD(1) [OF assms], of "kmod_match_mode s" uid]
  by (auto simp: is_target_uid_val_def)

theorem target_uid_policy_witness:
  "\<not> is_target_uid_val (Some sample_policy) 10001 \<and> is_target_uid_val (Some sample_policy) 10002 \<and>
   \<not> is_target_uid_val (Some sample_policy) 1000"
  using target_uid_policy [OF sample_policy_wf, of 10001] target_uid_policy [OF sample_policy_wf, of 10002]
    target_uid_policy [OF sample_policy_wf, of 1000]
  by (simp add: sample_policy_def uid_protected_def)

text \<open>
  The hook decision: a per-app kernel override, where the snapshot has one for the UID,
  replaces the global mask, and otherwise the global mask decides; the two hooks that enforce port
  policy, CONNECT and BIND, are active for every UID whatever the masks in the payload were.
\<close>

theorem hook_mask_policy:
  assumes "snapshot_wf s"
  shows "is_hook_active (Some s) h uid \<longleftrightarrow>
    h = HOOK_CONNECT \<or> h = HOOK_BIND \<or>
    (if \<exists>m \<in> set (app_hook_masks s). mask_uid m = uid \<and> has_kernel_override m \<noteq> 0
     then \<exists>m \<in> set (app_hook_masks s). mask_uid m = uid \<and> has_kernel_override m \<noteq> 0 \<and>
       bit (kernel_mask m) (hook_bit h)
     else bit (active_hooks_mask s) (hook_bit h))"
proof (cases "h = HOOK_CONNECT \<or> h = HOOK_BIND")
  case True
  with port_hooks_active [OF assms] show ?thesis by auto
next
  case False
  show ?thesis
  proof (cases "lookup_app_kernel_mask (Some s) uid")
    case None
    with app_kernel_mask_iff [OF assms, of uid] have
      "\<not> (\<exists>m \<in> set (app_hook_masks s). mask_uid m = uid \<and> has_kernel_override m \<noteq> 0)" by auto
    with False None show ?thesis by (auto simp: is_hook_active_lookup)
  next
    case (Some k)
    with app_kernel_mask_iff [OF assms, of uid k] obtain m where
      m: "m \<in> set (app_hook_masks s)" "mask_uid m = uid" "has_kernel_override m \<noteq> 0" "kernel_mask m = k"
      by auto
    with ascending_key_inj [OF snapshot_wfD(4) [OF assms]] False Some show ?thesis
      by (auto simp: is_hook_active_lookup)
  qed
qed

theorem hook_mask_policy_witness:
  "is_hook_active (Some sample_policy) HOOK_BPF 10001 \<and>
   \<not> is_hook_active (Some sample_policy) HOOK_BPF 10007 \<and>
   is_hook_active (Some sample_policy) HOOK_CONNECT 10007"
  using hook_mask_policy [OF sample_policy_wf, of HOOK_BPF 10001]
    hook_mask_policy [OF sample_policy_wf, of HOOK_BPF 10007]
    hook_mask_policy [OF sample_policy_wf, of HOOK_CONNECT 10007]
  by (simp add: sample_policy_def)

text \<open>
  C3: The port decision on a published snapshot, binary search and early exit included, is the
  declarative one: a listed target blocks everything in deny-all mode, nothing in unrestricted
  mode, and otherwise the ports and protocols some rule of its own segment covers; in exclude mode
  every unlisted UID outside the protected range is blocked, and nobody else is.
\<close>

theorem port_policy_decision:
  assumes "snapshot_wf s"
  shows "(case vpnhide_find_port_target (Some s) uid of
       None \<Rightarrow> False | Some t \<Rightarrow> should_block_port s t port proto) \<longleftrightarrow>
    (\<exists>t \<in> set (port_targets s). target_uid t = uid \<and>
       (target_mode t = VH_PORT_POLICY_DENY_ALL \<or>
        target_mode t = VH_PORT_POLICY_RULES \<and>
        (\<exists>r \<in> set (target_rules (port_rules s) t). rule_covers r port proto))) \<or>
    uid \<notin> target_uid ` set (port_targets s) \<and> port_match_mode s = VPNHIDE_MATCH_EXCLUDE \<and>
    \<not> uid_protected uid"
proof (cases "vpnhide_find_port_target (Some s) uid")
  case None
  then have none: "vpnhide_find_port_target (Some s) uid \<noteq> Some t" for t by simp
  have "target_uid t \<noteq> uid" if "t \<in> set (port_targets s)" for t
    using none [of t] that by (simp add: find_port_target_iff [OF assms])
  moreover from this have "\<not> (port_match_mode s = 1 \<and> \<not> uid_protected uid)"
    using none [of deny_all] by (auto simp: find_port_target_iff [OF assms])
  ultimately show ?thesis using None by auto
next
  case (Some t)
  with find_port_target_iff [OF assms, of uid t] consider
    (listed) "t \<in> set (port_targets s)" "target_uid t = uid"
    | (other) "uid \<notin> target_uid ` set (port_targets s)" "port_match_mode s = 1" "\<not> uid_protected uid" "t = deny_all"
    by auto
  then show ?thesis
  proof cases
    case listed
    have uniq: "u = t" if "u \<in> set (port_targets s)" "target_uid u = uid" for u
      using ascending_key_inj [OF snapshot_wfD(3) [OF assms] that(1) listed(1)] that(2) listed(2) by simp
    have "(\<exists>u \<in> set (port_targets s). target_uid u = uid \<and> Q u) \<longleftrightarrow> Q t" for Q
      using listed uniq by blast
    moreover have "uid \<in> target_uid ` set (port_targets s)" using listed by blast
    ultimately show ?thesis
      using Some should_block_port_iff [OF snapshot_wfD(5) [OF assms listed(1)], of port proto] by simp
  next
    case other
    have "\<not> (\<exists>u \<in> set (port_targets s). target_uid u = uid \<and> Q u)" for Q using other(1) by blast
    with other Some target_wf_deny_all_block show ?thesis by simp
  qed
qed

theorem port_policy_decision_witness:
  "should_block_port sample_policy sample_target 1500 1 \<and>
   \<not> should_block_port sample_policy sample_target 85 1"
proof -
  have "vpnhide_find_port_target (Some sample_policy) 10050 = Some sample_target"
    using find_port_target_iff [OF sample_policy_wf] by (simp add: sample_policy_def sample_target_def)
  with port_policy_decision [OF sample_policy_wf, where uid = 10050 and port = 1500 and proto = 1]
    port_policy_decision [OF sample_policy_wf, where uid = 10050 and port = 85 and proto = 1]
  show ?thesis
    by (simp add: sample_policy_def sample_target_def sample_rules_def target_rules_def rule_covers_def)
qed

text \<open>
  C9: The policy contract says that a UID in the protected range never matches a layer in either
  mode. The port layer does not check it: every listed target with a protected UID is found and
  enforced, although the kernel and framework layers ignore the same UID.
\<close>

theorem protected_uid_is_port_target:
  assumes "snapshot_wf s" and "t \<in> set (port_targets s)" and "uid_protected (target_uid t)"
  shows "vpnhide_find_port_target (Some s) (target_uid t) = Some t \<and>
    \<not> vpnhide_uid_matches_mode (kmod_uids s) (kmod_match_mode s) (target_uid t)"
  using assms find_port_target_iff [OF assms(1)]
  by (simp add: vpnhide_uid_matches_mode_def)

definition sample_protected :: policy_snapshot where
  "sample_protected = sample_policy\<lparr>port_targets := [sample_target\<lparr>target_uid := 1000\<rparr>]\<rparr>"

theorem protected_uid_is_port_target_witness:
  "vpnhide_find_port_target (Some sample_protected) 1000 = Some (sample_target\<lparr>target_uid := 1000\<rparr>)"
proof -
  have "snapshot_wf sample_protected"
    using sample_policy_wf
    by (simp add: snapshot_wf_def sample_protected_def sample_policy_def sample_target_def target_wf_def
        target_rules_def sample_rules_def sections_size_def rule_key_def less_eq_prod_def)
  from protected_uid_is_port_target [OF this, of "sample_target\<lparr>target_uid := 1000\<rparr>"] show ?thesis
    by (simp add: sample_protected_def uid_protected_def)
qed

text \<open>
  The binary searches over a published snapshot read inside its arrays: every index the loop
  of \<^verbatim>\<open>vpnhide_find_port_target\<close> touches is below the number of targets, and the rule scan of a
  found target stays inside the rule array; the counts fit a signed 32-bit \<^verbatim>\<open>int\<close>.
\<close>

theorem port_search_in_bounds:
  assumes "snapshot_wf s"
  shows "(\<forall>i \<in> set (bsearch_reads target_uid (port_targets s) uid 0 (int (length (port_targets s)) - 1)).
       0 \<le> i \<and> i < int (length (port_targets s))) \<and>
    (\<forall>t. vpnhide_find_port_target (Some s) uid = Some t \<longrightarrow>
       unat (first_rule t) + unat (rule_count t) \<le> length (port_rules s)) \<and>
    int (length (port_targets s)) < 2 ^ 31 \<and> int (length (port_rules s)) < 2 ^ 31"
proof -
  have "unat (first_rule t) + unat (rule_count t) \<le> length (port_rules s)"
    if "vpnhide_find_port_target (Some s) uid = Some t" for t
    using that snapshot_wfD(5) [OF assms, of t]
    by (auto simp: find_port_target_iff [OF assms] target_wf_def deny_all_def)
  moreover have "int (length (port_targets s)) < 2 ^ 31" "int (length (port_rules s)) < 2 ^ 31"
    using assms by (simp_all add: snapshot_wf_def sections_size_def)
  ultimately show ?thesis
    using bsearch_reads_bounds [where key = target_uid and xs = "port_targets s" and k = uid and lo = 0
        and hi = "int (length (port_targets s)) - 1" and n = "int (length (port_targets s))"]
    by simp
qed

theorem port_search_in_bounds_witness:
  "int (length (port_targets sample_policy)) < 2 ^ 31 \<and>
   list_all (\<lambda>i. 0 \<le> i \<and> i < int (length (port_targets sample_policy)))
     (bsearch_reads target_uid (port_targets sample_policy) 10050 0
        (int (length (port_targets sample_policy)) - 1))"
  unfolding list_all_iff using port_search_in_bounds [OF sample_policy_wf, of 10050] by blast

end
