(* ===== verification/Probe_Table.thy ===== *)
theory Probe_Table
  imports VH_Prelude
begin

text \<open>
  Linear probing, shared by the owned-port snapshot and by the per-port statistics table of
  kmod/main.c. A slot of either table shows itself as a \<open>cell\<close>: empty, a tombstone, or used by a
  key. \<open>probe_scan\<close> is the probe loop: it visits the slots from the home slot of the key onwards,
  at most once each, remembers the first tombstone, and stops at the key or at an empty slot. The
  locale \<open>probe_table\<close> is the contract of a table kept by this loop; its lemmas show that the
  loop finds a key exactly when the table holds it, and that what the callers write back keeps
  the table searchable.
\<close>

datatype 'k cell = Empty | Tombstone | Used 'k

datatype probe_result = Found nat | Free nat | Full

fun probe_scan :: "('s \<Rightarrow> 'k cell) \<Rightarrow> 's list \<Rightarrow> 'k \<Rightarrow> nat \<Rightarrow> nat \<Rightarrow> nat option \<Rightarrow> probe_result" where
  "probe_scan cell tab k pos 0 tomb = (case tomb of None \<Rightarrow> Full | Some t \<Rightarrow> Free t)"
| "probe_scan cell tab k pos (Suc left) tomb =
     (case cell (tab ! pos) of
        Used k' \<Rightarrow>
          if k' = k then Found pos
          else probe_scan cell tab k ((pos + 1) mod length tab) left tomb
      | Tombstone \<Rightarrow>
          probe_scan cell tab k ((pos + 1) mod length tab) left
            (case tomb of None \<Rightarrow> Some pos | Some t \<Rightarrow> Some t)
      | Empty \<Rightarrow> Free (case tomb of None \<Rightarrow> pos | Some t \<Rightarrow> t))"

definition passable :: "('s \<Rightarrow> 'k cell) \<Rightarrow> 's list \<Rightarrow> 'k \<Rightarrow> nat \<Rightarrow> nat \<Rightarrow> bool" where
  "passable cell tab k h d \<longleftrightarrow>
     (\<forall>i < d. cell (tab ! ((h + i) mod length tab)) \<noteq> Empty \<and>
              cell (tab ! ((h + i) mod length tab)) \<noteq> Used k)"

definition probe_inv :: "('s \<Rightarrow> 'k cell) \<Rightarrow> ('k \<Rightarrow> nat) \<Rightarrow> 's list \<Rightarrow> bool" where
  "probe_inv cell home tab \<longleftrightarrow>
     (\<forall>p < length tab. case cell (tab ! p) of
        Used k \<Rightarrow> \<exists>d < length tab. p = (home k + d) mod length tab \<and> passable cell tab k (home k) d
      | _ \<Rightarrow> True)"

definition cell_keys :: "('s \<Rightarrow> 'k cell) \<Rightarrow> 's list \<Rightarrow> 'k set" where
  "cell_keys cell tab = {k. Used k \<in> cell ` set tab}"

lemma passable_Suc: "passable cell tab k h (Suc d) \<longleftrightarrow> passable cell tab k h d \<and>
    cell (tab ! ((h + d) mod length tab)) \<noteq> Empty \<and> cell (tab ! ((h + d) mod length tab)) \<noteq> Used k"
  by (auto simp: passable_def less_Suc_eq)

lemma passable_mono: "passable cell tab k h d \<Longrightarrow> e \<le> d \<Longrightarrow> passable cell tab k h e"
  by (auto simp: passable_def)

definition scan_ok :: "('s \<Rightarrow> 'k cell) \<Rightarrow> 's list \<Rightarrow> 'k \<Rightarrow> nat \<Rightarrow> probe_result \<Rightarrow> bool" where
  "scan_ok cell tab k h res = (case res of
     Found p \<Rightarrow> \<exists>d < length tab. p = (h + d) mod length tab \<and> cell (tab ! p) = Used k \<and>
       passable cell tab k h d
   | Free p \<Rightarrow> \<exists>d < length tab. \<exists>e \<le> length tab. p = (h + d) mod length tab \<and> d \<le> e \<and>
       cell (tab ! p) \<in> {Empty, Tombstone} \<and> passable cell tab k h e \<and>
       (e < length tab \<longrightarrow> cell (tab ! ((h + e) mod length tab)) = Empty)
   | Full \<Rightarrow> passable cell tab k h (length tab) \<and> (\<forall>s \<in> set tab. cell s \<noteq> Tombstone))"

lemma scan_ok_Free:
  assumes "d < length tab" "e \<le> length tab" "d \<le> e"
    and "cell (tab ! ((h + d) mod length tab)) \<in> {Empty, Tombstone}" "passable cell tab k h e"
    and "e < length tab \<Longrightarrow> cell (tab ! ((h + e) mod length tab)) = Empty"
  shows "scan_ok cell tab k h (Free ((h + d) mod length tab))"
  unfolding scan_ok_def using assms by fastforce

lemma in_set_probe:
  "tab \<noteq> [] \<Longrightarrow> s \<in> set tab \<Longrightarrow> \<exists>i < length tab. s = tab ! ((h + i) mod length tab)"
proof -
  assume "tab \<noteq> []" "s \<in> set tab"
  then obtain p where p: "p < length tab" "s = tab ! p" by (auto simp: in_set_conv_nth)
  let ?n = "length tab"
  let ?i = "(p + (?n - h mod ?n)) mod ?n"
  have "(h + ?i) mod ?n = (h mod ?n + (p + (?n - h mod ?n))) mod ?n"
    by (simp add: mod_simps)
  also have "h mod ?n < ?n" using p by (intro mod_less_divisor) auto
  then have "h mod ?n + (p + (?n - h mod ?n)) = p + ?n" by simp
  finally have "(h + ?i) mod ?n = p" using p by simp
  moreover have "?i < ?n" using p by (intro mod_less_divisor) auto
  ultimately show ?thesis using p by (intro exI [of _ ?i]) auto
qed

lemma probe_slot_inj:
  fixes i d n :: nat
  assumes "i < d" "d < n"
  shows "(h + i) mod n \<noteq> (h + d) mod n"
proof
  assume "(h + i) mod n = (h + d) mod n"
  then have "n dvd h + d - (h + i)" using assms by (subst mod_eq_dvd_iff_nat [symmetric]) auto
  then have "n dvd d - i" by simp
  with assms show False by (auto dest: dvd_imp_le)
qed

lemma nth_update: "xs[p := x] ! q = (if q = p \<and> p < length xs then x else xs ! q)"
  by (cases "p < length xs") (auto simp: nth_list_update_neq list_update_beyond)

lemma cell_keys_nth: "k \<in> cell_keys cell tab \<longleftrightarrow> (\<exists>q < length tab. cell (tab ! q) = Used k)"
  by (force simp: cell_keys_def in_set_conv_nth)

lemma cell_keys_update:
  assumes "p < length tab" "\<And>k. cell (tab ! p) \<noteq> Used k"
  shows "cell_keys cell (tab[p := x]) = cell_keys cell tab \<union> {k. cell x = Used k}"
proof -
  have "(\<exists>q < length tab. cell (tab[p := x] ! q) = Used k) \<longleftrightarrow>
      (\<exists>q < length tab. cell (tab ! q) = Used k) \<or> cell x = Used k" for k
    using assms by (force simp: nth_update)
  then show ?thesis by (auto simp: cell_keys_nth)
qed

lemma passable_update:
  assumes "passable cell tab k h d" "cell x \<noteq> Empty" "cell x \<noteq> Used k"
  shows "passable cell (tab[p := x]) k h d"
  using assms by (simp add: passable_def nth_update)

lemma passable_update_at:
  assumes "passable cell tab k h d" "d < length tab"
  shows "passable cell (tab[(h + d) mod length tab := x]) k h d"
  using assms by (simp add: passable_def nth_update probe_slot_inj)

lemma probe_inv_map_cell:
  "map cell tab = map cell tab' \<Longrightarrow> probe_inv cell home tab = probe_inv cell home tab'"
proof -
  assume eq: "map cell tab = map cell tab'"
  then have len: "length tab = length tab'" by (metis length_map)
  have nth: "cell (tab ! q) = cell (tab' ! q)" if "q < length tab'" for q
    using that eq len by (metis nth_map)
  have pass: "passable cell tab k h d = passable cell tab' k h d" if "0 < length tab'" for k h d
    using that nth by (simp add: passable_def len)
  have "(\<exists>d < length tab'. p = (home k + d) mod length tab' \<and> passable cell tab k (home k) d) \<longleftrightarrow>
      (\<exists>d < length tab'. p = (home k + d) mod length tab' \<and> passable cell tab' k (home k) d)" for k p
    using pass by (cases "0 < length tab'") auto
  then show ?thesis
    by (simp add: probe_inv_def len nth cong: cell.case_cong)
qed

lemma probe_scan_ok:
  assumes "tab \<noteq> []"
  shows "j + left = length tab \<Longrightarrow> passable cell tab k h j \<Longrightarrow>
   (case tomb of
      None \<Rightarrow> \<forall>i < j. cell (tab ! ((h + i) mod length tab)) \<noteq> Tombstone
    | Some t \<Rightarrow> \<exists>i < j. t = (h + i) mod length tab \<and> cell (tab ! t) = Tombstone) \<Longrightarrow>
   scan_ok cell tab k h (probe_scan cell tab k ((h + j) mod length tab) left tomb)"
proof (induction left arbitrary: j tomb)
  case 0
  show ?case
  proof (cases tomb)
    case None
    with 0 in_set_probe [OF assms, of _ h] show ?thesis
      by (fastforce simp: scan_ok_def)
  next
    case (Some t)
    with 0 obtain i where "i < length tab" "t = (h + i) mod length tab" "cell (tab ! t) = Tombstone"
      by auto
    with 0 Some show ?thesis
      using scan_ok_Free [of i tab "length tab" cell h k] by simp
  qed
next
  case (Suc left)
  let ?n = "length tab" let ?p = "(h + j) mod length tab"
  have next_pos: "(?p + 1) mod ?n = (h + Suc j) mod ?n" by (simp add: mod_simps)
  have j: "j < ?n" using Suc.prems(1) by simp
  show ?case
  proof (cases "cell (tab ! ?p)")
    case Empty
    show ?thesis
    proof (cases tomb)
      case None
      with Empty j Suc.prems(2) show ?thesis
        using scan_ok_Free [of j tab j cell h k] by simp
    next
      case (Some t)
      with Suc.prems(3) obtain i where "i < j" "t = (h + i) mod ?n" "cell (tab ! t) = Tombstone"
        by auto
      with Some Empty j Suc.prems(2) show ?thesis
        using scan_ok_Free [of i tab j cell h k] by simp
    qed
  next
    case Tombstone
    let ?t = "case tomb of None \<Rightarrow> Some ?p | Some t \<Rightarrow> Some t"
    have "scan_ok cell tab k h (probe_scan cell tab k ((h + Suc j) mod ?n) left ?t)"
    proof (rule Suc.IH)
      show "Suc j + left = ?n" using Suc.prems(1) by simp
      show "passable cell tab k h (Suc j)" using Suc.prems(2) Tombstone by (simp add: passable_Suc)
      show "case ?t of None \<Rightarrow> \<forall>i < Suc j. cell (tab ! ((h + i) mod ?n)) \<noteq> Tombstone
         | Some t \<Rightarrow> \<exists>i < Suc j. t = (h + i) mod ?n \<and> cell (tab ! t) = Tombstone"
        using Suc.prems(3) Tombstone by (auto split: option.splits intro: less_SucI)
    qed
    with Tombstone next_pos show ?thesis by simp
  next
    case (Used k')
    show ?thesis
    proof (cases "k' = k")
      case True
      with Used j Suc.prems(2) show ?thesis by (auto simp: scan_ok_def intro!: exI [of _ j])
    next
      case False
      have "scan_ok cell tab k h (probe_scan cell tab k ((h + Suc j) mod ?n) left tomb)"
      proof (rule Suc.IH)
        show "Suc j + left = ?n" using Suc.prems(1) by simp
        show "passable cell tab k h (Suc j)" using Suc.prems(2) Used False by (simp add: passable_Suc)
        show "case tomb of None \<Rightarrow> \<forall>i < Suc j. cell (tab ! ((h + i) mod ?n)) \<noteq> Tombstone
           | Some t \<Rightarrow> \<exists>i < Suc j. t = (h + i) mod ?n \<and> cell (tab ! t) = Tombstone"
          using Suc.prems(3) Used by (auto split: option.splits simp: less_Suc_eq)
      qed
      with Used False next_pos show ?thesis by simp
    qed
  qed
qed

section \<open>The contract of a probed table\<close>

locale probe_table =
  fixes cell :: "'s \<Rightarrow> 'k cell"
    and home :: "'k \<Rightarrow> nat"
    and fill :: "'s \<Rightarrow> 'k \<Rightarrow> 's"
    and valid :: "'k \<Rightarrow> bool"
  assumes cell_fill: "valid k \<Longrightarrow> cell (fill s k) = Used k"
begin

abbreviation scan :: "'s list \<Rightarrow> 'k \<Rightarrow> probe_result" where
  "scan tab k \<equiv> probe_scan cell tab k (home k mod length tab) (length tab) None"

lemma scan_spec: "tab \<noteq> [] \<Longrightarrow> scan_ok cell tab k (home k) (scan tab k)"
  using probe_scan_ok [of tab 0 "length tab" cell k "home k" None] by (simp add: passable_def)

lemma inv_UsedD:
  assumes "probe_inv cell home tab" "p < length tab" "cell (tab ! p) = Used k"
  obtains d where "d < length tab" "p = (home k + d) mod length tab" "passable cell tab k (home k) d"
  using assms by (fastforce simp: probe_inv_def split: cell.splits)

lemma key_unique:
  assumes inv: "probe_inv cell home tab" and "p < length tab" "cell (tab ! p) = Used k"
    and "q < length tab" "cell (tab ! q) = Used k"
  shows "p = q"
proof -
  from inv_UsedD [OF inv assms(2,3)] obtain d where
    d: "p = (home k + d) mod length tab" "passable cell tab k (home k) d" .
  from inv_UsedD [OF inv assms(4,5)] obtain e where
    e: "q = (home k + e) mod length tab" "passable cell tab k (home k) e" .
  show ?thesis
    using d e assms(3,5) by (cases d e rule: linorder_cases) (auto simp: passable_def)
qed

lemma key_not_beyond:
  assumes inv: "probe_inv cell home tab" and pass: "passable cell tab k (home k) e"
    and stop: "e < length tab \<Longrightarrow> cell (tab ! ((home k + e) mod length tab)) = Empty"
    and "e \<le> length tab"
  shows "k \<notin> cell_keys cell tab"
proof
  assume "k \<in> cell_keys cell tab"
  then obtain p where p: "p < length tab" "cell (tab ! p) = Used k"
    by (force simp: cell_keys_def in_set_conv_nth)
  from inv_UsedD [OF inv p] obtain d where
    d: "d < length tab" "p = (home k + d) mod length tab" "passable cell tab k (home k) d" .
  show False
  proof (cases "d < e")
    case True
    with pass d p show False by (auto simp: passable_def)
  next
    case False
    show False
    proof (cases "e = d")
      case True
      with stop d p show False by auto
    next
      case ne: False
      with False d(1) have "e < d" "e < length tab" by auto
      with stop d(3) show False by (auto simp: passable_def)
    qed
  qed
qed

lemma scan_Found_iff:
  assumes "probe_inv cell home tab" "tab \<noteq> []"
  shows "(\<exists>p. scan tab k = Found p) \<longleftrightarrow> k \<in> cell_keys cell tab"
proof (cases "scan tab k")
  case (Found p)
  with scan_spec [OF assms(2), of k] have "cell (tab ! p) = Used k" "p < length tab"
    using assms(2) by (auto simp: scan_ok_def)
  then have "Used k \<in> cell ` set tab" by (metis image_eqI nth_mem)
  with Found show ?thesis by (simp add: cell_keys_def)
next
  case (Free p)
  with scan_spec [OF assms(2), of k] key_not_beyond [OF assms(1)] show ?thesis
    by (fastforce simp: scan_ok_def)
next
  case Full
  with scan_spec [OF assms(2), of k] key_not_beyond [OF assms(1), of k "length tab"] show ?thesis
    by (simp add: scan_ok_def)
qed

lemma scan_FoundD:
  assumes "tab \<noteq> []" "scan tab k = Found p"
  shows "p < length tab" "cell (tab ! p) = Used k"
  using scan_spec [OF assms(1), of k] assms by (auto simp: scan_ok_def)

lemma scan_FreeD:
  assumes "tab \<noteq> []" "scan tab k = Free p"
  shows "p < length tab" "cell (tab ! p) = Empty \<or> cell (tab ! p) = Tombstone"
  using scan_spec [OF assms(1), of k] assms by (auto simp: scan_ok_def)

lemma scan_FullD:
  assumes "tab \<noteq> []" "scan tab k = Full" "s \<in> set tab"
  shows "\<exists>k'. cell s = Used k' \<and> k' \<noteq> k"
proof -
  from scan_spec [OF assms(1), of k] assms(2)
  have "passable cell tab k (home k) (length tab)" "\<forall>s \<in> set tab. cell s \<noteq> Tombstone"
    by (auto simp: scan_ok_def)
  moreover from in_set_probe [OF assms(1,3), of "home k"] obtain i where
    "i < length tab" "s = tab ! ((home k + i) mod length tab)" by auto
  ultimately show ?thesis using assms(3) by (cases "cell s") (auto simp: passable_def)
qed

text \<open>
  The three ways the callers write to a table: filling the slot a scan offered, updating the
  payload of a used slot, and burying a used slot.
\<close>

lemma inv_fill:
  assumes inv: "probe_inv cell home tab" and ne: "tab \<noteq> []" and free: "scan tab k = Free p"
    and v: "valid k"
  shows "probe_inv cell home (tab[p := fill s k])"
    and "cell_keys cell (tab[p := fill s k]) = insert k (cell_keys cell tab)"
proof -
  from scan_spec [OF ne, of k] free obtain d e where
    d: "d < length tab" "p = (home k + d) mod length tab" "d \<le> e"
    and pass: "passable cell tab k (home k) e"
    by (auto simp: scan_ok_def)
  have k: "k \<notin> cell_keys cell tab" using scan_Found_iff [OF inv ne, of k] free by auto
  note p = scan_FreeD [OF ne free]
  show "probe_inv cell home (tab[p := fill s k])"
    unfolding probe_inv_def
  proof (intro allI impI)
    fix q assume q: "q < length (tab[p := fill s k])"
    show "case cell (tab[p := fill s k] ! q) of
        Used k' \<Rightarrow> \<exists>d < length (tab[p := fill s k]). q = (home k' + d) mod length (tab[p := fill s k]) \<and>
          passable cell (tab[p := fill s k]) k' (home k') d
      | _ \<Rightarrow> True"
    proof (cases "q = p")
      case True
      have "passable cell (tab[p := fill s k]) k (home k) d"
        using passable_update_at [of cell tab k "home k" d "fill s k"] passable_mono [OF pass d(3)] d
        by simp
      with True p(1) d v show ?thesis by (auto simp: cell_fill)
    next
      case False
      show ?thesis
      proof (cases "cell (tab ! q)")
        case (Used k')
        with k q have "k' \<noteq> k" by (auto simp: cell_keys_nth)
        from inv_UsedD [OF inv _ Used] q obtain d' where
          "d' < length tab" "q = (home k' + d') mod length tab" "passable cell tab k' (home k') d'"
          by auto
        with passable_update [of cell tab k' "home k'" d' "fill s k" p] \<open>k' \<noteq> k\<close> Used False q v
        show ?thesis by (auto simp: cell_fill)
      qed (use False q in simp_all)
    qed
  qed
  show "cell_keys cell (tab[p := fill s k]) = insert k (cell_keys cell tab)"
    using p v by (subst cell_keys_update) (auto simp: cell_fill)
qed

lemma inv_same_cell:
  assumes "p < length tab" "cell x = cell (tab ! p)"
  shows "probe_inv cell home (tab[p := x]) = probe_inv cell home tab"
    and "cell_keys cell (tab[p := x]) = cell_keys cell tab"
proof -
  have eq: "map cell (tab[p := x]) = map cell tab"
    using assms by (simp add: map_update) (metis length_map list_update_id nth_map)
  show "probe_inv cell home (tab[p := x]) = probe_inv cell home tab"
    by (rule probe_inv_map_cell [OF eq])
  show "cell_keys cell (tab[p := x]) = cell_keys cell tab"
    unfolding cell_keys_def using arg_cong [OF eq, of set] by simp
qed

lemma inv_bury:
  assumes inv: "probe_inv cell home tab" and x: "cell x = Tombstone"
  shows "probe_inv cell home (tab[p := x])"
  unfolding probe_inv_def
proof (intro allI impI)
  fix q assume q: "q < length (tab[p := x])"
  show "case cell (tab[p := x] ! q) of
      Used k \<Rightarrow> \<exists>d < length (tab[p := x]). q = (home k + d) mod length (tab[p := x]) \<and>
        passable cell (tab[p := x]) k (home k) d
    | _ \<Rightarrow> True"
  proof (cases "cell (tab[p := x] ! q)")
    case (Used k)
    with x q have "cell (tab ! q) = Used k" by (auto simp: nth_update split: if_splits)
    from inv_UsedD [OF inv _ this] q obtain d where
      "d < length tab" "q = (home k + d) mod length tab" "passable cell tab k (home k) d" by auto
    with passable_update [of cell tab k "home k" d x p] Used x show ?thesis by auto
  qed simp_all
qed

end

end
