(* ===== verification/Owned_Ports.thy ===== *)
theory Owned_Ports
  imports Policy_Match Probe_Table
begin

text \<open>
  Port ownership of kmod/main.c: the snapshot the daemon replaces as a whole
  (\<^verbatim>\<open>replace_owned_ports\<close>, an open-addressed table), the four-way pending cache that
  \<^verbatim>\<open>vpnhide_record_bound_socket\<close> fills when a socket is bound, and the lookup
  \<^verbatim>\<open>vpnhide_uid_owns_port\<close> that the connect hooks consult. Addresses are four 32-bit words as they
  lie in memory in network byte order, read by a little-endian processor. \<^verbatim>\<open>jiffies\<close> and the
  tick rate \<^verbatim>\<open>HZ\<close> are arguments, and deadlines compare by the sign of the difference, as \<^verbatim>\<open>time_after_eq\<close> does.
\<close>

section \<open>Owners and addresses\<close>

type_synonym addr4 = "u32 \<times> u32 \<times> u32 \<times> u32"

record owned_port =
  own_uid :: u32
  own_port :: u16
  own_protocol :: u8
  own_family :: u8
  own_address :: addr4

abbreviation (input) AF_INET :: u8 where "AF_INET \<equiv> 2"
abbreviation (input) AF_INET6 :: u8 where "AF_INET6 \<equiv> 10"

definition owned_zero :: owned_port where
  "owned_zero = \<lparr>own_uid = 0, own_port = 0, own_protocol = 0, own_family = 0,
     own_address = (0, 0, 0, 0)\<rparr>"

definition ipv4_is_loopback :: "u32 \<Rightarrow> bool" where
  "ipv4_is_loopback a \<longleftrightarrow> a AND 0xFF = 0x7F"

definition ipv6_addr_any :: "addr4 \<Rightarrow> bool" where
  "ipv6_addr_any a \<longleftrightarrow> a = (0, 0, 0, 0)"

definition ipv6_addr_loopback :: "addr4 \<Rightarrow> bool" where
  "ipv6_addr_loopback a \<longleftrightarrow> a = (0, 0, 0, 0x01000000)"

definition ipv6_addr_v4mapped :: "addr4 \<Rightarrow> bool" where
  "ipv6_addr_v4mapped a = (case a of (w0, w1, w2, w3) \<Rightarrow> w0 = 0 \<and> w1 = 0 \<and> w2 = 0xFFFF0000)"

definition owned_port_hash :: "owned_port \<Rightarrow> u32" where
  "owned_port_hash owner =
     (let value = own_uid owner * 0x9e3779b1;
          value = value XOR ucast (own_port owner) * 0x85ebca6b;
          value = value XOR ucast (own_protocol owner) * 0xc2b2ae35;
          value = value XOR ucast (own_family owner) * 0x27d4eb2f;
          mix = (\<lambda>value word. word_rotl 13 (value XOR word * 0x165667b1)) in
      case own_address owner of (w0, w1, w2, w3) \<Rightarrow>
        let value = mix (mix (mix (mix value w0) w1) w2) w3 in
        value XOR drop_bit 16 value)"

definition owned_port_equal :: "owned_port \<Rightarrow> owned_port \<Rightarrow> bool" where
  "owned_port_equal l r \<longleftrightarrow> own_uid l = own_uid r \<and> own_port l = own_port r \<and>
     own_protocol l = own_protocol r \<and> own_family l = own_family r \<and> own_address l = own_address r"

definition owned_port_is_local :: "owned_port \<Rightarrow> bool" where
  "owned_port_is_local owner =
     (case own_address owner of (w0, w1, w2, w3) \<Rightarrow>
        if own_family owner = AF_INET then
          w1 = 0 \<and> w2 = 0 \<and> w3 = 0 \<and> (w0 = 0 \<or> ipv4_is_loopback w0)
        else if own_family owner = AF_INET6 then
          ipv6_addr_any (w0, w1, w2, w3) \<or> ipv6_addr_loopback (w0, w1, w2, w3)
        else False)"

datatype sock_type = SOCK_STREAM | SOCK_DGRAM | SOCK_OTHER

record sock =
  sk_type :: sock_type
  sk_family :: u8
  inet_num :: u16
  inet_rcv_saddr :: u32
  sk_v6_rcv_saddr :: addr4

definition owned_port_from_sock :: "uid_t \<Rightarrow> sock option \<Rightarrow> bool \<times> owned_port" where
  "owned_port_from_sock uid sk_opt =
     (case sk_opt of
        None \<Rightarrow> (False, owned_zero)
      | Some sk \<Rightarrow>
          if sk_type sk = SOCK_OTHER then (False, owned_zero)
          else
            let owner = owned_zero\<lparr>own_uid := uid, own_port := inet_num sk,
                  own_protocol := (if sk_type sk = SOCK_STREAM then VH_PROTO_TCP else VH_PROTO_UDP)\<rparr> in
            if own_port owner = 0 then (False, owner)
            else if sk_family sk = AF_INET then
              let owner = owner\<lparr>own_family := AF_INET, own_address := (inet_rcv_saddr sk, 0, 0, 0)\<rparr> in
              (owned_port_is_local owner, owner)
            else if sk_family sk = AF_INET6 then
              let address = sk_v6_rcv_saddr sk;
                  owner = (if ipv6_addr_v4mapped address
                    then owner\<lparr>own_family := AF_INET, own_address := (snd (snd (snd address)), 0, 0, 0)\<rparr>
                    else owner\<lparr>own_family := AF_INET6, own_address := address\<rparr>) in
              (owned_port_is_local owner, owner)
            else (False, owner))"

section \<open>The replaced snapshot\<close>

definition time_after_eq :: "u64 \<Rightarrow> u64 \<Rightarrow> bool" where
  "time_after_eq a b \<longleftrightarrow> 0 \<le> sint (a - b)"

definition time_before :: "u64 \<Rightarrow> u64 \<Rightarrow> bool" where
  "time_before a b \<longleftrightarrow> sint (a - b) < 0"

record owned_ports_snapshot =
  bucket_count :: u32
  entry_count :: u32
  snap_expires :: u64
  buckets :: "owned_port list"

abbreviation (input) VPNHIDE_OWNED_PORTS_MAX :: u32 where "VPNHIDE_OWNED_PORTS_MAX \<equiv> 65536"

fun contains_from :: "owned_port list \<Rightarrow> u32 \<Rightarrow> owned_port \<Rightarrow> u32 \<Rightarrow> nat \<Rightarrow> bool" where
  "contains_from bs nb wanted slot 0 = False"
| "contains_from bs nb wanted slot (Suc left) =
     (let entry = bs ! unat slot in
      if own_uid entry = 0 then False
      else if owned_port_equal entry wanted then True
      else contains_from bs nb wanted ((slot + 1) AND (nb - 1)) left)"

definition owned_snapshot_contains :: "owned_ports_snapshot \<Rightarrow> owned_port \<Rightarrow> bool" where
  "owned_snapshot_contains s wanted =
     contains_from (buckets s) (bucket_count s) wanted
       (owned_port_hash wanted AND (bucket_count s - 1)) (unat (bucket_count s))"

fun insert_from :: "owned_port list \<times> u32 \<Rightarrow> u32 \<Rightarrow> owned_port \<Rightarrow> u32 \<Rightarrow> nat \<Rightarrow> owned_port list \<times> u32" where
  "insert_from (bs, n) nb e slot 0 = (bs, n)"
| "insert_from (bs, n) nb e slot (Suc left) =
     (let dst = bs ! unat slot in
      if own_uid dst = 0 then (bs[unat slot := e], n + 1)
      else if owned_port_equal dst e then (bs, n)
      else insert_from (bs, n) nb e ((slot + 1) AND (nb - 1)) left)"

fun insert_entries :: "owned_port list \<times> u32 \<Rightarrow> u32 \<Rightarrow> owned_port list \<Rightarrow> (owned_port list \<times> u32) option" where
  "insert_entries st nb [] = Some st"
| "insert_entries st nb (e # es) =
     (if own_uid e = 0 \<or> own_port e = 0 \<or> own_protocol e > VH_PROTO_UDP \<or> \<not> owned_port_is_local e
      then None
      else insert_entries
        (insert_from st nb e (owned_port_hash e AND (nb - 1)) (unat nb)) nb es)"

function grow_buckets :: "nat \<Rightarrow> nat \<Rightarrow> nat" where
  "grow_buckets want b = (if 0 < b \<and> b < want then grow_buckets want (b * 2) else b)"
  by pat_completeness auto
termination
  by (relation "measure (\<lambda>(want, b). want - b)") auto

declare grow_buckets.simps [simp del]

text \<open>
  \<open>entries\<close> is what the copy from user space delivered, None when it faulted; the two allocations
  are booleans. The result is the snapshot to publish.
\<close>

definition replace_owned_ports :: "u64 \<Rightarrow> u64 \<Rightarrow> bool \<Rightarrow> bool \<Rightarrow> u32 \<Rightarrow> u32 \<Rightarrow> u64 \<Rightarrow> owned_port list option
    \<Rightarrow> errno + owned_ports_snapshot" where
  "replace_owned_ports hz jiffies alloc_entries alloc_snapshot num reserved entries_ptr entries =
     (if reserved \<noteq> 0 \<or> num > VPNHIDE_OWNED_PORTS_MAX \<or> (num \<noteq> 0 \<and> entries_ptr = 0)
      then Inl EINVAL
      else
        let nbuckets = of_nat (grow_buckets (max 8 (unat (num * 2))) 8) in
        if num \<noteq> 0 \<and> \<not> alloc_entries then Inl ENOMEM
        else if num \<noteq> 0 \<and> entries = None then Inl EFAULT
        else if \<not> alloc_snapshot then Inl ENOMEM
        else
          let es = (if num = 0 then [] else take (unat num) (the entries)) in
          case insert_entries (replicate (unat nbuckets) owned_zero, 0) nbuckets es of
            None \<Rightarrow> Inl EINVAL
          | Some (bs, n) \<Rightarrow> Inr \<lparr>bucket_count = nbuckets, entry_count = n,
              snap_expires = jiffies + 120 * hz, buckets = bs\<rparr>)"

section \<open>The pending cache\<close>

record pending_port =
  pend_sequence :: u32
  pend_owner :: owned_port
  pend_expires :: u64

abbreviation (input) VPNHIDE_PENDING_PORT_SETS :: u32 where "VPNHIDE_PENDING_PORT_SETS \<equiv> 256"
abbreviation (input) VPNHIDE_PENDING_PORT_WAYS :: nat where "VPNHIDE_PENDING_PORT_WAYS \<equiv> 4"

definition pending_zero :: pending_port where
  "pending_zero = \<lparr>pend_sequence = 0, pend_owner = owned_zero, pend_expires = 0\<rparr>"

definition pending_empty :: "pending_port list list" where
  "pending_empty = replicate (unat VPNHIDE_PENDING_PORT_SETS)
     (replicate VPNHIDE_PENDING_PORT_WAYS pending_zero)"

definition pending_set :: "owned_port \<Rightarrow> nat" where
  "pending_set owner = unat (owned_port_hash owner AND (VPNHIDE_PENDING_PORT_SETS - 1))"

definition pending_hit :: "u64 \<Rightarrow> owned_port \<Rightarrow> pending_port \<Rightarrow> bool" where
  "pending_hit jiffies wanted e \<longleftrightarrow> pend_sequence e AND 1 = 0 \<and>
     owned_port_equal (pend_owner e) wanted \<and> time_before jiffies (pend_expires e)"

definition pending_port_lookup_one :: "u64 \<Rightarrow> pending_port list list \<Rightarrow> owned_port \<Rightarrow> bool" where
  "pending_port_lookup_one jiffies pending wanted =
     list_ex (pending_hit jiffies wanted) (pending ! pending_set wanted)"

fun select_way :: "u64 \<Rightarrow> owned_port \<Rightarrow> pending_port list \<Rightarrow> nat \<Rightarrow> nat \<Rightarrow> u64 \<Rightarrow> nat" where
  "select_way now owner [] way selected oldest = selected"
| "select_way now owner (e # es) way selected oldest =
     (if owned_port_equal (pend_owner e) owner \<or> own_uid (pend_owner e) = 0 \<or>
         time_after_eq now (pend_expires e)
      then way
      else if time_before (pend_expires e) oldest
      then select_way now owner es (way + 1) way (pend_expires e)
      else select_way now owner es (way + 1) selected oldest)"

definition pending_write :: "u64 \<Rightarrow> u64 \<Rightarrow> owned_port \<Rightarrow> pending_port \<Rightarrow> pending_port" where
  "pending_write hz now owner e = \<lparr>pend_sequence = pend_sequence e + 1 + 1, pend_owner = owner,
     pend_expires = now + 2 * hz\<rparr>"

text \<open>
  \<^verbatim>\<open>vpnhide_notify_port_change\<close> signals the eventfd when the UID has a port target and the daemon
  has registered one; the model returns whether it signals.
\<close>

definition vpnhide_notify_port_change :: "policy_snapshot option \<Rightarrow> bool \<Rightarrow> uid_t \<Rightarrow> bool" where
  "vpnhide_notify_port_change global ctx uid \<longleftrightarrow>
     vpnhide_find_port_target global uid \<noteq> None \<and> ctx"

definition vpnhide_record_bound_socket :: "u64 \<Rightarrow> u64 \<Rightarrow> policy_snapshot option \<Rightarrow> bool \<Rightarrow> uid_t \<Rightarrow>
    sock option \<Rightarrow> pending_port list list \<Rightarrow> pending_port list list \<times> bool" where
  "vpnhide_record_bound_socket hz now global ctx uid sk pending =
     (case owned_port_from_sock uid sk of (is_owner, owner) \<Rightarrow>
      if uid = 0 \<or> \<not> is_owner then (pending, False)
      else if vpnhide_find_port_target global uid = None then (pending, False)
      else
        let set = pending_set owner; ways = pending ! set;
            way = select_way now owner ways 0 0 (pend_expires (ways ! 0));
            selected = ways ! way;
            changed = (\<not> owned_port_equal (pend_owner selected) owner \<or>
                       time_after_eq now (pend_expires selected)) in
        (pending[set := ways[way := pending_write hz now owner selected]],
         changed \<and> vpnhide_notify_port_change global ctx uid))"

section \<open>The ownership lookup\<close>

definition vpnhide_uid_owns_port :: "u64 \<Rightarrow> owned_ports_snapshot option \<Rightarrow> pending_port list list \<Rightarrow>
    uid_t \<Rightarrow> u16 \<Rightarrow> u8 \<Rightarrow> u8 \<Rightarrow> addr4 \<Rightarrow> bool" where
  "vpnhide_uid_owns_port jiffies snap pending uid port proto family address =
     (let wanted = \<lparr>own_uid = uid, own_port = port, own_protocol = proto, own_family = family,
                     own_address = address\<rparr>;
          wildcard = wanted\<lparr>own_address := (0, 0, 0, 0)\<rparr>;
          specific = (own_address wanted \<noteq> own_address wildcard) in
      if \<not> owned_port_is_local wanted then False
      else
        let found = (case snap of
              None \<Rightarrow> False
            | Some s \<Rightarrow>
                if bucket_count s = 0 \<or> time_after_eq jiffies (snap_expires s) then False
                else owned_snapshot_contains s wanted \<or>
                     specific \<and> owned_snapshot_contains s wildcard) in
        found \<or> pending_port_lookup_one jiffies pending wanted \<or>
        specific \<and> pending_port_lookup_one jiffies pending wildcard)"

section \<open>The snapshot holds exactly the reported ports\<close>

definition owned_cell :: "owned_port \<Rightarrow> owned_port cell" where
  "owned_cell e = (if own_uid e = 0 then Empty else Used e)"

lemma owned_port_equal_iff: "owned_port_equal l r \<longleftrightarrow> l = r"
  by (cases l; cases r) (auto simp: owned_port_equal_def)

interpretation owned: probe_table owned_cell "\<lambda>k. unat (owned_port_hash k)" "\<lambda>_ k. k" "\<lambda>k. own_uid k \<noteq> 0"
  by unfold_locales (simp add: owned_cell_def)

lemma next_slot:
  assumes "k \<le> 32" shows "unat ((slot + 1) AND (2 ^ k - 1) :: 32 word) = (unat slot + 1) mod 2 ^ k"
proof -
  have "(2::nat) ^ k dvd 2 ^ 32" using assms by (rule le_imp_power_dvd)
  then show ?thesis
    using assms by (simp add: unat_and_mask unat_word_ariths mod_mod_cancel)
qed

lemma contains_from_scan:
  assumes "k < 32" "length bs = 2 ^ k" "own_uid w \<noteq> 0"
  shows "contains_from bs (2 ^ k) w slot left \<longleftrightarrow>
    (\<exists>p. probe_scan owned_cell bs w (unat slot) left None = Found p)"
  using assms
proof (induction left arbitrary: slot)
  case (Suc left)
  then show ?case
    by (simp add: Let_def owned_cell_def owned_port_equal_iff next_slot)
qed simp

lemma insert_from_scan:
  assumes "k < 32" "length bs = 2 ^ k"
  shows "insert_from (bs, n) (2 ^ k) e slot left =
    (case probe_scan owned_cell bs e (unat slot) left None of
       Free p \<Rightarrow> (bs[p := e], n + 1) | _ \<Rightarrow> (bs, n))"
  using assms
proof (induction left arbitrary: slot)
  case (Suc left)
  then show ?case
    by (simp add: Let_def owned_cell_def owned_port_equal_iff next_slot)
qed simp

lemma unat_pow2_32: "k < 32 \<Longrightarrow> unat (2 ^ k :: 32 word) = 2 ^ k"
  using unat_of_nat_32 [of "2 ^ k"] power_strict_increasing [of k 32 "2::nat"] by simp

lemma hash_slot: "k < 32 \<Longrightarrow> unat (owned_port_hash w AND (2 ^ k - 1)) = unat (owned_port_hash w) mod 2 ^ k"
  by (simp add: unat_and_mask)

lemma insert_step:
  assumes "k < 32" "length bs = 2 ^ k" "own_uid e \<noteq> 0"
    and inv: "probe_inv owned_cell (\<lambda>k. unat (owned_port_hash k)) bs"
    and room: "length (filter (\<lambda>e. own_uid e \<noteq> 0) bs) < 2 ^ k"
    and res: "insert_from (bs, n) (2 ^ k) e (owned_port_hash e AND (2 ^ k - 1)) (2 ^ k) = (bs', n')"
  shows "length bs' = 2 ^ k \<and> probe_inv owned_cell (\<lambda>k. unat (owned_port_hash k)) bs' \<and>
    cell_keys owned_cell bs' = insert e (cell_keys owned_cell bs) \<and>
    length (filter (\<lambda>e. own_uid e \<noteq> 0) bs') \<le> Suc (length (filter (\<lambda>e. own_uid e \<noteq> 0) bs))"
proof -
  have ne: "bs \<noteq> []" using assms(2) by auto
  let ?scan = "probe_scan owned_cell bs e (unat (owned_port_hash e) mod length bs) (length bs) None"
  have r: "(case ?scan of Free p \<Rightarrow> (bs[p := e], n + 1) | _ \<Rightarrow> (bs, n)) = (bs', n')"
    using res assms(1,2) by (simp add: insert_from_scan hash_slot)
  show ?thesis
  proof (cases ?scan)
    case (Found p)
    then have "e \<in> cell_keys owned_cell bs" using owned.scan_Found_iff [OF inv ne] by blast
    with Found r assms(2) inv show ?thesis by (auto simp: insert_absorb)
  next
    case (Free p)
    note p = owned.scan_FreeD [OF ne Free]
    have "length (filter Q (xs[i := x])) \<le> Suc (length (filter Q xs))" for Q xs i and x :: owned_port
      by (induction xs arbitrary: i) (auto split: nat.splits)
    with Free r owned.inv_fill [OF inv ne Free assms(3)] assms(2) show ?thesis by auto
  next
    case Full
    have "own_uid s \<noteq> 0" if "s \<in> set bs" for s
      using owned.scan_FullD [OF ne Full that] by (auto simp: owned_cell_def split: if_splits)
    then have "filter (\<lambda>e. own_uid e \<noteq> 0) bs = bs" by (simp add: filter_id_conv)
    with room assms(2) show ?thesis by simp
  qed
qed

lemma insert_entries_Some:
  assumes "k < 32"
  shows "insert_entries (bs, n) (2 ^ k) es = Some (bs', n') \<Longrightarrow> length bs = 2 ^ k \<Longrightarrow>
    probe_inv owned_cell (\<lambda>k. unat (owned_port_hash k)) bs \<Longrightarrow>
    length (filter (\<lambda>e. own_uid e \<noteq> 0) bs) + length es \<le> 2 ^ k \<Longrightarrow>
    length bs' = 2 ^ k \<and> probe_inv owned_cell (\<lambda>k. unat (owned_port_hash k)) bs' \<and>
    cell_keys owned_cell bs' = set es \<union> cell_keys owned_cell bs"
proof (induction es arbitrary: bs n)
  case (Cons e es)
  obtain bs1 n1 where
    s: "insert_from (bs, n) (2 ^ k) e (owned_port_hash e AND (2 ^ k - 1)) (2 ^ k) = (bs1, n1)"
    by (cases "insert_from (bs, n) (2 ^ k) e (owned_port_hash e AND (2 ^ k - 1)) (2 ^ k)")
  from Cons.prems(1) s have uid: "own_uid e \<noteq> 0"
    and rest: "insert_entries (bs1, n1) (2 ^ k) es = Some (bs', n')"
    using assms by (auto simp: unat_pow2_32 split: if_splits)
  from Cons.prems(4) have room: "length (filter (\<lambda>e. own_uid e \<noteq> 0) bs) < 2 ^ k" by simp
  note st = insert_step [OF assms Cons.prems(2) uid Cons.prems(3) room s]
  from Cons.IH [OF rest] st Cons.prems(4) show ?case by auto
qed simp

lemma grow_buckets_pow2:
  "\<exists>j. grow_buckets want (2 ^ i) = 2 ^ j \<and> want \<le> 2 ^ j \<and> (2 ^ j < 2 * want \<or> j = i)"
proof (induction "want - 2 ^ i" arbitrary: i rule: less_induct)
  case less
  show ?case
  proof (cases "2 ^ i < want")
    case True
    then have "want - 2 ^ Suc i < want - 2 ^ i"
      using zero_less_power [of "2::nat" i] by (simp only: power_Suc) linarith
    from less [OF this] obtain j where
      j: "grow_buckets want (2 ^ Suc i) = 2 ^ j" "want \<le> 2 ^ j" "2 ^ j < 2 * want \<or> j = Suc i" by auto
    with True show ?thesis
      by (subst grow_buckets.simps) (auto simp: mult.commute intro!: exI [of _ j])
  next
    case False
    then show ?thesis by (subst grow_buckets.simps) (auto intro!: exI [of _ i])
  qed
qed

lemma replace_owned_table:
  assumes "replace_owned_ports hz now alloc_e alloc_s num reserved ptr entries = Inr s"
    and es: "es = (if num = 0 then [] else take (unat num) (the entries))"
  shows "\<exists>k < 32. bucket_count s = 2 ^ k \<and> length (buckets s) = 2 ^ k \<and>
    probe_inv owned_cell (\<lambda>k. unat (owned_port_hash k)) (buckets s) \<and>
    cell_keys owned_cell (buckets s) = set es \<and> snap_expires s = now + 120 * hz"
proof -
  let ?want = "max 8 (unat (num * 2))"
  from assms(1) have num: "num \<le> 65536" by (auto simp: replace_owned_ports_def not_less split: if_splits)
  then have le: "unat num \<le> 65536" by (simp add: word_le_nat_alt)
  then have dbl: "unat (num * 2) = 2 * unat num" by (simp add: unat_word_ariths)
  from grow_buckets_pow2 [of ?want 3] obtain k where
    k: "grow_buckets ?want 8 = 2 ^ k" "?want \<le> 2 ^ k" "2 ^ k < 2 * ?want \<or> k = 3" by auto
  have k32: "k < 32"
  proof (rule ccontr)
    assume "\<not> k < 32"
    then have "(2::nat) ^ 32 \<le> 2 ^ k" by (intro power_increasing) auto
    with k(3) \<open>\<not> k < 32\<close> le dbl show False by auto
  qed
  have nb: "unat (of_nat (2 ^ k) :: u32) = 2 ^ k" using k32 unat_pow2_32 by simp
  from assms(1) obtain n where
    ins: "insert_entries (replicate (2 ^ k) owned_zero, 0) (2 ^ k) es = Some (buckets s, n)"
    and s: "bucket_count s = 2 ^ k" "snap_expires s = now + 120 * hz"
    using es k(1) k32
    by (auto simp: replace_owned_ports_def Let_def unat_pow2_32 split: if_splits option.splits)
  have "probe_inv owned_cell (\<lambda>k. unat (owned_port_hash k)) (replicate (2 ^ k) owned_zero)"
    by (simp add: probe_inv_def owned_cell_def owned_zero_def)
  moreover have "cell_keys owned_cell (replicate (2 ^ k) owned_zero) = {}"
    by (auto simp: cell_keys_def owned_cell_def owned_zero_def)
  moreover have "length es \<le> 2 ^ k" using k(2) dbl es by (auto intro: order_trans)
  ultimately show ?thesis
    using insert_entries_Some [OF k32 ins] s k32 by (auto simp: owned_zero_def filter_replicate)
qed

lemma replace_owned_Inr:
  assumes "replace_owned_ports hz now alloc_e alloc_s num 0 ptr (Some es) = Inr s" "length es = unat num"
  shows "\<exists>k < 32. bucket_count s = 2 ^ k \<and> length (buckets s) = 2 ^ k \<and>
    probe_inv owned_cell (\<lambda>k. unat (owned_port_hash k)) (buckets s) \<and>
    cell_keys owned_cell (buckets s) = set es \<and> snap_expires s = now + 120 * hz"
  using replace_owned_table [OF assms(1), of es] assms(2) by (cases "num = 0") auto

lemma snapshot_contains_iff:
  assumes "replace_owned_ports hz now alloc_e alloc_s num 0 ptr (Some es) = Inr s"
    and "length es = unat num" "own_uid w \<noteq> 0"
  shows "owned_snapshot_contains s w \<longleftrightarrow> w \<in> set es"
proof -
  from replace_owned_Inr [OF assms(1,2)] obtain k where
    k: "k < 32" "bucket_count s = 2 ^ k" "length (buckets s) = 2 ^ k"
    and inv: "probe_inv owned_cell (\<lambda>k. unat (owned_port_hash k)) (buckets s)"
    and keys: "cell_keys owned_cell (buckets s) = set es" by auto
  have ne: "buckets s \<noteq> []" using k(3) by auto
  have "owned_snapshot_contains s w \<longleftrightarrow>
      (\<exists>p. probe_scan owned_cell (buckets s) w (unat (owned_port_hash w) mod length (buckets s))
        (length (buckets s)) None = Found p)"
    using k assms(3) by (simp add: owned_snapshot_contains_def contains_from_scan hash_slot unat_pow2_32)
  with owned.scan_Found_iff [OF inv ne] keys show ?thesis by simp
qed

section \<open>A recorded socket is owned\<close>

lemma pending_set_less: "pending_set owner < 256"
proof -
  have "unat (owned_port_hash owner AND (2 ^ 8 - 1)) = unat (owned_port_hash owner) mod 2 ^ 8"
    by (rule unat_and_mask) simp
  then show ?thesis by (simp add: pending_set_def)
qed

lemma select_way_less:
  "selected < way + length es \<Longrightarrow> select_way now owner es way selected oldest < way + length es"
proof (induction es arbitrary: way selected oldest)
  case (Cons e es)
  have a: "selected < way + 1 + length es" "way < way + 1 + length es" using Cons.prems by simp_all
  show ?case
    using Cons.IH [OF a(1), of oldest] Cons.IH [OF a(2), of "pend_expires e"] by simp
qed simp

definition pending_wf :: "pending_port list list \<Rightarrow> bool" where
  "pending_wf pending \<longleftrightarrow> length pending = 256 \<and>
     (\<forall>ways \<in> set pending. length ways = 4 \<and> (\<forall>e \<in> set ways. pend_sequence e AND 1 = 0))"

lemma even_seq: "(w :: u32) AND 1 = 0 \<Longrightarrow> (2 + w) AND 1 = 0"
  by (simp add: and_one_eq odd_iff_mod_2_eq_one flip: even_iff_mod_2_eq_zero)

definition pending_updated :: "u64 \<Rightarrow> u64 \<Rightarrow> owned_port \<Rightarrow> pending_port list list \<Rightarrow> pending_port list list" where
  "pending_updated hz now owner pending =
     (let ways = pending ! pending_set owner;
          way = select_way now owner ways 0 0 (pend_expires (ways ! 0)) in
      pending[pending_set owner := ways[way := pending_write hz now owner (ways ! way)]])"

lemma record_bound_socket_fst:
  "fst (vpnhide_record_bound_socket hz now global ctx uid sk pending) =
     (case owned_port_from_sock uid sk of (ok, owner) \<Rightarrow>
        if uid \<noteq> 0 \<and> ok \<and> vpnhide_find_port_target global uid \<noteq> None
        then pending_updated hz now owner pending else pending)"
  by (cases "owned_port_from_sock uid sk")
    (simp add: vpnhide_record_bound_socket_def pending_updated_def Let_def)

lemma pending_updated_ok:
  assumes wf: "pending_wf pending"
  shows "pending_wf (pending_updated hz now owner pending)"
    and "\<exists>e \<in> set (pending_updated hz now owner pending ! pending_set owner).
      pend_sequence e AND 1 = 0 \<and> pend_owner e = owner \<and> pend_expires e = now + 2 * hz"
proof -
  let ?s = "pending_set owner"
  let ?ways = "pending ! ?s"
  let ?way = "select_way now owner ?ways 0 0 (pend_expires (?ways ! 0))"
  let ?e = "pending_write hz now owner (?ways ! ?way)"
  have p: "?s < length pending" using wf pending_set_less [of owner] by (simp add: pending_wf_def)
  have mem: "?ways \<in> set pending" using p by (rule nth_mem)
  have ways: "length ?ways = 4" "\<forall>e \<in> set ?ways. pend_sequence e AND 1 = 0"
    using wf mem unfolding pending_wf_def by blast+
  have w: "?way < length ?ways" using select_way_less [of 0 0 ?ways] ways(1) by simp
  have "pend_sequence (?ways ! ?way) AND 1 = 0" using ways(2) nth_mem [OF w] by blast
  then have ev: "pend_sequence ?e AND 1 = 0" using even_seq by (simp add: pending_write_def)
  have new: "set (?ways[?way := ?e]) \<subseteq> insert ?e (set ?ways)" by (rule set_update_subset_insert)
  have ok: "length (?ways[?way := ?e]) = 4 \<and> (\<forall>e \<in> set (?ways[?way := ?e]). pend_sequence e AND 1 = 0)"
    using new ways ev by auto
  have upd: "pending_updated hz now owner pending = pending[?s := ?ways[?way := ?e]]"
    by (simp add: pending_updated_def Let_def)
  have "set (pending[?s := ?ways[?way := ?e]]) \<subseteq> insert (?ways[?way := ?e]) (set pending)"
    by (rule set_update_subset_insert)
  then have "length ways = 4 \<and> (\<forall>e \<in> set ways. pend_sequence e AND 1 = 0)"
    if "ways \<in> set (pending[?s := ?ways[?way := ?e]])" for ways
    using that ok wf unfolding pending_wf_def by blast
  then show "pending_wf (pending_updated hz now owner pending)"
    using wf unfolding upd pending_wf_def by simp
  have "?e \<in> set (?ways[?way := ?e])" using w by (rule set_update_memI)
  with p ev show "\<exists>e \<in> set (pending_updated hz now owner pending ! ?s).
      pend_sequence e AND 1 = 0 \<and> pend_owner e = owner \<and> pend_expires e = now + 2 * hz"
    unfolding upd by (intro bexI [of _ ?e]) (simp_all add: pending_write_def)
qed

lemma record_bound_socket_wf:
  assumes "pending_wf pending"
  shows "pending_wf (fst (vpnhide_record_bound_socket hz now global ctx uid sk pending))"
  using pending_updated_ok(1) [OF assms] assms by (simp add: record_bound_socket_fst split: prod.split)

lemma record_bound_socket_hit:
  assumes wf: "pending_wf pending" and o: "owned_port_from_sock uid sk = (True, owner)"
    and u: "uid \<noteq> 0" "vpnhide_find_port_target global uid \<noteq> None"
    and t: "time_before later (now + 2 * hz)"
  shows "pending_port_lookup_one later
    (fst (vpnhide_record_bound_socket hz now global ctx uid sk pending)) owner"
proof -
  have "fst (vpnhide_record_bound_socket hz now global ctx uid sk pending) = pending_updated hz now owner pending"
    using o u by (simp add: record_bound_socket_fst)
  with pending_updated_ok(2) [OF wf, of hz now owner] t show ?thesis
    by (auto simp: pending_port_lookup_one_def pending_hit_def list_ex_iff owned_port_equal_iff)
qed

lemma from_sock_owner:
  assumes "owned_port_from_sock uid sk = (True, owner)"
  shows "own_uid owner = uid" "own_port owner \<noteq> 0" "owned_port_is_local owner"
  using assms
  by (auto simp: owned_port_from_sock_def Let_def split: option.splits if_splits)

lemma pending_members:
  assumes "ways \<in> set (fst (vpnhide_record_bound_socket hz now global ctx uid sk pending))"
    and "e \<in> set ways" and "pending_wf pending"
  shows "(\<exists>ways' \<in> set pending. e \<in> set ways') \<or>
    (fst (owned_port_from_sock uid sk) \<and> pend_owner e = snd (owned_port_from_sock uid sk))"
proof -
  obtain ok owner where o: "owned_port_from_sock uid sk = (ok, owner)" by fastforce
  let ?ways = "pending ! pending_set owner"
  let ?way = "select_way now owner ?ways 0 0 (pend_expires (?ways ! 0))"
  let ?e = "pending_write hz now owner (?ways ! ?way)"
  have mem: "?ways \<in> set pending"
    using assms(3) pending_set_less [of owner] by (simp add: pending_wf_def)
  show ?thesis
  proof (cases "uid \<noteq> 0 \<and> ok \<and> vpnhide_find_port_target global uid \<noteq> None")
    case True
    with assms(1) o have "ways \<in> set (pending[pending_set owner := ?ways[?way := ?e]])"
      by (simp add: record_bound_socket_fst pending_updated_def Let_def)
    then have "ways \<in> set pending \<or> ways = ?ways[?way := ?e]"
      using set_update_subset_insert by fastforce
    moreover have "e = ?e \<or> e \<in> set ?ways" if "ways = ?ways[?way := ?e]"
      using that assms(2) set_update_subset_insert by fastforce
    ultimately show ?thesis using mem assms(2) True o by (auto simp: pending_write_def)
  next
    case False
    with assms o show ?thesis by (auto simp: record_bound_socket_fst split: if_splits)
  qed
qed

section \<open>Properties\<close>

text \<open>
  C5: An accepted report of owned ports replaces the table by one that answers exactly the
  report: for every owner with a nonzero UID, the probe loop of \<^verbatim>\<open>owned_snapshot_contains\<close> finds
  it iff it is one of the reported entries, whatever the hash collisions.
\<close>

theorem owned_snapshot_exact:
  assumes "replace_owned_ports hz now alloc_e alloc_s num 0 ptr (Some es) = Inr s"
    and "length es = unat num" and "own_uid w \<noteq> 0"
  shows "owned_snapshot_contains s w \<longleftrightarrow> w \<in> set es"
  using snapshot_contains_iff [OF assms] .

definition sample_owner :: owned_port where
  "sample_owner = \<lparr>own_uid = 10123, own_port = 8080, own_protocol = 0, own_family = 2,
     own_address = (0, 0, 0, 0)\<rparr>"

theorem owned_snapshot_exact_witness:
  "\<exists>s. replace_owned_ports 250 1000 True True 1 0 4096 (Some [sample_owner]) = Inr s \<and>
     owned_snapshot_contains s sample_owner \<and>
     \<not> owned_snapshot_contains s (sample_owner\<lparr>own_port := 9090\<rparr>)"
proof -
  have "\<exists>s. replace_owned_ports 250 1000 True True 1 0 4096 (Some [sample_owner]) = Inr s"
    by (simp add: replace_owned_ports_def Let_def sample_owner_def owned_port_is_local_def
        grow_buckets.simps split: prod.split)
  then obtain s where s: "replace_owned_ports 250 1000 True True 1 0 4096 (Some [sample_owner]) = Inr s" ..
  with owned_snapshot_exact [OF s, of sample_owner] owned_snapshot_exact [OF s, of "sample_owner\<lparr>own_port := 9090\<rparr>"]
  show ?thesis by (auto simp: sample_owner_def)
qed

text \<open>
  C8: A socket bound or listening on a local address makes its UID own the port at once: for two
  seconds after \<^verbatim>\<open>vpnhide_record_bound_socket\<close>, and without waiting for the daemon's report,
  \<^verbatim>\<open>vpnhide_uid_owns_port\<close> accepts the bound address, and any local address of the same family
  when the socket is bound to the wildcard address.
\<close>

theorem bound_socket_is_owned:
  assumes "pending_wf pending" and "owned_port_from_sock uid sk = (True, owner)"
    and "uid \<noteq> 0" and "vpnhide_find_port_target global uid \<noteq> None"
    and "time_before later (now + 2 * hz)"
    and "owned_port_is_local (owner\<lparr>own_address := address\<rparr>)"
    and "own_address owner = address \<or> own_address owner = (0, 0, 0, 0)"
  shows "vpnhide_uid_owns_port later snap
    (fst (vpnhide_record_bound_socket hz now global ctx uid sk pending))
    uid (own_port owner) (own_protocol owner) (own_family owner) address"
proof -
  have own: "own_uid owner = uid" using from_sock_owner(1) [OF assms(2)] .
  have hit: "pending_port_lookup_one later
      (fst (vpnhide_record_bound_socket hz now global ctx uid sk pending)) owner"
    using record_bound_socket_hit [OF assms(1-5)] .
  let ?w = "\<lparr>own_uid = uid, own_port = own_port owner, own_protocol = own_protocol owner,
    own_family = own_family owner, own_address = address\<rparr>"
  have w: "?w = owner\<lparr>own_address := address\<rparr>" using own by simp
  have same: "owner\<lparr>own_address := own_address owner\<rparr> = owner" by simp
  from assms(7) show ?thesis
  proof
    assume "own_address owner = address"
    with w have "?w = owner" by auto
    with hit assms(6) w show ?thesis by (simp add: vpnhide_uid_owns_port_def Let_def)
  next
    assume z: "own_address owner = (0, 0, 0, 0)"
    with own have "?w\<lparr>own_address := (0, 0, 0, 0)\<rparr> = owner" by simp
    with hit assms(6) w show ?thesis
      by (cases "address = (0, 0, 0, 0)") (auto simp: vpnhide_uid_owns_port_def Let_def)
  qed
qed

definition sample_listener :: sock where
  "sample_listener = \<lparr>sk_type = SOCK_STREAM, sk_family = 2, inet_num = 8080, inet_rcv_saddr = 0,
     sk_v6_rcv_saddr = (0, 0, 0, 0)\<rparr>"

lemma pending_empty_wf: "pending_wf pending_empty"
  by (simp add: pending_wf_def pending_empty_def pending_zero_def)

theorem bound_socket_is_owned_witness:
  "vpnhide_uid_owns_port 1100 None
     (fst (vpnhide_record_bound_socket 250 1000 (Some sample_policy) True 10123 (Some sample_listener)
        pending_empty)) 10123 8080 0 2 (0x0100007F, 0, 0, 0)"
proof -
  have o: "owned_port_from_sock 10123 (Some sample_listener) = (True, sample_owner)"
    by (simp add: owned_port_from_sock_def sample_listener_def sample_owner_def owned_zero_def
        owned_port_is_local_def)
  have t: "vpnhide_find_port_target (Some sample_policy) 10123 \<noteq> None"
    by (simp add: find_port_target_sample)
  have l: "time_before 1100 (1000 + 2 * 250)" by (simp add: time_before_def)
  show ?thesis
    using bound_socket_is_owned [OF pending_empty_wf o _ t l, of "(0x0100007F, 0, 0, 0)" None True]
    by (simp add: sample_owner_def owned_port_is_local_def ipv4_is_loopback_def)
qed

definition dual_stack_listener :: "u16 \<Rightarrow> sock" where
  "dual_stack_listener port = \<lparr>sk_type = SOCK_STREAM, sk_family = AF_INET6, inet_num = port,
     inet_rcv_saddr = 0, sk_v6_rcv_saddr = (0, 0, 0, 0)\<rparr>"

lemma dual_stack_owner:
  "port \<noteq> 0 \<Longrightarrow> owned_port_from_sock uid (Some (dual_stack_listener port)) =
     (True, \<lparr>own_uid = uid, own_port = port, own_protocol = VH_PROTO_TCP, own_family = AF_INET6,
        own_address = (0, 0, 0, 0)\<rparr>)"
  by (simp add: owned_port_from_sock_def dual_stack_listener_def ipv6_addr_v4mapped_def owned_zero_def
      owned_port_is_local_def ipv6_addr_any_def)

lemma pending_other_family:
  assumes "owned_port_from_sock uid sk = (True, owner)" "own_family w \<noteq> own_family owner" "own_family w \<noteq> 0"
  shows "\<not> pending_port_lookup_one later
    (fst (vpnhide_record_bound_socket hz now global ctx uid sk pending_empty)) w"
proof -
  let ?p = "fst (vpnhide_record_bound_socket hz now global ctx uid sk pending_empty)"
  have "pending_wf ?p" by (rule record_bound_socket_wf [OF pending_empty_wf])
  then have mem: "?p ! pending_set w \<in> set ?p"
    using pending_set_less [of w] by (simp add: pending_wf_def)
  have "\<not> pending_hit later w e" if "e \<in> set (?p ! pending_set w)" for e
  proof -
    have "pend_owner e = owned_zero \<or> pend_owner e = owner"
      using pending_members [OF mem that pending_empty_wf] assms(1)
      by (auto simp: pending_empty_def pending_zero_def)
    with assms(2,3) show ?thesis by (auto simp: pending_hit_def owned_port_equal_iff owned_zero_def)
  qed
  then show ?thesis by (simp add: pending_port_lookup_one_def list_ex_iff)
qed

text \<open>
  C10: A TCP listener on the IPv6 wildcard address also accepts IPv4 connections, but ownership is
  recorded under its own family only: right after such a listener was recorded, its UID owns the
  port at the IPv6 loopback address and not at the IPv4 loopback address.
\<close>

theorem dual_stack_listener_owns_v6_only:
  assumes "port \<noteq> 0" and "uid \<noteq> 0" and "vpnhide_find_port_target global uid \<noteq> None"
    and "time_before later (now + 2 * hz)"
  shows "vpnhide_uid_owns_port later None
      (fst (vpnhide_record_bound_socket hz now global ctx uid (Some (dual_stack_listener port)) pending_empty))
      uid port VH_PROTO_TCP AF_INET6 (0, 0, 0, 0x01000000) \<and>
    \<not> vpnhide_uid_owns_port later None
      (fst (vpnhide_record_bound_socket hz now global ctx uid (Some (dual_stack_listener port)) pending_empty))
      uid port VH_PROTO_TCP AF_INET (0x0100007F, 0, 0, 0)"
proof
  note o = dual_stack_owner [OF assms(1), of uid]
  from record_bound_socket_hit [OF pending_empty_wf o assms(2-4)]
  show "vpnhide_uid_owns_port later None
      (fst (vpnhide_record_bound_socket hz now global ctx uid (Some (dual_stack_listener port)) pending_empty))
      uid port VH_PROTO_TCP AF_INET6 (0, 0, 0, 0x01000000)"
    by (simp add: vpnhide_uid_owns_port_def Let_def owned_port_is_local_def ipv6_addr_loopback_def)
  show "\<not> vpnhide_uid_owns_port later None
      (fst (vpnhide_record_bound_socket hz now global ctx uid (Some (dual_stack_listener port)) pending_empty))
      uid port VH_PROTO_TCP AF_INET (0x0100007F, 0, 0, 0)"
    using pending_other_family [OF o] by (simp add: vpnhide_uid_owns_port_def Let_def)
qed

theorem dual_stack_listener_witness:
  "\<not> vpnhide_uid_owns_port 1100 None
      (fst (vpnhide_record_bound_socket 250 1000 (Some sample_policy) True 10123
        (Some (dual_stack_listener 8080)) pending_empty))
      10123 8080 0 2 (0x0100007F, 0, 0, 0)"
proof -
  have t: "vpnhide_find_port_target (Some sample_policy) 10123 \<noteq> None"
    by (simp add: find_port_target_sample)
  have l: "time_before 1100 (1000 + 2 * 250)" by (simp add: time_before_def)
  show ?thesis using dual_stack_listener_owns_v6_only [OF _ _ t l, of 8080 True] by simp
qed

end
