(* ===== verification/Kernel_Ifaces.thy ===== *)
theory Kernel_Ifaces
  imports Owned_Ports
begin

text \<open>
  The interface knowledge of kmod/main.c: the cover data the socket hooks substitute
  (\<^verbatim>\<open>update_spoof_ip\<close>, \<^verbatim>\<open>get_spoof_ip\<close>), the active VPN interfaces, and the hashed cache of their
  names. A name is the character array of the structure; \<^verbatim>\<open>strncpy\<close> into a zeroed array followed
  by the forced terminator keeps at most 15 characters.
\<close>

section \<open>Cover data\<close>

record spoof_ip =
  ipv4_addr :: u32
  ipv6_addr :: addr4
  ipv6_linklocal_addr :: addr4
  has_ipv4 :: u8
  has_ipv6 :: u8
  has_ipv6_linklocal :: u8
  sip_reserved :: u8
  ipv4_mtu :: u32
  ipv6_mtu :: u32

definition spoof_zero :: spoof_ip where
  "spoof_zero = \<lparr>ipv4_addr = 0, ipv6_addr = (0, 0, 0, 0), ipv6_linklocal_addr = (0, 0, 0, 0),
     has_ipv4 = 0, has_ipv6 = 0, has_ipv6_linklocal = 0, sip_reserved = 0, ipv4_mtu = 0, ipv6_mtu = 0\<rparr>"

text \<open>The link-local test of \<^verbatim>\<open>ipv6_addr_type\<close>: the first ten bits are those of fe80.\<close>

definition ipv6_addr_linklocal :: "addr4 \<Rightarrow> bool" where
  "ipv6_addr_linklocal a \<longleftrightarrow> fst a AND 0xC0FF = 0x80FE"

definition flag :: "u8 \<Rightarrow> u8" where
  "flag b = (if b = 0 then 0 else 1)"

definition sanitize_spoof_ip :: "spoof_ip \<Rightarrow> spoof_ip" where
  "sanitize_spoof_ip sip =
     (let s = sip\<lparr>has_ipv4 := flag (has_ipv4 sip), has_ipv6 := flag (has_ipv6 sip),
                   has_ipv6_linklocal := flag (has_ipv6_linklocal sip), sip_reserved := 0\<rparr>;
          s = (if has_ipv4 s = 0 \<or> ipv4_mtu s < 68 \<or> ipv4_mtu s > 65535 then s\<lparr>ipv4_mtu := 0\<rparr> else s);
          s = (if has_ipv6 s = 0 \<or> ipv6_mtu s < 1280 \<or> ipv6_mtu s > 65535 then s\<lparr>ipv6_mtu := 0\<rparr> else s) in
      if has_ipv6_linklocal s = 0 \<or> \<not> ipv6_addr_linklocal (ipv6_linklocal_addr s)
      then s\<lparr>has_ipv6_linklocal := 0, ipv6_linklocal_addr := (0, 0, 0, 0)\<rparr> else s)"

definition update_spoof_ip :: "bool \<Rightarrow> spoof_ip \<Rightarrow> errno + spoof_ip" where
  "update_spoof_ip alloc_ok sip = (if alloc_ok then Inr (sanitize_spoof_ip sip) else Inl ENOMEM)"

definition get_spoof_ip :: "spoof_ip option \<Rightarrow> spoof_ip" where
  "get_spoof_ip p = (case p of Some sip \<Rightarrow> sip | None \<Rightarrow> spoof_zero)"

definition spoof_wf :: "spoof_ip \<Rightarrow> bool" where
  "spoof_wf s \<longleftrightarrow> has_ipv4 s \<le> 1 \<and> has_ipv6 s \<le> 1 \<and> has_ipv6_linklocal s \<le> 1 \<and> sip_reserved s = 0 \<and>
     (ipv4_mtu s = 0 \<or> has_ipv4 s = 1 \<and> 68 \<le> ipv4_mtu s \<and> ipv4_mtu s \<le> 65535) \<and>
     (ipv6_mtu s = 0 \<or> has_ipv6 s = 1 \<and> 1280 \<le> ipv6_mtu s \<and> ipv6_mtu s \<le> 65535) \<and>
     (if has_ipv6_linklocal s = 1 then ipv6_addr_linklocal (ipv6_linklocal_addr s)
      else ipv6_linklocal_addr s = (0, 0, 0, 0))"

section \<open>Active VPN interfaces\<close>

record active_vpn =
  vpn_ifindex :: u32
  vpn_name :: string

definition is_active_vpn_ifindex :: "active_vpn list option \<Rightarrow> u32 \<Rightarrow> bool" where
  "is_active_vpn_ifindex vpns i = (case vpns of
     None \<Rightarrow> False | Some vs \<Rightarrow> list_ex (\<lambda>v. vpn_ifindex v = i) vs)"

definition is_active_vpn_ifname :: "active_vpn list option \<Rightarrow> string \<Rightarrow> bool" where
  "is_active_vpn_ifname vpns name =
     (if c_string name = [] then False
      else case vpns of
        None \<Rightarrow> False | Some vs \<Rightarrow> list_ex (\<lambda>v. strncmp_eq MAX_IFACE_LEN (vpn_name v) name) vs)"

section \<open>The hashed name cache\<close>

definition fnv1a_name :: "string \<Rightarrow> nat \<Rightarrow> u32" where
  "fnv1a_name s maxlen =
     foldl (\<lambda>hash c. (hash XOR of_nat (of_char c)) * 16777619) 2166136261 (take maxlen (c_string s))"

type_synonym name_cache = "(u32 \<times> string) list"

definition vh_rebuild_name_cache :: "bool \<Rightarrow> int \<Rightarrow> active_vpn list \<Rightarrow> name_cache option \<Rightarrow> name_cache option" where
  "vh_rebuild_name_cache alloc_ok n vpns old =
     (if \<not> alloc_ok then old
      else
        let used = (if n < int MAX_ACTIVE_VPNS then nat n else MAX_ACTIVE_VPNS) in
        Some (map (\<lambda>v. let name = take (MAX_IFACE_LEN - 1) (c_string (vpn_name v)) in
                (fnv1a_name name MAX_IFACE_LEN, name)) (take used vpns)))"

definition vh_is_vpn_name_cached :: "name_cache option \<Rightarrow> string \<Rightarrow> nat \<Rightarrow> bool" where
  "vh_is_vpn_name_cached cache name len =
     (if len = 0 then False
      else
        let h = fnv1a_name name len in
        case cache of
          None \<Rightarrow> False
        | Some c \<Rightarrow> list_ex (\<lambda>(hash, cached). hash = h \<and> strncmp_eq MAX_IFACE_LEN cached name) c)"

section \<open>Lemmas\<close>

lemma sanitize_wf: "spoof_wf (sanitize_spoof_ip sip)"
  by (auto simp: sanitize_spoof_ip_def spoof_wf_def Let_def flag_def not_less)

lemma flag_le:
  assumes "f \<le> 1" shows "flag f = f"
proof -
  from assms have "f = 0 \<or> f = 1" by unat_arith
  then show ?thesis by (auto simp: flag_def)
qed

lemma sanitize_id:
  assumes "spoof_wf s" shows "sanitize_spoof_ip s = s"
proof -
  from assms have f: "flag (has_ipv4 s) = has_ipv4 s" "flag (has_ipv6 s) = has_ipv6 s"
    "flag (has_ipv6_linklocal s) = has_ipv6_linklocal s" "sip_reserved s = 0"
    by (simp_all add: spoof_wf_def flag_le)
  then have a: "s\<lparr>has_ipv4 := flag (has_ipv4 s), has_ipv6 := flag (has_ipv6 s),
      has_ipv6_linklocal := flag (has_ipv6_linklocal s), sip_reserved := 0\<rparr> = s" by (cases s) simp
  have b: "s\<lparr>ipv4_mtu := 0\<rparr> = s" if "has_ipv4 s = 0 \<or> ipv4_mtu s < 68 \<or> ipv4_mtu s > 65535"
  proof -
    have "ipv4_mtu s = 0" using that assms by (auto simp: spoof_wf_def)
    then show ?thesis by (cases s) simp
  qed
  have c: "s\<lparr>ipv6_mtu := 0\<rparr> = s" if "has_ipv6 s = 0 \<or> ipv6_mtu s < 1280 \<or> ipv6_mtu s > 65535"
  proof -
    have "ipv6_mtu s = 0" using that assms by (auto simp: spoof_wf_def)
    then show ?thesis by (cases s) simp
  qed
  have d: "s\<lparr>has_ipv6_linklocal := 0, ipv6_linklocal_addr := (0, 0, 0, 0)\<rparr> = s"
    if "has_ipv6_linklocal s = 0 \<or> \<not> ipv6_addr_linklocal (ipv6_linklocal_addr s)"
  proof -
    have "has_ipv6_linklocal s = 0 \<or> has_ipv6_linklocal s = 1" using f(3) by (auto simp: flag_def split: if_splits)
    then have "has_ipv6_linklocal s = 0" "ipv6_linklocal_addr s = (0, 0, 0, 0)"
      using that assms by (auto simp: spoof_wf_def)
    then show ?thesis by (cases s) simp
  qed
  show ?thesis unfolding sanitize_spoof_ip_def Let_def a using b c d by simp
qed

text \<open>The hash is only a filter: it never changes the answer of the cache.\<close>

lemma cached_name_iff:
  assumes "length (c_string name) \<le> len" "len \<noteq> 0"
  shows "vh_is_vpn_name_cached (vh_rebuild_name_cache True n vpns old) name len \<longleftrightarrow>
    (\<exists>v \<in> set (take (if n < 16 then nat n else 16) vpns). take 15 (c_string (vpn_name v)) = c_string name)"
proof -
  let ?t = "\<lambda>v. take 15 (c_string (vpn_name v))"
  have cs: "c_string (?t v) = ?t v" for v
    by (rule c_string_id) (auto dest: in_set_takeD)
  have eq: "strncmp_eq 16 (?t v) name \<longleftrightarrow> ?t v = c_string name" for v
  proof
    assume "strncmp_eq 16 (?t v) name"
    then have t: "take 16 (?t v) = take 16 (c_string name)" by (simp add: strncmp_eq_def cs)
    then have "?t v = take 16 (c_string name)" by (simp add: min_def)
    moreover from this have "length (take 16 (c_string name)) \<le> 15" by (metis length_take min.cobounded2)
    ultimately show "?t v = c_string name" by (simp add: min_def split: if_splits)
  next
    assume "?t v = c_string name"
    then show "strncmp_eq 16 (?t v) name" by (simp add: strncmp_eq_def cs)
  qed
  have h: "fnv1a_name (?t v) 16 = fnv1a_name name len" if "?t v = c_string name" for v
  proof -
    have "length (c_string name) \<le> 15" using arg_cong [OF that, of length] by simp
    with that assms(1) show ?thesis by (simp add: fnv1a_name_def cs)
  qed
  show ?thesis
    using assms(2) eq h
    by (auto simp: vh_is_vpn_name_cached_def vh_rebuild_name_cache_def Let_def list_ex_iff)
qed

section \<open>Properties\<close>

text \<open>
  The cover data the kernel publishes is canonical whatever the daemon sent: flags are 0 or 1,
  an MTU is zero or belongs to a family that is present and is within the limits of that family,
  and a link-local address is present only when it is one and is zero otherwise. Publishing data
  that is already canonical does not change it.
\<close>

theorem spoof_ip_canonical:
  "\<exists>s. update_spoof_ip True sip = Inr s \<and> spoof_wf s \<and> update_spoof_ip True s = Inr s"
  using sanitize_wf [of sip] sanitize_id [OF sanitize_wf, of sip] by (simp add: update_spoof_ip_def)

text \<open>
  The hashed name cache answers exactly membership: after the active interfaces were set, a
  lookup with a length that covers the name succeeds iff the name is, up to the 15 characters an
  interface name can have, the name of one of the at most sixteen interfaces. Neither the hash nor a
  collision changes the answer.
\<close>

theorem name_cache_exact:
  assumes "length (c_string name) \<le> len" and "len \<noteq> 0"
  shows "vh_is_vpn_name_cached (vh_rebuild_name_cache True n vpns old) name len \<longleftrightarrow>
    (\<exists>v \<in> set (take (if n < 16 then nat n else 16) vpns). take 15 (c_string (vpn_name v)) = c_string name)"
  using cached_name_iff [OF assms] .

theorem name_cache_exact_witness:
  "vh_is_vpn_name_cached (vh_rebuild_name_cache True 1 [\<lparr>vpn_ifindex = 9, vpn_name = ''tun0''\<rparr>] None) ''tun0'' 4 \<and>
   \<not> vh_is_vpn_name_cached (vh_rebuild_name_cache True 1 [\<lparr>vpn_ifindex = 9, vpn_name = ''tun0''\<rparr>] None) ''wlan0'' 5"
  using name_cache_exact [of "''tun0''" 4 1 "[\<lparr>vpn_ifindex = 9, vpn_name = ''tun0''\<rparr>]" None]
    name_cache_exact [of "''wlan0''" 5 1 "[\<lparr>vpn_ifindex = 9, vpn_name = ''tun0''\<rparr>]" None]
  by (simp add: c_string_def NUL_def)

end
