(* ===== verification/Udp_Limit.thy ===== *)
theory Udp_Limit
  imports Policy_Match
begin

text \<open>
  The UDP token bucket of kmod/hooks_fs.c. The hash table of rates is the list of its nodes, at
  most one per UID; \<^verbatim>\<open>ktime_get_ns()\<close> is an argument. Tokens are counted in thousandths: a send
  costs 1000, the bucket holds 250000, and one thousandth comes back every 2000 nanoseconds.
\<close>

record udp_uid_rate =
  ur_uid :: uid_t
  last_time_ns :: u64
  tokens :: u32

abbreviation (input) BUCKET_CAPACITY :: u32 where "BUCKET_CAPACITY \<equiv> 250"
abbreviation (input) TOKEN_REGEN_NS :: u64 where "TOKEN_REGEN_NS \<equiv> 2000000"

definition udp_refill :: "u64 \<Rightarrow> udp_uid_rate \<Rightarrow> udp_uid_rate" where
  "udp_refill now rate =
     (if now > last_time_ns rate then
        let elapsed = now - last_time_ns rate;
            reg_tokens = (elapsed * 1000) div TOKEN_REGEN_NS in
        if reg_tokens > 0 then
          let t = tokens rate + ucast reg_tokens in
          if t \<ge> BUCKET_CAPACITY * 1000
          then rate\<lparr>tokens := BUCKET_CAPACITY * 1000, last_time_ns := now\<rparr>
          else rate\<lparr>tokens := t,
                 last_time_ns := last_time_ns rate + (reg_tokens * TOKEN_REGEN_NS) div 1000\<rparr>
        else rate
      else rate)"

definition udp_take :: "udp_uid_rate \<Rightarrow> bool \<times> udp_uid_rate" where
  "udp_take rate =
     (if tokens rate \<ge> 1000 then (False, rate\<lparr>tokens := tokens rate - 1000\<rparr>) else (True, rate))"

fun udp_rate_update :: "u64 \<Rightarrow> uid_t \<Rightarrow> udp_uid_rate list \<Rightarrow> (bool \<times> udp_uid_rate list) option" where
  "udp_rate_update now uid [] = None"
| "udp_rate_update now uid (r # rs) =
     (if ur_uid r = uid then
        (case udp_take (udp_refill now r) of (exceeded, r') \<Rightarrow> Some (exceeded, r' # rs))
      else map_option (\<lambda>(exceeded, rs'). (exceeded, r # rs')) (udp_rate_update now uid rs))"

definition udp_rate_limit_exceeded :: "u64 \<Rightarrow> bool \<Rightarrow> uid_t \<Rightarrow> udp_uid_rate list \<Rightarrow>
    bool \<times> udp_uid_rate list" where
  "udp_rate_limit_exceeded now alloc_ok uid rates =
     (case udp_rate_update now uid rates of
        Some res \<Rightarrow> res
      | None \<Rightarrow>
          if alloc_ok
          then (False, \<lparr>ur_uid = uid, last_time_ns = now, tokens = (BUCKET_CAPACITY - 1) * 1000\<rparr> # rates)
          else (False, rates))"

definition vpnhide_udp_rates_prune :: "policy_snapshot option \<Rightarrow> udp_uid_rate list \<Rightarrow> udp_uid_rate list" where
  "vpnhide_udp_rates_prune snapshot rates =
     filter (\<lambda>r. case snapshot of
         None \<Rightarrow> False
       | Some s \<Rightarrow> vpnhide_uid_matches_mode (kmod_uids s) (kmod_match_mode s) (ur_uid r)) rates"

section \<open>The bucket over unbounded numbers\<close>

text \<open>
  The refill as it is meant: thousandths that have accrued are added up to the capacity, and the
  remainder below one thousandth stays in the time stamp.
\<close>

definition refill_spec :: "nat \<Rightarrow> nat \<times> nat \<Rightarrow> nat \<times> nat" where
  "refill_spec now lt = (case lt of (l, t) \<Rightarrow>
     let reg = (now - l) div 2000 in
     if t + reg \<ge> 250000 \<and> reg > 0 then (now, 250000) else (l + reg * 2000, t + reg))"


lemma refill_spec_idle: "refill_spec now (now, t) = (now, t)"
  by (simp add: refill_spec_def)








section \<open>Properties\<close>




text \<open>
  C14: The refill truncates the regenerated tokens to 32 bits. A UID whose bucket is empty and that
  stays idle for exactly 2^32 regeneration steps (about two hours and 23 minutes) gets nothing
  back: its next send is still over the limit, and the idle time is spent.
\<close>

theorem udp_idle_bucket_stays_empty:
  assumes "stamp + 2 ^ 32 * 2000 > stamp"
  shows "udp_rate_limit_exceeded (stamp + 2 ^ 32 * 2000) alloc_ok uid
     [\<lparr>ur_uid = uid, last_time_ns = stamp, tokens = 0\<rparr>] =
   (True, [\<lparr>ur_uid = uid, last_time_ns = stamp + 2 ^ 32 * 2000, tokens = 0\<rparr>])"
  using assms by (simp add: udp_rate_limit_exceeded_def udp_refill_def udp_take_def Let_def)

theorem udp_idle_bucket_witness:
  "fst (udp_rate_limit_exceeded (5 + 2 ^ 32 * 2000) True 10001
     [\<lparr>ur_uid = 10001, last_time_ns = 5, tokens = 0\<rparr>])"
  using udp_idle_bucket_stays_empty [of 5 True 10001] by simp

end
