(* ===== verification/Hook_Env.thy ===== *)
theory Hook_Env
  imports Kernel_Ifaces Udp_Limit
begin

text \<open>
  What the network and file hooks read of the module's global state: the published policy, the
  active VPN interfaces and their name cache, the cover data, the cover interface and the layout
  flag of the traffic counters. The hooks see it as one value; \<open>hidden_from\<close> is the guard all hiding
  hooks start with. Eight-byte integers and the copy to user space that may stop half-way are here
  too.
\<close>

record hook_env =
  global_policy :: "policy_snapshot option"
  global_active_vpns :: "active_vpn list option"
  g_vpn_name_cache :: "name_cache option"
  global_spoof_ip :: "spoof_ip option"
  global_cover_ifindex :: u32
  stats_pkts_first :: bool

abbreviation (input) hook_on :: "hook_env \<Rightarrow> vpnhide_hook_idx \<Rightarrow> uid_t \<Rightarrow> bool" where
  "hook_on env \<equiv> is_hook_active (global_policy env)"

abbreviation (input) is_target :: "hook_env \<Rightarrow> uid_t \<Rightarrow> bool" where
  "is_target env \<equiv> is_target_uid_val (global_policy env)"

abbreviation (input) vpn_index :: "hook_env \<Rightarrow> u32 \<Rightarrow> bool" where
  "vpn_index env \<equiv> is_active_vpn_ifindex (global_active_vpns env)"

abbreviation (input) vpn_ifname :: "hook_env \<Rightarrow> string \<Rightarrow> bool" where
  "vpn_ifname env \<equiv> is_active_vpn_ifname (global_active_vpns env)"

definition hidden_from :: "hook_env \<Rightarrow> vpnhide_hook_idx \<Rightarrow> uid_t \<Rightarrow> bool" where
  "hidden_from env h uid \<longleftrightarrow> hook_on env h uid \<and> is_target env uid"

text \<open>\<^verbatim>\<open>copy_to_user\<close> of \<open>new\<close> over \<open>old\<close>, of which the last \<open>left\<close> bytes were not copied.\<close>

definition copy_to_user :: "u8 list \<Rightarrow> u8 list \<Rightarrow> nat \<Rightarrow> u8 list" where
  "copy_to_user old new left = take (length new - left) new @ drop (length new - left) old"

lemma copy_to_user_all [simp]: "copy_to_user old new 0 = new @ drop (length new) old"
  by (simp add: copy_to_user_def)

lemma length_copy_to_user: "length new = length old \<Longrightarrow> length (copy_to_user old new left) = length old"
  by (simp add: copy_to_user_def)

section \<open>Eight-byte integers\<close>

definition u64_bytes :: "u64 \<Rightarrow> u8 list" where
  "u64_bytes w = u32_bytes (ucast w) @ u32_bytes (ucast (drop_bit 32 w))"

definition get_u64 :: "u8 list \<Rightarrow> nat \<Rightarrow> u64" where
  "get_u64 bs off = ucast (get_u32 bs off) OR push_bit 32 (ucast (get_u32 bs (off + 4)))"

lemma length_u64_bytes [simp]: "length (u64_bytes w) = 8"
  by (simp add: u64_bytes_def)

lemma u64_of_halves: "(ucast (ucast (w :: u64) :: u32) :: u64) OR
    push_bit 32 (ucast (ucast (drop_bit 32 w) :: u32)) = w"
proof (rule bit_word_eqI)
  fix n assume "n < LENGTH(64)"
  then consider "n < 32" | "32 \<le> n" "n < 64" by force
  then show "bit ((ucast (ucast w :: u32) :: u64) OR
    push_bit 32 (ucast (ucast (drop_bit 32 w) :: u32))) n = bit w n"
    by cases (simp_all add: bit_simps less_diff_conv2)
qed

lemma get_u64_skip: "length xs \<le> off \<Longrightarrow> get_u64 (xs @ ys) off = get_u64 ys (off - length xs)"
proof -
  assume le: "length xs \<le> off"
  then have "off + 4 - length xs = off - length xs + 4" by simp
  with le show ?thesis
    using get_u32_skip [of xs off ys] get_u32_skip [of xs "off + 4" ys] unfolding get_u64_def
    by (metis trans_le_add1)
qed

lemma get_u64_bytes_append: "get_u64 (u64_bytes w @ ys) 0 = w"
proof -
  have "get_u32 (u64_bytes w @ ys) 0 = ucast w"
    by (simp add: u64_bytes_def get_u32_bytes_append)
  moreover have "get_u32 (u64_bytes w @ ys) (0 + 4) = ucast (drop_bit 32 w)"
    using get_u32_skip [of "u32_bytes (ucast w)" 4 "u32_bytes (ucast (drop_bit 32 w)) @ ys"]
    by (simp add: u64_bytes_def get_u32_bytes_append)
  ultimately show ?thesis using u64_of_halves [of w] by (simp add: get_u64_def)
qed

end
