(* ===== verification/Kernel_Stats.thy ===== *)
theory Kernel_Stats
  imports Policy_Match Probe_Table
begin

text \<open>
  The intercept statistics of kmod/main.c: the UID-keyed counter array (\<^verbatim>\<open>record_kmod_intercept\<close>,
  \<^verbatim>\<open>vpnhide_kmod_record_java_stat\<close>), its reconciliation with a new policy
  (\<^verbatim>\<open>kmod_stats_reconcile\<close>), and the open-addressed per-port table with tombstones and a time to
  live (\<^verbatim>\<open>record_port_intercept\<close>, \<^verbatim>\<open>count_live_port_stats_locked\<close>). The used part of the C array is
  the list, its allocated size the capacity.
\<close>

section \<open>The UID counters\<close>

record uid_stats =
  st_uid :: uid_t
  ioctl_count :: u64
  netlink_count :: u64
  proc_count :: u64
  sockopt_count :: u64
  connect_count :: u64
  getname_count :: u64
  port_count :: u64
  java_pm_count :: u64
  java_um_count :: u64
  java_nc_count :: u64
  java_ni_count :: u64
  java_net_count :: u64
  java_lp_count :: u64
  java_cs_count :: u64

abbreviation (input) VPNHIDE_UID_STATS_CAPACITY :: nat where "VPNHIDE_UID_STATS_CAPACITY \<equiv> 4096"

definition zero_stats :: "uid_t \<Rightarrow> uid_stats" where
  "zero_stats uid = \<lparr>st_uid = uid, ioctl_count = 0, netlink_count = 0, proc_count = 0,
     sockopt_count = 0, connect_count = 0, getname_count = 0, port_count = 0, java_pm_count = 0,
     java_um_count = 0, java_nc_count = 0, java_ni_count = 0, java_net_count = 0, java_lp_count = 0,
     java_cs_count = 0\<rparr>"

definition bump :: "int \<Rightarrow> uid_stats \<Rightarrow> uid_stats" where
  "bump type st =
     (if type = 0 then st\<lparr>ioctl_count := ioctl_count st + 1\<rparr>
      else if type = 1 then st\<lparr>netlink_count := netlink_count st + 1\<rparr>
      else if type = 2 then st\<lparr>proc_count := proc_count st + 1\<rparr>
      else if type = 3 then st\<lparr>sockopt_count := sockopt_count st + 1\<rparr>
      else if type = 4 then st\<lparr>connect_count := connect_count st + 1\<rparr>
      else if type = 5 then st\<lparr>getname_count := getname_count st + 1\<rparr>
      else if type = 6 then st\<lparr>port_count := port_count st + 1\<rparr>
      else st)"

definition insert_at :: "nat \<Rightarrow> 'e \<Rightarrow> 'e list \<Rightarrow> 'e list" where
  "insert_at i e xs = take i xs @ e # drop i xs"

definition record_kmod_intercept :: "nat \<Rightarrow> uid_stats list \<Rightarrow> uid_t \<Rightarrow> int \<Rightarrow> uid_stats list" where
  "record_kmod_intercept capacity stats uid type =
     (if uid_protected uid then stats
      else case search st_uid stats uid of
        Hit i \<Rightarrow> stats[i := bump type (stats ! i)]
      | Miss lo \<Rightarrow>
          if length stats \<ge> capacity then stats
          else insert_at lo (bump type (zero_stats uid)) stats)"

definition bump_java :: "string \<Rightarrow> u64 \<Rightarrow> uid_stats \<Rightarrow> uid_stats" where
  "bump_java hook n st =
     (if hook = ''PackageManager'' then st\<lparr>java_pm_count := java_pm_count st + n\<rparr>
      else if hook = ''UserManager'' then st\<lparr>java_um_count := java_um_count st + n\<rparr>
      else if hook = ''NetworkCapabilities'' then st\<lparr>java_nc_count := java_nc_count st + n\<rparr>
      else if hook = ''NetworkInfo'' then st\<lparr>java_ni_count := java_ni_count st + n\<rparr>
      else if hook = ''Network'' then st\<lparr>java_net_count := java_net_count st + n\<rparr>
      else if hook = ''LinkProperties'' then st\<lparr>java_lp_count := java_lp_count st + n\<rparr>
      else if hook = ''ConnectivityService'' then st\<lparr>java_cs_count := java_cs_count st + n\<rparr>
      else st)"

definition record_java_stat :: "nat \<Rightarrow> uid_stats list \<Rightarrow> uid_t \<Rightarrow> string \<Rightarrow> u64 \<Rightarrow> uid_stats list" where
  "record_java_stat capacity stats uid hook n =
     (case search st_uid stats uid of
        Hit i \<Rightarrow> stats[i := bump_java hook n (stats ! i)]
      | Miss lo \<Rightarrow>
          if \<not> uid_protected uid \<and> length stats < capacity
          then insert_at lo (bump_java hook n (zero_stats uid)) stats
          else stats)"

section \<open>Reconciliation with a new policy\<close>

definition policy_has_inverted_stats_layer :: "policy_snapshot \<Rightarrow> bool" where
  "policy_has_inverted_stats_layer s \<longleftrightarrow> kmod_match_mode s = VPNHIDE_MATCH_EXCLUDE \<or>
     lsposed_match_mode s = VPNHIDE_MATCH_EXCLUDE \<or> port_match_mode s = VPNHIDE_MATCH_EXCLUDE"

definition policy_uid_has_stats :: "policy_snapshot \<Rightarrow> uid_t \<Rightarrow> bool" where
  "policy_uid_has_stats s uid =
     (if vpnhide_uid_matches_mode (kmod_uids s) (kmod_match_mode s) uid \<or>
         vpnhide_uid_matches_mode (lsposed_uids s) (lsposed_match_mode s) uid
      then True
      else case entry target_uid (port_targets s) uid of
        Some t \<Rightarrow> target_mode t \<noteq> VH_PORT_POLICY_UNRESTRICTED
      | None \<Rightarrow> port_match_mode s = VPNHIDE_MATCH_EXCLUDE \<and>
          vpnhide_uid_matches_mode [] VPNHIDE_MATCH_EXCLUDE uid)"

definition merge_next :: "uid_t list \<Rightarrow> uid_t list \<Rightarrow> port_target_v3 list \<Rightarrow> uid_t option" where
  "merge_next ks ls ps =
     (let nk = (case ks of [] \<Rightarrow> None | k # _ \<Rightarrow> Some k);
          nl = (case ls of
              [] \<Rightarrow> nk
            | l # _ \<Rightarrow> (case nk of None \<Rightarrow> Some l | Some n \<Rightarrow> if l < n then Some l else Some n)) in
      case ps of
        [] \<Rightarrow> nl
      | p # _ \<Rightarrow> (case nl of
            None \<Rightarrow> Some (target_uid p)
          | Some n \<Rightarrow> if target_uid p < n then Some (target_uid p) else Some n))"

fun merge_uids :: "nat \<Rightarrow> uid_t list \<Rightarrow> uid_t list \<Rightarrow> port_target_v3 list \<Rightarrow> uid_t list" where
  "merge_uids 0 ks ls ps = []"
| "merge_uids (Suc room) ks ls ps =
     (let ps = dropWhile (\<lambda>p. target_mode p = VH_PORT_POLICY_UNRESTRICTED) ps in
      case merge_next ks ls ps of
        None \<Rightarrow> []
      | Some n \<Rightarrow> n # merge_uids room (dropWhile (\<lambda>k. k = n) ks) (dropWhile (\<lambda>l. l = n) ls)
          (dropWhile (\<lambda>p. target_uid p = n) ps))"

fun carry_over :: "uid_t list \<Rightarrow> uid_stats list \<Rightarrow> uid_stats list" where
  "carry_over [] stats = []"
| "carry_over (u # us) stats =
     (case dropWhile (\<lambda>s. st_uid s < u) stats of
        [] \<Rightarrow> zero_stats u # carry_over us []
      | s # rest \<Rightarrow>
          if st_uid s = u then s # carry_over us rest
          else zero_stats u # carry_over us (s # rest))"

definition stats_capacity :: "policy_snapshot \<Rightarrow> nat" where
  "stats_capacity s =
     (let requested = length (kmod_uids s) + length (lsposed_uids s) + length (port_targets s) in
      if policy_has_inverted_stats_layer s \<or> requested > VPNHIDE_UID_STATS_CAPACITY
      then VPNHIDE_UID_STATS_CAPACITY else requested)"

definition kmod_stats_reconcile :: "bool \<Rightarrow> policy_snapshot \<Rightarrow> uid_stats list \<Rightarrow>
    errno + uid_stats list \<times> nat" where
  "kmod_stats_reconcile alloc_ok s stats =
     (let capacity = stats_capacity s in
      if capacity \<noteq> 0 \<and> \<not> alloc_ok then Inl ENOMEM
      else if policy_has_inverted_stats_layer s
      then Inr (take capacity (filter (\<lambda>st. policy_uid_has_stats s (st_uid st)) stats), capacity)
      else Inr (carry_over (merge_uids capacity (kmod_uids s) (lsposed_uids s) (port_targets s)) stats,
                capacity))"

section \<open>The per-port table\<close>

datatype port_stat_state = PORT_STAT_EMPTY | PORT_STAT_USED | PORT_STAT_TOMBSTONE

record port_slot =
  ps_uid :: uid_t
  ps_port :: u16
  ps_protocol :: u8
  ps_state :: port_stat_state
  ps_count :: u64
  ps_last_seen :: u64

abbreviation (input) VPNHIDE_PORT_STATS_CAPACITY :: nat where "VPNHIDE_PORT_STATS_CAPACITY \<equiv> 65536"
abbreviation (input) VPNHIDE_PORT_STATS_MASK :: u32 where "VPNHIDE_PORT_STATS_MASK \<equiv> 65535"

type_synonym port_key = "uid_t \<times> u16 \<times> u8"

definition port_stats_hash :: "uid_t \<Rightarrow> u16 \<Rightarrow> u8 \<Rightarrow> u32" where
  "port_stats_hash uid port proto =
     (let value = uid * 0x9e3779b1;
          value = value XOR ucast port * 0x85ebca6b;
          value = value XOR ucast proto * 0xc2b2ae35 in
      value XOR drop_bit 16 value)"

definition port_cell :: "port_slot \<Rightarrow> port_key cell" where
  "port_cell e = (case ps_state e of
     PORT_STAT_EMPTY \<Rightarrow> Empty | PORT_STAT_TOMBSTONE \<Rightarrow> Tombstone
   | PORT_STAT_USED \<Rightarrow> Used (ps_uid e, ps_port e, ps_protocol e))"

definition port_home :: "port_key \<Rightarrow> nat" where
  "port_home k = (case k of (uid, port, proto) \<Rightarrow>
     unat (port_stats_hash uid port proto AND VPNHIDE_PORT_STATS_MASK))"

definition new_port_slot :: "u64 \<Rightarrow> port_key \<Rightarrow> port_slot" where
  "new_port_slot jiffies k = (case k of (uid, port, proto) \<Rightarrow>
     \<lparr>ps_uid = uid, ps_port = port, ps_protocol = proto, ps_state = PORT_STAT_USED, ps_count = 1,
      ps_last_seen = jiffies\<rparr>)"

definition port_table_record :: "u64 \<Rightarrow> port_slot list \<times> u64 \<Rightarrow> port_key \<Rightarrow> port_slot list \<times> u64" where
  "port_table_record jiffies td k = (case td of (tab, dropped) \<Rightarrow>
     (case probe_scan port_cell tab k (port_home k) VPNHIDE_PORT_STATS_CAPACITY None of
        Found i \<Rightarrow> (tab[i := (tab ! i)\<lparr>ps_count := ps_count (tab ! i) + 1, ps_last_seen := jiffies\<rparr>], dropped)
      | Free i \<Rightarrow> (tab[i := new_port_slot jiffies k], dropped)
      | Full \<Rightarrow> (tab, dropped + 1)))"

definition record_port_intercept :: "u64 \<Rightarrow> nat \<Rightarrow> uid_stats list \<Rightarrow> (port_slot list \<times> u64) option \<Rightarrow>
    uid_t \<Rightarrow> u16 \<Rightarrow> u8 \<Rightarrow> uid_stats list \<times> (port_slot list \<times> u64) option" where
  "record_port_intercept jiffies capacity stats ports uid port proto =
     (let stats' = record_kmod_intercept capacity stats uid 6 in
      case ports of
        None \<Rightarrow> (stats', None)
      | Some td \<Rightarrow>
          if port = 0 \<or> proto > VH_PROTO_UDP then (stats', Some td)
          else (stats', Some (port_table_record jiffies td (uid, port, proto))))"

text \<open>\<^verbatim>\<open>time_after(jiffies, last_seen + TTL)\<close> with \<^verbatim>\<open>TTL = 6 * 60 * 60 * HZ\<close>.\<close>

definition port_slot_expired :: "u64 \<Rightarrow> u64 \<Rightarrow> port_slot \<Rightarrow> bool" where
  "port_slot_expired hz jiffies e \<longleftrightarrow> sint (ps_last_seen e + 6 * 60 * 60 * hz - jiffies) < 0"

definition port_slot_sweep :: "u64 \<Rightarrow> u64 \<Rightarrow> port_slot \<Rightarrow> port_slot" where
  "port_slot_sweep hz jiffies e =
     (if ps_state e = PORT_STAT_USED \<and> port_slot_expired hz jiffies e
      then e\<lparr>ps_state := PORT_STAT_TOMBSTONE\<rparr> else e)"

definition count_live_port_stats :: "u64 \<Rightarrow> u64 \<Rightarrow> port_slot list \<Rightarrow> port_slot list \<times> nat" where
  "count_live_port_stats hz jiffies tab =
     (let tab' = map (port_slot_sweep hz jiffies) tab in
      (tab', length (filter (\<lambda>e. ps_state e = PORT_STAT_USED) tab')))"

section \<open>Lookup after an update or an insertion\<close>

lemma option_eqI: "(\<And>e. a = Some e \<longleftrightarrow> b = Some e) \<Longrightarrow> a = b"
  by (cases a; cases b) auto

lemma ascending_update:
  assumes "ascending key xs" "i < length xs" "key y = key (xs ! i)"
  shows "ascending key (xs[i := y])"
proof -
  have "map key (xs[i := y]) = map key xs"
    using assms(2,3) by (simp add: map_update) (metis length_map list_update_id nth_map)
  then have "ascending (\<lambda>k. k) (map key (xs[i := y])) = ascending (\<lambda>k. k) (map key xs)" by simp
  with assms(1) show ?thesis by (simp add: ascending_map)
qed

lemma set_update_ascending:
  assumes asc: "ascending key xs" and i: "i < length xs"
  shows "set (xs[i := y]) = insert y {e \<in> set xs. key e \<noteq> key (xs ! i)}"
proof -
  have "distinct xs" using ascending_distinct [OF asc] by (simp add: distinct_map)
  then have "set (xs[i := y]) = insert y (set xs - {xs ! i})" using i by (rule set_update_distinct)
  moreover have "e \<noteq> xs ! i \<longleftrightarrow> key e \<noteq> key (xs ! i)" if "e \<in> set xs" for e
    using ascending_key_inj [OF asc that nth_mem [OF i]] by auto
  ultimately show ?thesis by auto
qed

lemma entry_update:
  assumes asc: "ascending key xs" and i: "i < length xs" and y: "key y = key (xs ! i)"
  shows "entry key (xs[i := y]) v = (if v = key y then Some y else entry key xs v)"
  by (rule option_eqI)
    (auto simp: entry_Some_iff [OF ascending_update [OF assms]] entry_Some_iff [OF asc]
      set_update_ascending [OF asc i] y)

lemma ascending_insert_at:
  assumes asc: "ascending key xs" and miss: "search key xs k = Miss lo" and e: "key e = k"
  shows "ascending key (insert_at lo e xs)"
proof -
  note m = search_Miss [OF miss asc]
  have "key x < k" if "x \<in> set (take lo xs)" for x
    using that m(1,2) by (auto simp: in_set_conv_nth)
  moreover have "k < key x" if x: "x \<in> set (drop lo xs)" for x
  proof -
    from x obtain j where "j < length xs - lo" "x = drop lo xs ! j" by (auto simp: in_set_conv_nth)
    with m(1) m(3) [of "lo + j"] show ?thesis by simp
  qed
  ultimately show ?thesis
    using asc e by (fastforce simp: insert_at_def ascending_append ascending_take ascending_drop)
qed

lemma entry_insert_at:
  assumes asc: "ascending key xs" and miss: "search key xs k = Miss lo" and e: "key e = k"
  shows "entry key (insert_at lo e xs) v = (if v = k then Some e else entry key xs v)"
proof -
  have s: "set (insert_at lo e xs) = insert e (set xs)"
    using set_append [of "take lo xs" "drop lo xs"] by (auto simp: insert_at_def)
  have "k \<notin> key ` set xs"
    using miss entry_None_iff [OF asc, of k] by (simp add: entry_def)
  then show ?thesis
    by (intro option_eqI)
      (auto simp: entry_Some_iff [OF ascending_insert_at [OF assms]] entry_Some_iff [OF asc] s e)
qed

lemma length_insert_at [simp]: "length (insert_at lo e xs) = Suc (length xs)"
  by (simp add: insert_at_def)

lemma entry_search: "search key xs k = Hit i \<Longrightarrow> entry key xs k = Some (xs ! i)"
  "search key xs k = Miss lo \<Longrightarrow> entry key xs k = None"
  by (simp_all add: entry_def)

section \<open>The counters\<close>

definition stats_wf :: "nat \<Rightarrow> uid_stats list \<Rightarrow> bool" where
  "stats_wf capacity stats \<longleftrightarrow> ascending st_uid stats \<and> length stats \<le> capacity"

lemma st_uid_bump [simp]: "st_uid (bump type st) = st_uid st"
  by (simp add: bump_def)

lemma st_uid_bump_java [simp]: "st_uid (bump_java hook n st) = st_uid st"
  by (simp add: bump_java_def)

lemma st_uid_zero [simp]: "st_uid (zero_stats uid) = uid"
  by (simp add: zero_stats_def)

lemma record_kmod_intercept_spec:
  assumes wf: "stats_wf capacity stats"
  shows "stats_wf capacity (record_kmod_intercept capacity stats uid type)"
    and "entry st_uid (record_kmod_intercept capacity stats uid type) v =
      (if v = uid \<and> \<not> uid_protected uid then
         (case entry st_uid stats uid of
            Some st \<Rightarrow> Some (bump type st)
          | None \<Rightarrow> if length stats < capacity then Some (bump type (zero_stats uid)) else None)
       else entry st_uid stats v)"
proof -
  from wf have asc: "ascending st_uid stats" and len: "length stats \<le> capacity"
    by (simp_all add: stats_wf_def)
  have "stats_wf capacity (record_kmod_intercept capacity stats uid type) \<and>
    entry st_uid (record_kmod_intercept capacity stats uid type) v =
      (if v = uid \<and> \<not> uid_protected uid then
         (case entry st_uid stats uid of
            Some st \<Rightarrow> Some (bump type st)
          | None \<Rightarrow> if length stats < capacity then Some (bump type (zero_stats uid)) else None)
       else entry st_uid stats v)"
  proof (cases "search st_uid stats uid")
    case (Hit i)
    from search_Hit [OF Hit] entry_update [OF asc, of i "bump type (stats ! i)" v]
      ascending_update [OF asc, of i "bump type (stats ! i)"] Hit wf
    show ?thesis by (auto simp: record_kmod_intercept_def stats_wf_def entry_search)
  next
    case (Miss lo)
    from entry_insert_at [OF asc Miss, of "bump type (zero_stats uid)" v]
      ascending_insert_at [OF asc Miss, of "bump type (zero_stats uid)"] Miss wf
    show ?thesis by (auto simp: record_kmod_intercept_def stats_wf_def entry_search)
  qed
  then show "stats_wf capacity (record_kmod_intercept capacity stats uid type)"
    and "entry st_uid (record_kmod_intercept capacity stats uid type) v =
      (if v = uid \<and> \<not> uid_protected uid then
         (case entry st_uid stats uid of
            Some st \<Rightarrow> Some (bump type st)
          | None \<Rightarrow> if length stats < capacity then Some (bump type (zero_stats uid)) else None)
       else entry st_uid stats v)" by simp_all
qed

lemma record_java_stat_wf:
  assumes "stats_wf capacity stats"
  shows "stats_wf capacity (record_java_stat capacity stats uid hook n)"
proof (cases "search st_uid stats uid")
  case (Hit i)
  from assms search_Hit [OF Hit] ascending_update [of st_uid stats i "bump_java hook n (stats ! i)"] Hit
  show ?thesis by (simp add: record_java_stat_def stats_wf_def)
next
  case (Miss lo)
  from assms ascending_insert_at [OF _ Miss, of "bump_java hook n (zero_stats uid)"] Miss
  show ?thesis by (simp add: record_java_stat_def stats_wf_def)
qed

section \<open>Reconciliation\<close>

definition live_targets :: "port_target_v3 list \<Rightarrow> uid_t set" where
  "live_targets ps = {target_uid p | p. p \<in> set ps \<and> target_mode p \<noteq> 1}"

lemma merge_next_None: "merge_next ks ls ps = None \<longleftrightarrow> ks = [] \<and> ls = [] \<and> ps = []"
  by (auto simp: merge_next_def Let_def split: list.splits option.splits if_splits)

lemma merge_next_Some:
  assumes "merge_next ks ls ps = Some n"
  shows "(ks \<noteq> [] \<and> n = hd ks \<or> ls \<noteq> [] \<and> n = hd ls \<or> ps \<noteq> [] \<and> n = target_uid (hd ps)) \<and>
    (ks \<noteq> [] \<longrightarrow> n \<le> hd ks) \<and> (ls \<noteq> [] \<longrightarrow> n \<le> hd ls) \<and> (ps \<noteq> [] \<longrightarrow> n \<le> target_uid (hd ps))"
  using assms
  by (cases ks; cases ls; cases ps) (auto simp: merge_next_def Let_def split: if_splits)

lemma ascending_hd_le: "ascending key xs \<Longrightarrow> x \<in> set xs \<Longrightarrow> key (hd xs) \<le> key x"
  by (cases xs) (auto intro: less_imp_le)

lemma dropWhile_key_eq:
  "ascending key xs \<Longrightarrow> (xs \<noteq> [] \<longrightarrow> n \<le> key (hd xs)) \<Longrightarrow>
     set (dropWhile (\<lambda>x. key x = n) xs) = {x \<in> set xs. key x \<noteq> n}"
proof (cases xs)
  case (Cons x rest)
  assume asc: "ascending key xs" and le: "xs \<noteq> [] \<longrightarrow> n \<le> key (hd xs)"
  then have gt: "key y \<noteq> n" if "y \<in> set rest" for y using that Cons by auto
  then have "dropWhile (\<lambda>x. key x = n) rest = rest" by (cases rest) auto
  with Cons gt show ?thesis by auto
qed simp

lemma ascending_dropWhile: "ascending key xs \<Longrightarrow> ascending key (dropWhile P xs)"
  by (induction xs) auto

lemma live_dropWhile: "live_targets (dropWhile (\<lambda>p. target_mode p = 1) ps) = live_targets ps"
  by (induction ps) (auto simp: live_targets_def)

lemma merge_uids_spec:
  "ascending (\<lambda>u. u) ks \<Longrightarrow> ascending (\<lambda>u. u) ls \<Longrightarrow> ascending target_uid ps \<Longrightarrow>
   ascending (\<lambda>u. u) (merge_uids room ks ls ps) \<and> length (merge_uids room ks ls ps) \<le> room \<and>
   set (merge_uids room ks ls ps) \<subseteq> set ks \<union> set ls \<union> live_targets ps \<and>
   (card (set ks \<union> set ls \<union> live_targets ps) \<le> room \<longrightarrow>
      set (merge_uids room ks ls ps) = set ks \<union> set ls \<union> live_targets ps)"
proof (induction room arbitrary: ks ls ps)
  case 0
  have "finite (live_targets ps)"
    by (rule finite_subset [of _ "target_uid ` set ps"]) (auto simp: live_targets_def)
  then show ?case by auto
next
  case (Suc room)
  let ?ps = "dropWhile (\<lambda>p. target_mode p = 1) ps"
  have aps: "ascending target_uid ?ps" using Suc.prems(3) by (rule ascending_dropWhile)
  have live: "live_targets ?ps = live_targets ps" by (rule live_dropWhile)
  show ?case
  proof (cases "merge_next ks ls ?ps")
    case None
    then have "ks = []" "ls = []" "?ps = []" by (simp_all add: merge_next_None)
    moreover from this live have "live_targets ps = {}" by (simp add: live_targets_def)
    ultimately show ?thesis using None by (simp add: Let_def)
  next
    case (Some n)
    let ?ks = "dropWhile (\<lambda>k. k = n) ks" let ?ls = "dropWhile (\<lambda>l. l = n) ls"
    let ?qs = "dropWhile (\<lambda>p. target_uid p = n) ?ps"
    let ?U = "set ks \<union> set ls \<union> live_targets ps"
    note mn = merge_next_Some [OF Some]
    have sets: "set ?ks = set ks - {n}" "set ?ls = set ls - {n}"
      "set ?qs = {p \<in> set ?ps. target_uid p \<noteq> n}"
      using dropWhile_key_eq [OF Suc.prems(1), of n] dropWhile_key_eq [OF Suc.prems(2), of n]
        dropWhile_key_eq [OF aps, of n] mn by auto
    have "live_targets ?qs = live_targets ?ps - {n}" using sets(3) by (auto simp: live_targets_def)
    with live have U': "set ?ks \<union> set ?ls \<union> live_targets ?qs = ?U - {n}" using sets by auto
    have "target_uid (hd ?ps) \<in> live_targets ?ps" if "?ps \<noteq> []"
      using hd_dropWhile [OF that] hd_in_set [OF that] unfolding live_targets_def by blast
    with mn have "n \<in> set ks \<union> set ls \<union> live_targets ?ps" using hd_in_set by blast
    with live have nU: "n \<in> ?U" by simp
    have low: "n \<le> u" if "u \<in> ?U" for u
    proof -
      from that live consider "u \<in> set ks" | "u \<in> set ls"
        | p where "p \<in> set ?ps" "u = target_uid p"
        unfolding live_targets_def by blast
      then show ?thesis
      proof cases
        case 1
        with ascending_hd_le [OF Suc.prems(1) 1] mn show ?thesis by (cases ks) auto
      next
        case 2
        with ascending_hd_le [OF Suc.prems(2) 2] mn show ?thesis by (cases ls) auto
      next
        case 3
        with ascending_hd_le [OF aps 3(1)] mn show ?thesis by (cases ?ps) auto
      qed
    qed
    have fin: "finite ?U"
      by (rule finite_subset [of _ "set ks \<union> set ls \<union> target_uid ` set ps"]) (auto simp: live_targets_def)
    note IH = Suc.IH [OF ascending_dropWhile [OF Suc.prems(1)] ascending_dropWhile [OF Suc.prems(2)]
        ascending_dropWhile [OF aps], of "\<lambda>k. k = n" "\<lambda>l. l = n" "\<lambda>p. target_uid p = n", unfolded U']
    have crd: "card (?U - {n}) \<le> room" if "card ?U \<le> Suc room" using that nU fin by simp
    let ?r = "merge_uids room ?ks ?ls ?qs"
    have r: "merge_uids (Suc room) ks ls ps = n # ?r" by (simp add: Some Let_def)
    have "n < y" if "y \<in> set ?r" for y
    proof -
      from IH that have "y \<in> ?U" "y \<noteq> n" by blast+
      with low [of y] show ?thesis by simp
    qed
    then have "\<forall>y \<in> set ?r. n < y" by blast
    moreover have "insert n (?U - {n}) = ?U" using nU by blast
    ultimately show ?thesis
      unfolding r using IH crd nU by auto
  qed
qed

definition stats_or_zero :: "uid_stats list \<Rightarrow> uid_t \<Rightarrow> uid_stats" where
  "stats_or_zero stats u = (case entry st_uid stats u of Some st \<Rightarrow> st | None \<Rightarrow> zero_stats u)"

lemma entry_cong_ge:
  assumes "ascending st_uid stats" "ascending st_uid rest" "set rest \<subseteq> set stats"
    and "\<And>st. st \<in> set stats \<Longrightarrow> st_uid st = v \<Longrightarrow> st \<in> set rest"
  shows "entry st_uid rest v = entry st_uid stats v"
  using assms by (intro option_eqI) (auto simp: entry_Some_iff)

lemma carry_over_map:
  "ascending (\<lambda>u. u) us \<Longrightarrow> ascending st_uid stats \<Longrightarrow>
     carry_over us stats = map (stats_or_zero stats) us"
proof (induction us arbitrary: stats)
  case (Cons u us)
  let ?rest = "dropWhile (\<lambda>s. st_uid s < u) stats"
  have asc: "ascending st_uid ?rest" using Cons.prems(2) by (rule ascending_dropWhile)
  have keep: "entry st_uid ?rest v = entry st_uid stats v" if "u \<le> v" for v
  proof (rule entry_cong_ge [OF Cons.prems(2) asc])
    show "set ?rest \<subseteq> set stats" by (auto dest: set_dropWhileD)
    fix st assume "st \<in> set stats" "st_uid st = v"
    with that have "\<not> st_uid st < u" by simp
    with \<open>st \<in> set stats\<close> show "st \<in> set ?rest"
      by (metis (no_types, lifting) UnE set_append set_takeWhileD takeWhile_dropWhile_id)
  qed
  have later: "map (stats_or_zero ?rest) us = map (stats_or_zero stats) us"
    using Cons.prems(1) keep by (auto simp: stats_or_zero_def less_imp_le)
  note IH = Cons.IH
  show ?case
  proof (cases ?rest)
    case Nil
    from keep [of u] have "entry st_uid stats u = None" unfolding Nil by simp
    with Nil later Cons.IH [of "[]"] Cons.prems(1) show ?thesis
      by (simp add: stats_or_zero_def del: dropWhile_eq_Nil_conv)
  next
    case (Cons s rest)
    have ge: "u \<le> st_uid s" using hd_dropWhile [of "\<lambda>s. st_uid s < u" stats] Cons by simp
    show ?thesis
    proof (cases "st_uid s = u")
      case True
      then have here: "entry st_uid stats u = Some s"
        using keep [of u] asc Cons entry_Some_iff [OF asc, of u s] by simp
      have "entry st_uid rest v = entry st_uid ?rest v" if "u < v" for v
        using asc Cons that True by (intro entry_cong_ge) auto
      then have "map (stats_or_zero rest) us = map (stats_or_zero stats) us"
        using \<open>ascending (\<lambda>u. u) (u # us)\<close> later by (auto simp: stats_or_zero_def)
      with here True Cons IH [of rest] asc \<open>ascending (\<lambda>u. u) (u # us)\<close> show ?thesis
        by (simp add: stats_or_zero_def)
    next
      case False
      with ge have "u < st_uid s" by simp
      moreover have "\<forall>x \<in> set rest. st_uid s < st_uid x" using asc unfolding Cons by simp
      ultimately have "u \<notin> st_uid ` set ?rest" unfolding Cons by force
      then have "entry st_uid stats u = None"
        using keep [of u] entry_None_iff [OF asc, of u] by simp
      with False Cons IH [of "s # rest"] asc later \<open>ascending (\<lambda>u. u) (u # us)\<close> show ?thesis
        by (simp add: stats_or_zero_def)
    qed
  qed
qed simp

lemma entry_map_stats:
  assumes "ascending (\<lambda>u. u) us" and "ascending st_uid stats"
  shows "ascending st_uid (map (stats_or_zero stats) us)"
    and "entry st_uid (map (stats_or_zero stats) us) v =
      (if v \<in> set us then Some (stats_or_zero stats v) else None)"
proof -
  have uid: "st_uid (stats_or_zero stats u) = u" for u
    using entry_Some_iff [OF assms(2), of u] by (auto simp: stats_or_zero_def split: option.split)
  show asc: "ascending st_uid (map (stats_or_zero stats) us)"
    using assms(1) by (simp add: ascending_map uid)
  show "entry st_uid (map (stats_or_zero stats) us) v =
      (if v \<in> set us then Some (stats_or_zero stats v) else None)"
    by (rule option_eqI) (auto simp: entry_Some_iff [OF asc] uid)
qed

lemma card_union3:
  "card (set ks \<union> set ls \<union> live_targets ps) \<le> length ks + length ls + length ps"
proof -
  have "live_targets ps \<subseteq> target_uid ` set ps" by (auto simp: live_targets_def)
  then have "card (live_targets ps) \<le> length ps"
    by (metis card_image_le card_length card_mono finite_imageI finite_set le_trans)
  then show ?thesis
    using card_Un_le [of "set ks \<union> set ls" "live_targets ps"] card_Un_le [of "set ks" "set ls"]
      card_length [of ks] card_length [of ls] by linarith
qed

lemma reconcile_wf:
  assumes "snapshot_wf s" "ascending st_uid stats"
    and "kmod_stats_reconcile alloc_ok s stats = Inr (stats', capacity)"
  shows "stats_wf capacity stats'"
proof (cases "policy_has_inverted_stats_layer s")
  case True
  with assms(2,3) show ?thesis
    by (auto simp: kmod_stats_reconcile_def Let_def stats_wf_def ascending_filter ascending_take split: if_splits)
next
  case False
  let ?us = "merge_uids (stats_capacity s) (kmod_uids s) (lsposed_uids s) (port_targets s)"
  note m = merge_uids_spec [OF snapshot_wfD(1-3) [OF assms(1)], of "stats_capacity s"]
  from False assms(3) have "stats' = carry_over ?us stats" "capacity = stats_capacity s"
    by (auto simp: kmod_stats_reconcile_def Let_def split: if_splits)
  with m carry_over_map [OF _ assms(2), of ?us] entry_map_stats(1) [OF _ assms(2), of ?us] show ?thesis
    by (simp add: stats_wf_def)
qed

section \<open>The per-port table\<close>

interpretation port_stats: probe_table port_cell port_home "\<lambda>_ k. new_port_slot jiffies k" "\<lambda>_. True"
  for jiffies
  by unfold_locales (auto simp: port_cell_def new_port_slot_def)

definition port_table_wf :: "port_slot list \<Rightarrow> bool" where
  "port_table_wf tab \<longleftrightarrow> length tab = VPNHIDE_PORT_STATS_CAPACITY \<and> probe_inv port_cell port_home tab"

definition port_counter :: "port_slot list \<Rightarrow> port_key \<Rightarrow> u64 option" where
  "port_counter tab k =
     (case probe_scan port_cell tab k (port_home k) VPNHIDE_PORT_STATS_CAPACITY None of
        Found i \<Rightarrow> Some (ps_count (tab ! i)) | _ \<Rightarrow> None)"

lemma port_home_less: "port_home k < 65536"
proof -
  have "unat (w AND 65535 :: u32) < 65536" for w using unat_and_mask [of 16 w] by simp
  then show ?thesis by (cases k) (simp add: port_home_def)
qed

lemma port_counter_iff:
  assumes "port_table_wf tab"
  shows "port_counter tab k = Some c \<longleftrightarrow>
    (\<exists>i < length tab. port_cell (tab ! i) = Used k \<and> ps_count (tab ! i) = c)"
proof -
  from assms have len: "length tab = 65536" and inv: "probe_inv port_cell port_home tab"
    by (simp_all add: port_table_wf_def)
  then have ne: "tab \<noteq> []" by auto
  let ?scan = "probe_scan port_cell tab k (port_home k mod length tab) (length tab) None"
  have scan: "probe_scan port_cell tab k (port_home k) 65536 None = ?scan"
    using port_home_less [of k] len by simp
  show ?thesis
  proof (cases ?scan)
    case (Found i)
    note f = port_stats.scan_FoundD [OF ne Found]
    have cnt: "port_counter tab k = Some (ps_count (tab ! i))"
      unfolding port_counter_def scan Found by simp
    show ?thesis
    proof
      assume "port_counter tab k = Some c"
      with cnt f show "\<exists>i < length tab. port_cell (tab ! i) = Used k \<and> ps_count (tab ! i) = c" by auto
    next
      assume "\<exists>j < length tab. port_cell (tab ! j) = Used k \<and> ps_count (tab ! j) = c"
      then obtain j where j: "j < length tab" "port_cell (tab ! j) = Used k" "ps_count (tab ! j) = c" by blast
      from port_stats.key_unique [OF inv j(1,2) f] j(3) cnt show "port_counter tab k = Some c" by simp
    qed
  qed (use scan port_stats.scan_Found_iff [OF inv ne, of k] in
      \<open>auto simp: port_counter_def cell_keys_nth\<close>)
qed

lemma port_counter_update:
  assumes wf: "port_table_wf tab" and wf': "port_table_wf (tab[i := x])" and i: "i < length tab"
    and x: "port_cell x = Used k" and old: "\<And>k'. port_cell (tab ! i) = Used k' \<Longrightarrow> k' = k"
  shows "port_counter (tab[i := x]) k' = (if k' = k then Some (ps_count x) else port_counter tab k')"
proof (cases "k' = k")
  case True
  have "port_counter (tab[i := x]) k = Some (ps_count x)"
    unfolding port_counter_iff [OF wf'] using i x by (intro exI [of _ i]) simp
  with True show ?thesis by simp
next
  case False
  have "(\<exists>j < length tab. port_cell (tab[i := x] ! j) = Used k' \<and> ps_count (tab[i := x] ! j) = c) \<longleftrightarrow>
      (\<exists>j < length tab. port_cell (tab ! j) = Used k' \<and> ps_count (tab ! j) = c)" for c
    using False x old by (metis cell.inject nth_list_update_neq nth_update)
  with False show ?thesis
    by (intro option_eqI) (simp add: port_counter_iff [OF wf] port_counter_iff [OF wf'])
qed

lemma port_table_record_spec:
  assumes wf: "port_table_wf tab" and res: "port_table_record jiffies (tab, dropped) k = (tab', dropped')"
  shows "port_table_wf tab' \<and>
    (if port_counter tab k = None \<and> (\<forall>e \<in> set tab. ps_state e = PORT_STAT_USED)
     then tab' = tab \<and> dropped' = dropped + 1
     else dropped' = dropped \<and> (\<forall>k'. port_counter tab' k' =
       (if k' = k then Some (case port_counter tab k of Some c \<Rightarrow> c + 1 | None \<Rightarrow> 1)
        else port_counter tab k')))"
proof -
  from wf have len: "length tab = 65536" and inv: "probe_inv port_cell port_home tab"
    by (simp_all add: port_table_wf_def)
  then have ne: "tab \<noteq> []" by auto
  let ?scan = "probe_scan port_cell tab k (port_home k mod length tab) (length tab) None"
  have scan: "probe_scan port_cell tab k (port_home k) 65536 None = ?scan"
    using port_home_less [of k] len by simp
  show ?thesis
  proof (cases ?scan)
    case (Found i)
    let ?x = "(tab ! i)\<lparr>ps_count := ps_count (tab ! i) + 1, ps_last_seen := jiffies\<rparr>"
    note f = port_stats.scan_FoundD [OF ne Found]
    have same: "port_cell ?x = port_cell (tab ! i)"
      by (simp add: port_cell_def split: port_stat_state.split)
    have wf': "port_table_wf (tab[i := ?x])"
      using port_stats.inv_same_cell(1) [OF f(1) same] inv len by (simp add: port_table_wf_def)
    have "port_counter tab k = Some (ps_count (tab ! i))"
      unfolding port_counter_iff [OF wf] using f by blast
    moreover have upd: "port_counter (tab[i := ?x]) k' =
        (if k' = k then Some (ps_count ?x) else port_counter tab k')" for k'
      by (rule port_counter_update [OF wf wf' f(1)]) (use same f(2) in simp_all)
    moreover have "tab' = tab[i := ?x]" "dropped' = dropped"
      using res unfolding port_table_record_def scan Found prod.case by simp_all
    ultimately show ?thesis using wf' by simp
  next
    case (Free i)
    note f = port_stats.scan_FreeD [OF ne Free]
    have wf': "port_table_wf (tab[i := new_port_slot jiffies k])"
      using port_stats.inv_fill(1) [OF inv ne Free] len by (simp add: port_table_wf_def)
    have none: "port_counter tab k = None" unfolding port_counter_def scan Free by simp
    have "ps_state (tab ! i) \<noteq> PORT_STAT_USED" using f(2) by (auto simp: port_cell_def)
    then have "\<not> (\<forall>e \<in> set tab. ps_state e = PORT_STAT_USED)" using f(1) nth_mem by blast
    moreover have new: "port_cell (new_port_slot jiffies k) = Used k" "ps_count (new_port_slot jiffies k) = 1"
      by (auto simp: port_cell_def new_port_slot_def split: prod.split)
    have upd: "port_counter (tab[i := new_port_slot jiffies k]) k' =
        (if k' = k then Some 1 else port_counter tab k')" for k'
      using port_counter_update [OF wf wf' f(1) new(1), of k'] f(2) new(2) by auto
    moreover have "tab' = tab[i := new_port_slot jiffies k]" "dropped' = dropped"
      using res unfolding port_table_record_def scan Free prod.case by simp_all
    ultimately show ?thesis using wf' none by simp
  next
    case Full
    have "ps_state e = PORT_STAT_USED" if "e \<in> set tab" for e
      using port_stats.scan_FullD [OF ne Full that]
      by (auto simp: port_cell_def split: port_stat_state.splits)
    moreover have "port_counter tab k = None" unfolding port_counter_def scan Full by simp
    moreover have "tab' = tab" "dropped' = dropped + 1"
      using res unfolding port_table_record_def scan Full prod.case by simp_all
    ultimately show ?thesis using wf by simp
  qed
qed

lemma sweep_cell: "port_cell (port_slot_sweep hz jiffies e) =
    (if ps_state e = PORT_STAT_USED \<and> port_slot_expired hz jiffies e then Tombstone else port_cell e)"
  by (simp add: port_slot_sweep_def port_cell_def)

lemma sweep_wf:
  assumes "port_table_wf tab"
  shows "port_table_wf (map (port_slot_sweep hz jiffies) tab)"
proof -
  let ?f = "port_slot_sweep hz jiffies"
  have inv: "probe_inv port_cell port_home tab" and len: "length tab = 65536"
    using assms by (simp_all add: port_table_wf_def)
  have "probe_inv port_cell port_home (map ?f tab)"
    unfolding probe_inv_def
  proof (intro allI impI)
    fix p assume p: "p < length (map ?f tab)"
    show "case port_cell (map ?f tab ! p) of
        Used k \<Rightarrow> \<exists>d < length (map ?f tab). p = (port_home k + d) mod length (map ?f tab) \<and>
          passable port_cell (map ?f tab) k (port_home k) d
      | _ \<Rightarrow> True"
    proof (cases "port_cell (map ?f tab ! p)")
      case (Used k)
      with p have "port_cell (tab ! p) = Used k" by (auto simp: sweep_cell split: if_splits)
      from port_stats.inv_UsedD [OF inv _ this] p obtain d where
        d: "d < length tab" "p = (port_home k + d) mod length tab" "passable port_cell tab k (port_home k) d"
        by auto
      then have "passable port_cell (map ?f tab) k (port_home k) d"
        using len by (simp add: passable_def sweep_cell)
      with Used d show ?thesis by auto
    qed simp_all
  qed
  with len show ?thesis by (simp add: port_table_wf_def)
qed

section \<open>Properties\<close>

text \<open>
  Recording an intercept keeps the counter array sorted and within its capacity and touches one
  UID only: an eligible UID that has an entry gets exactly that counter incremented; one that has
  none gets a fresh entry with count one if there is room; protected UIDs and all other entries are
  unchanged.
\<close>

theorem record_intercept_counts:
  assumes "stats_wf capacity stats"
  shows "stats_wf capacity (record_kmod_intercept capacity stats uid type) \<and>
    entry st_uid (record_kmod_intercept capacity stats uid type) v =
      (if v = uid \<and> \<not> uid_protected uid then
         (case entry st_uid stats uid of
            Some st \<Rightarrow> Some (bump type st)
          | None \<Rightarrow> if length stats < capacity then Some (bump type (zero_stats uid)) else None)
       else entry st_uid stats v)"
  using record_kmod_intercept_spec [OF assms] by blast

theorem record_intercept_counts_witness:
  "entry st_uid (record_kmod_intercept 4 [zero_stats 10001] 10001 6) 10001 =
     Some ((zero_stats 10001)\<lparr>port_count := 1\<rparr>) \<and>
   entry st_uid (record_kmod_intercept 4 [zero_stats 10001] 10002 0) 10001 = Some (zero_stats 10001)"
proof -
  have wf: "stats_wf 4 [zero_stats 10001]" by (simp add: stats_wf_def)
  have e: "entry st_uid [zero_stats 10001] 10001 = Some (zero_stats 10001)"
    using entry_Some_iff [of st_uid "[zero_stats 10001]" 10001] by simp
  show ?thesis
    using record_intercept_counts [OF wf, of 10001 6 10001] record_intercept_counts [OF wf, of 10002 0 10001] e
    by (simp add: uid_protected_def bump_def zero_stats_def)
qed

text \<open>
  C6: Publishing an include-mode policy rebuilds the counter array by a three-way merge: the new
  array is sorted, holds exactly the UIDs of the kernel list, the framework list and the restricted
  port targets (when they fit the array, at most 4096), keeps the counters of every UID that
  already had an entry and starts the others at zero.
\<close>

theorem reconcile_include:
  assumes "snapshot_wf s" and "ascending st_uid stats"
    and "kmod_stats_reconcile alloc_ok s stats = Inr (stats', capacity)"
    and "\<not> policy_has_inverted_stats_layer s"
    and "length (kmod_uids s) + length (lsposed_uids s) + length (port_targets s) \<le> 4096"
  shows "stats_wf capacity stats' \<and>
    entry st_uid stats' uid =
      (if uid \<in> set (kmod_uids s) \<union> set (lsposed_uids s) \<union> live_targets (port_targets s)
       then Some (case entry st_uid stats uid of Some st \<Rightarrow> st | None \<Rightarrow> zero_stats uid) else None)"
proof -
  let ?us = "merge_uids (stats_capacity s) (kmod_uids s) (lsposed_uids s) (port_targets s)"
  note m = merge_uids_spec [OF snapshot_wfD(1-3) [OF assms(1)], of "stats_capacity s"]
  have "set ?us = set (kmod_uids s) \<union> set (lsposed_uids s) \<union> live_targets (port_targets s)"
    using m card_union3 [of "kmod_uids s" "lsposed_uids s" "port_targets s"] assms(4,5)
    by (simp add: stats_capacity_def)
  moreover have "stats' = map (stats_or_zero stats) ?us"
    using assms(3,4) carry_over_map [OF _ assms(2), of ?us] m
    by (auto simp: kmod_stats_reconcile_def Let_def split: if_splits)
  ultimately show ?thesis
    using reconcile_wf [OF assms(1-3)] entry_map_stats(2) [OF _ assms(2), of ?us uid] m
    by (simp add: stats_or_zero_def)
qed

definition sample_include :: policy_snapshot where
  "sample_include = sample_policy\<lparr>kmod_match_mode := 0, lsposed_match_mode := 0, port_match_mode := 0\<rparr>"

lemma sample_include_wf: "snapshot_wf sample_include"
  using sample_policy_wf by (simp add: snapshot_wf_def sample_include_def)

theorem reconcile_include_witness:
  "\<exists>stats' capacity. kmod_stats_reconcile True sample_include [(zero_stats 10001)\<lparr>port_count := 7\<rparr>] =
      Inr (stats', capacity) \<and>
     entry st_uid stats' 10001 = Some ((zero_stats 10001)\<lparr>port_count := 7\<rparr>) \<and>
     entry st_uid stats' 10050 = Some (zero_stats 10050)"
proof -
  let ?stats = "[(zero_stats 10001)\<lparr>port_count := 7\<rparr>]"
  have inc: "\<not> policy_has_inverted_stats_layer sample_include"
    by (simp add: policy_has_inverted_stats_layer_def sample_include_def)
  then have "\<exists>r. kmod_stats_reconcile True sample_include ?stats = Inr r"
    by (simp add: kmod_stats_reconcile_def Let_def)
  then obtain stats' capacity where
    r: "kmod_stats_reconcile True sample_include ?stats = Inr (stats', capacity)" by auto
  have asc: "ascending st_uid ?stats" by simp
  have e: "entry st_uid ?stats 10001 = Some ((zero_stats 10001)\<lparr>port_count := 7\<rparr>)"
    "entry st_uid ?stats 10050 = None"
    using entry_Some_iff [OF asc, of 10001] entry_None_iff [OF asc, of 10050] by simp_all
  have len: "length (kmod_uids sample_include) + length (lsposed_uids sample_include) +
      length (port_targets sample_include) \<le> 4096"
    by (simp add: sample_include_def sample_policy_def)
  show ?thesis
    using reconcile_include [OF sample_include_wf asc r inc len, of 10001]
      reconcile_include [OF sample_include_wf asc r inc len, of 10050] r e
    by (auto simp: sample_include_def sample_policy_def sample_target_def live_targets_def)
qed

text \<open>
  C7: The per-port table behaves as a finite map from UID, port and protocol to a count: recording
  an access increments the entry of its key or creates it with count one, in the first tombstone
  of the probe path if there is one, and changes no other entry; only when every slot is in use and
  the key has none is the access dropped, and then it is counted as dropped.
\<close>

theorem port_table_counts:
  assumes "port_table_wf tab" and "port_table_record jiffies (tab, dropped) k = (tab', dropped')"
  shows "port_table_wf tab' \<and>
    (if port_counter tab k = None \<and> (\<forall>e \<in> set tab. ps_state e = PORT_STAT_USED)
     then tab' = tab \<and> dropped' = dropped + 1
     else dropped' = dropped \<and> (\<forall>k'. port_counter tab' k' =
       (if k' = k then Some (case port_counter tab k of Some c \<Rightarrow> c + 1 | None \<Rightarrow> 1)
        else port_counter tab k')))"
  using port_table_record_spec [OF assms] .

definition empty_port_table :: "port_slot list" where
  "empty_port_table = replicate 65536 \<lparr>ps_uid = 0, ps_port = 0, ps_protocol = 0,
     ps_state = PORT_STAT_EMPTY, ps_count = 0, ps_last_seen = 0\<rparr>"

lemma empty_port_table_wf: "port_table_wf empty_port_table"
  by (simp add: port_table_wf_def empty_port_table_def probe_inv_def port_cell_def)

lemma empty_port_counter: "port_counter empty_port_table k = None"
proof (rule ccontr)
  assume "port_counter empty_port_table k \<noteq> None"
  then show False
    using port_counter_iff [OF empty_port_table_wf, of k]
    by (auto simp: empty_port_table_def port_cell_def)
qed

theorem port_table_counts_witness:
  "\<exists>tab. port_table_record 5 (empty_port_table, 0) (10001, 80, 0) = (tab, 0) \<and>
     port_counter tab (10001, 80, 0) = Some 1"
proof -
  obtain tab d where r: "port_table_record 5 (empty_port_table, 0) (10001, 80, 0) = (tab, d)" by fastforce
  have "\<not> (\<forall>e \<in> set empty_port_table. ps_state e = PORT_STAT_USED)"
    by (simp add: empty_port_table_def)
  with port_table_counts [OF empty_port_table_wf r] r show ?thesis
    by (auto simp: empty_port_counter)
qed

end
