(* ===== verification/Seq_Hooks.thy ===== *)
theory Seq_Hooks
  imports Hook_Env Kernel_Stats
begin

text \<open>
  The hooks on the text files under /proc/net of kmod/hooks_netlink.c: routes, IPv6 routes, devices,
  IPv6 addresses and the routing trie. Each return handler compacts, in place, the text its call
  appended to the \<^verbatim>\<open>seq_file\<close>: lines that name an active VPN interface are dropped. A \<^verbatim>\<open>seq_file\<close> is its
  buffer and the number of bytes used. Statistics are the counter array with its capacity. The
  handler of the trie has an inner loop without a bound, so its result is optional: None is a call
  that does not return.
\<close>

section \<open>Buffers and lines\<close>

record seq_file =
  seq_buf :: string
  seq_count :: nat

type_synonym kstats = "nat \<times> uid_stats list"

definition intercept :: "uid_t \<Rightarrow> int \<Rightarrow> kstats \<Rightarrow> kstats" where
  "intercept uid type st = (fst st, record_kmod_intercept (fst st) (snd st) uid type)"

abbreviation (input) newline :: char where "newline \<equiv> CHR 0x0A"
abbreviation (input) tab :: char where "tab \<equiv> CHR 0x09"
abbreviation (input) blank :: char where "blank \<equiv> CHR '' ''"
abbreviation (input) carriage :: char where "carriage \<equiv> CHR 0x0D"

definition memmove :: "'a list \<Rightarrow> nat \<Rightarrow> nat \<Rightarrow> nat \<Rightarrow> 'a list" where
  "memmove buf dst src n = take dst buf @ take n (drop src buf) @ drop (dst + n) buf"

text \<open>
  The line at the start of \<open>s\<close>, of which \<open>n\<close> characters remain: up to and including the first newline
  among them, or all of them without one.
\<close>

definition line_length :: "nat \<Rightarrow> string \<Rightarrow> nat" where
  "line_length n s =
     (let l = length (takeWhile (\<lambda>c. c \<noteq> newline) (take n s)) in
      if l < length (take n s) then l + 1 else n)"

lemma line_length_pos: "0 < n \<Longrightarrow> 0 < line_length n s"
  by (simp add: line_length_def Let_def)





text \<open>The entry handlers: skip the call, or remember the sequence file's count.\<close>

definition seq_entry :: "hook_env \<Rightarrow> vpnhide_hook_idx \<Rightarrow> uid_t \<Rightarrow> seq_file option \<Rightarrow> nat option" where
  "seq_entry env h uid seq_opt =
     (if \<not> hook_on env h uid then None
      else if \<not> is_target env uid then None
      else Some (case seq_opt of None \<Rightarrow> 0 | Some seq \<Rightarrow> seq_count seq))"

section \<open>The interface name of a line\<close>

definition fib_route_ifname :: "string \<Rightarrow> string" where
  "fib_route_ifname line = takeWhile (\<lambda>c. c \<noteq> tab \<and> c \<noteq> newline) (take 15 line)"

text \<open>
  From the end of the line: trailing white space is skipped, then at most 15 characters back to the
  preceding blank, from where the name is read forwards again.
\<close>

definition last_word_start :: "string \<Rightarrow> nat" where
  "last_word_start line =
     (let body = rev (dropWhile (\<lambda>c. c = newline \<or> c = carriage \<or> c = blank \<or> c = tab) (rev line));
          word = take 15 (takeWhile (\<lambda>c. c \<noteq> blank \<and> c \<noteq> tab) (rev body)) in
      length body - length word)"

definition last_word_ifname :: "string \<Rightarrow> string" where
  "last_word_ifname line =
     takeWhile (\<lambda>c. c \<noteq> blank \<and> c \<noteq> tab \<and> c \<noteq> newline) (take 15 (drop (last_word_start line) line))"

definition dev_seq_ifname :: "string \<Rightarrow> string" where
  "dev_seq_ifname line =
     take 15 (takeWhile (\<lambda>c. c \<noteq> CHR '':'' \<and> c \<noteq> blank \<and> c \<noteq> tab \<and> c \<noteq> newline)
       (dropWhile (\<lambda>c. c = blank \<or> c = tab) line))"

section \<open>The handlers\<close>

definition fib_route_entry :: "hook_env \<Rightarrow> uid_t \<Rightarrow> seq_file option \<Rightarrow> nat option" where
  "fib_route_entry env uid seq = seq_entry env HOOK_FIB_ROUTE uid seq"


definition ipv6_route_entry :: "hook_env \<Rightarrow> uid_t \<Rightarrow> seq_file option \<Rightarrow> nat option" where
  "ipv6_route_entry env uid seq = seq_entry env HOOK_IPV6_ROUTE uid seq"


definition dev_seq_entry :: "hook_env \<Rightarrow> uid_t \<Rightarrow> seq_file option \<Rightarrow> nat option" where
  "dev_seq_entry env uid seq = seq_entry env HOOK_DEV_SEQ uid seq"


definition if6_seq_entry :: "hook_env \<Rightarrow> uid_t \<Rightarrow> seq_file option \<Rightarrow> nat option" where
  "if6_seq_entry env uid seq = seq_entry env HOOK_IF6_SEQ uid seq"


section \<open>The routing trie\<close>

definition trie_sep :: "char \<Rightarrow> bool" where
  "trie_sep c \<longleftrightarrow> c = blank \<or> c = tab \<or> c = CHR ''|'' \<or> c = CHR ''+'' \<or> c = CHR ''-''"

definition trie_word_char :: "char \<Rightarrow> bool" where
  "trie_word_char c \<longleftrightarrow> c \<noteq> blank \<and> c \<noteq> tab \<and> c \<noteq> newline \<and> c \<noteq> CHR ''/'' \<and> c \<noteq> CHR ''|''"

definition trie_word :: "string \<Rightarrow> string" where
  "trie_word rest = takeWhile trie_word_char (take 15 (dropWhile trie_sep rest))"

definition trie_next :: "string \<Rightarrow> string" where
  "trie_next rest = drop (length (trie_word rest)) (dropWhile trie_sep rest)"

text \<open>The inner loop, on what is left of the line: does a word of it name a VPN interface?\<close>

partial_function (option) trie_line_has_vpn :: "(string \<Rightarrow> bool) \<Rightarrow> string \<Rightarrow> bool option" where
  "trie_line_has_vpn is_vpn rest =
     (if rest = [] then Some False
      else if trie_word rest \<noteq> [] \<and> is_vpn (trie_word rest) then Some True
      else trie_line_has_vpn is_vpn (trie_next rest))"

function fib_trie_loop :: "(string \<Rightarrow> bool) \<Rightarrow> uid_t \<Rightarrow> string \<Rightarrow> nat \<Rightarrow> nat \<Rightarrow> nat \<Rightarrow> kstats \<Rightarrow>
    (string \<times> nat \<times> kstats) option" where
  "fib_trie_loop is_vpn uid buf src dst end_pos st =
     (if src < end_pos then
        let line_len = line_length (end_pos - src) (drop src buf);
            line = take line_len (drop src buf) in
        case trie_line_has_vpn is_vpn line of
          None \<Rightarrow> None
        | Some has_vpn \<Rightarrow>
            if has_vpn
            then fib_trie_loop is_vpn uid buf (src + line_len) dst end_pos (intercept uid 2 st)
            else fib_trie_loop is_vpn uid (if dst \<noteq> src then memmove buf dst src line_len else buf)
                   (src + line_len) (dst + line_len) end_pos st
      else Some (buf, dst, st))"
  by pat_completeness auto
termination
proof (relation "measure (\<lambda>(is_vpn, uid, buf, src, dst, end_pos, st). end_pos - src)", goal_cases)
  case (2 is_vpn uid buf src dst end_pos st n line h)
  then show ?case using line_length_pos [of "end_pos - src" "drop src buf"] by auto
next
  case (3 is_vpn uid buf src dst end_pos st n line h)
  then show ?case using line_length_pos [of "end_pos - src" "drop src buf"] by auto
qed simp

declare fib_trie_loop.simps [simp del]

definition fib_trie_entry :: "hook_env \<Rightarrow> uid_t \<Rightarrow> seq_file option \<Rightarrow> nat option" where
  "fib_trie_entry env uid seq = seq_entry env HOOK_FIB_TRIE uid seq"

definition fib_trie_ret :: "hook_env \<Rightarrow> uid_t \<Rightarrow> seq_file option \<Rightarrow> nat \<Rightarrow> kstats \<Rightarrow>
    (seq_file option \<times> kstats) option" where
  "fib_trie_ret env uid seq_opt start_count st =
     (case seq_opt of
        None \<Rightarrow> Some (None, st)
      | Some seq \<Rightarrow>
          if seq_count seq \<le> start_count then Some (Some seq, st)
          else map_option (\<lambda>(buf, dst, st'). (Some \<lparr>seq_buf = buf, seq_count = dst\<rparr>, st'))
            (fib_trie_loop (vpn_ifname env) uid (seq_buf seq) start_count start_count (seq_count seq) st))"

section \<open>Lines\<close>

function lines_of :: "string \<Rightarrow> string list" where
  "lines_of s = (if s = [] then []
     else take (line_length (length s) s) s # lines_of (drop (line_length (length s) s) s))"
  by pat_completeness auto
termination
proof (relation "measure length", goal_cases)
  case (2 s)
  then show ?case using line_length_pos [of "length s" s] by auto
qed simp

declare lines_of.simps [simp del]

lemma lines_of_Nil [simp]: "lines_of [] = []"
  by (simp add: lines_of.simps)


lemma concat_lines_of: "concat (lines_of s) = s"
proof (induction s rule: lines_of.induct)
  case (1 s)
  then show ?case by (cases "s = []") (simp_all add: lines_of.simps [of s])
qed






section \<open>Names\<close>

lemma fib_route_ifname_field:
  assumes "tab \<notin> set name" "newline \<notin> set name" "length name \<le> 15"
  shows "fib_route_ifname (name @ tab # rest) = name"
proof (cases "length name = 15")
  case True
  with assms show ?thesis by (auto simp: fib_route_ifname_def takeWhile_eq_all_conv)
next
  case False
  with assms obtain r where "take 15 (name @ tab # rest) = name @ tab # r"
    by (cases "15 - length name") auto
  then have "fib_route_ifname (name @ tab # rest) = takeWhile (\<lambda>c. c \<noteq> tab \<and> c \<noteq> newline) (name @ tab # r)"
    by (simp only: fib_route_ifname_def)
  also have "\<dots> = name" using assms by (subst takeWhile_append2) auto
  finally show ?thesis .
qed

lemma dev_seq_ifname_field:
  assumes "list_all (\<lambda>c. c = blank \<or> c = tab) pad" "name \<noteq> []" "length name \<le> 15"
    and "list_all (\<lambda>c. c \<noteq> CHR '':'' \<and> c \<noteq> blank \<and> c \<noteq> tab \<and> c \<noteq> newline) name"
  shows "dev_seq_ifname (pad @ name @ CHR '':'' # rest) = name"
proof -
  have "dropWhile (\<lambda>c. c = blank \<or> c = tab) (pad @ name @ CHR '':'' # rest) = name @ CHR '':'' # rest"
    using assms by (cases name) (auto simp: list_all_iff)
  moreover have "takeWhile (\<lambda>c. c \<noteq> CHR '':'' \<and> c \<noteq> blank \<and> c \<noteq> tab \<and> c \<noteq> newline) (name @ CHR '':'' # rest) = name"
    using assms by (subst takeWhile_append2) (auto simp: list_all_iff)
  ultimately show ?thesis using assms by (simp add: dev_seq_ifname_def)
qed

lemma last_word_ifname_field:
  assumes "list_all (\<lambda>c. c \<noteq> blank \<and> c \<noteq> tab \<and> c \<noteq> newline \<and> c \<noteq> carriage) name" "name \<noteq> []" "length name \<le> 15"
  shows "last_word_ifname (rest @ blank # name @ [newline]) = name"
proof -
  let ?line = "rest @ blank # name @ [newline]"
  have body: "rev (dropWhile (\<lambda>c. c = newline \<or> c = carriage \<or> c = blank \<or> c = tab) (rev ?line)) = rest @ blank # name"
    using assms by (cases name rule: rev_cases) (auto simp: list_all_iff)
  have word: "takeWhile (\<lambda>c. c \<noteq> blank \<and> c \<noteq> tab) (rev (rest @ blank # name)) = rev name"
    using assms by (subst rev_append, simp, subst takeWhile_append2) (auto simp: list_all_iff)
  have start: "last_word_start ?line = length rest + 1"
    using assms(3) by (simp add: last_word_start_def Let_def body word del: rev_append)
  have "take 15 (name @ [newline]) = name @ take (15 - length name) [newline]" using assms(3) by simp
  then have "takeWhile (\<lambda>c. c \<noteq> blank \<and> c \<noteq> tab \<and> c \<noteq> newline) (take 15 (name @ [newline])) = name"
    using assms by (simp only:, subst takeWhile_append2) (auto simp: list_all_iff take_Cons')
  with start show ?thesis by (simp add: last_word_ifname_def)
qed

section \<open>The inner loop of the trie\<close>

lemma trie_word_Nil_newline: "newline \<notin> set (trie_word rest)"
  by (auto simp: trie_word_def trie_word_char_def dest: set_takeWhileD)

lemma trie_next_suffix: "\<exists>pre. rest = pre @ trie_next rest \<and> newline \<notin> set pre"
proof -
  let ?d = "dropWhile trie_sep rest"
  have w: "trie_word rest = take (length (trie_word rest)) ?d"
    unfolding trie_word_def by (metis takeWhile_eq_take take_take min.cobounded2 length_takeWhile_le length_take
        min_def order_trans)
  have "rest = takeWhile trie_sep rest @ trie_word rest @ trie_next rest"
    using w by (metis append_take_drop_id takeWhile_dropWhile_id trie_next_def)
  moreover have "newline \<notin> set (takeWhile trie_sep rest)"
    by (auto simp: trie_sep_def dest: set_takeWhileD)
  ultimately show ?thesis using trie_word_Nil_newline [of rest] by (metis Un_iff append.assoc set_append)
qed

lemma trie_next_newline: "newline \<in> set rest \<Longrightarrow> newline \<in> set (trie_next rest)"
  using trie_next_suffix [of rest] by (metis Un_iff set_append)

lemma trie_line_newline_no_False:
  assumes "trie_line_has_vpn is_vpn rest = Some r" "newline \<in> set rest"
  shows "r"
proof -
  have "newline \<in> set rest \<longrightarrow> r"
  proof (rule trie_line_has_vpn.raw_induct [of "\<lambda>is_vpn rest r. newline \<in> set rest \<longrightarrow> r", OF _ assms(1)])
    fix f is_vpn rest r
    assume ih: "\<And>is_vpn rest r. f is_vpn rest = Some r \<Longrightarrow> newline \<in> set rest \<longrightarrow> r"
      and body: "(if rest = [] then Some False
        else if trie_word rest \<noteq> [] \<and> is_vpn (trie_word rest) then Some True else f is_vpn (trie_next rest)) = Some r"
    show "newline \<in> set rest \<longrightarrow> r"
      using body ih [of is_vpn "trie_next rest" r] trie_next_newline [of rest] by (auto split: if_splits)
  qed
  with assms(2) show ?thesis by blast
qed

lemma trie_line_hit:
  assumes "trie_line_has_vpn is_vpn rest = Some r" "r"
  shows "\<exists>w. w \<noteq> [] \<and> is_vpn w"
proof -
  have "r \<longrightarrow> (\<exists>w. w \<noteq> [] \<and> is_vpn w)"
  proof (rule trie_line_has_vpn.raw_induct [of "\<lambda>is_vpn rest r. r \<longrightarrow> (\<exists>w. w \<noteq> [] \<and> is_vpn w)", OF _ assms(1)])
    fix f is_vpn rest r
    assume ih: "\<And>is_vpn rest r. f is_vpn rest = Some r \<Longrightarrow> r \<longrightarrow> (\<exists>w. w \<noteq> [] \<and> is_vpn w)"
      and body: "(if rest = [] then Some False
        else if trie_word rest \<noteq> [] \<and> is_vpn (trie_word rest) then Some True else f is_vpn (trie_next rest)) = Some r"
    show "r \<longrightarrow> (\<exists>w. w \<noteq> [] \<and> is_vpn w)"
      using body ih [of is_vpn "trie_next rest" r] by (auto split: if_splits)
  qed
  with assms(2) show ?thesis by blast
qed

lemma line_has_newline:
  assumes "newline \<in> set (take n s)"
  shows "newline \<in> set (take (line_length n s) s)"
proof -
  let ?t = "take n s"
  let ?k = "length (takeWhile (\<lambda>c. c \<noteq> newline) ?t)"
  have k: "?k < length ?t" using assms by (metis (full_types) length_takeWhile_le le_neq_implies_less takeWhile_eq_all_conv takeWhile_eq_take take_all)
  then have "?t ! ?k = newline" using nth_length_takeWhile [of "\<lambda>c. c \<noteq> newline" ?t] by simp
  moreover have "take (line_length n s) s ! ?k = ?t ! ?k" "?k < length (take (line_length n s) s)"
    using k by (auto simp: line_length_def Let_def)
  ultimately show ?thesis by (metis nth_mem)
qed

lemma fib_trie_loop_hangs:
  assumes "\<And>w. \<not> is_vpn w" "src < e" "newline \<in> set (take (e - src) (drop src buf))"
  shows "fib_trie_loop is_vpn uid buf src dst e st = None"
proof -
  let ?line = "take (line_length (e - src) (drop src buf)) (drop src buf)"
  have "newline \<in> set ?line" using line_has_newline [OF assms(3)] by simp
  then have "trie_line_has_vpn is_vpn ?line = None"
    using trie_line_newline_no_False [of is_vpn ?line] trie_line_hit [of is_vpn ?line] assms(1)
    by (cases "trie_line_has_vpn is_vpn ?line") blast+
  with assms(2) show ?thesis by (simp add: fib_trie_loop.simps [of is_vpn uid buf src] Let_def)
qed

section \<open>Properties\<close>

definition shown_text :: "seq_file \<Rightarrow> string" where
  "shown_text seq = take (seq_count seq) (seq_buf seq)"



definition sample_seq_env :: hook_env where
  "sample_seq_env = \<lparr>global_policy = None, global_active_vpns = Some [\<lparr>vpn_ifindex = 7, vpn_name = ''tun0''\<rparr>],
     g_vpn_name_cache = None, global_spoof_ip = None, global_cover_ifindex = 3, stats_pkts_first = False\<rparr>"

definition sample_routes :: seq_file where
  "sample_routes = \<lparr>seq_buf = ''Iface'' @ [newline] @ ''tun0'' @ [tab, CHR ''0'', newline] @
     ''eth0'' @ [tab, CHR ''1'', newline] @ ''....'', seq_count = 20\<rparr>"



text \<open>
  The name fields are read exactly: the first tab-separated field of a route, the field before the
  colon of a device line after any indentation, and the last blank-separated field of an IPv6 route
  or address line, for every interface name of one to 15 characters without white space and colon.
\<close>

theorem proc_line_names:
  assumes "list_all (\<lambda>c. c \<noteq> blank \<and> c \<noteq> tab \<and> c \<noteq> newline \<and> c \<noteq> carriage \<and> c \<noteq> CHR '':'') name"
    and "name \<noteq> []" and "length name \<le> 15" and "list_all (\<lambda>c. c = blank \<or> c = tab) pad"
  shows "fib_route_ifname (name @ tab # rest) = name \<and>
    dev_seq_ifname (pad @ name @ CHR '':'' # rest) = name \<and>
    last_word_ifname (rest @ blank # name @ [newline]) = name"
proof (intro conjI)
  show "fib_route_ifname (name @ tab # rest) = name"
    by (rule fib_route_ifname_field) (use assms in \<open>auto simp: list_all_iff\<close>)
  show "dev_seq_ifname (pad @ name @ CHR '':'' # rest) = name"
    by (rule dev_seq_ifname_field [OF assms(4,2,3)]) (use assms(1) in \<open>simp add: list_all_iff\<close>)
  show "last_word_ifname (rest @ blank # name @ [newline]) = name"
    by (rule last_word_ifname_field [OF _ assms(2,3)]) (use assms(1) in \<open>simp add: list_all_iff\<close>)
qed

theorem proc_line_names_witness:
  "fib_route_ifname (''tun0'' @ tab # ''00000000'') = ''tun0'' \<and>
   dev_seq_ifname (''  '' @ ''tun0'' @ CHR '':'' # ''00000000'') = ''tun0'' \<and>
   last_word_ifname (''00000000'' @ blank # ''tun0'' @ [newline]) = ''tun0''"
  by (rule proc_line_names) simp_all

text \<open>
  C24: The handler of the routing trie does not return. Its word loop never gets past a newline, so a
  target UID that reads /proc/net/fib_trie hangs in the handler at the first complete line when no
  VPN interface is active.
\<close>

theorem fib_trie_hangs:
  assumes "global_active_vpns env = None" and "start < seq_count seq"
    and "newline \<in> set (drop start (shown_text seq))"
  shows "fib_trie_ret env uid (Some seq) start st = None"
proof -
  have "newline \<in> set (take (seq_count seq - start) (drop start (seq_buf seq)))"
    using assms(3) by (simp add: shown_text_def drop_take)
  moreover have "\<not> vpn_ifname env w" for w using assms(1) by (simp add: is_active_vpn_ifname_def)
  ultimately show ?thesis using assms(2) fib_trie_loop_hangs [of "vpn_ifname env" start "seq_count seq" "seq_buf seq"]
    by (simp add: fib_trie_ret_def)
qed

theorem fib_trie_hangs_witness:
  "fib_trie_ret (sample_seq_env\<lparr>global_active_vpns := None\<rparr>) 10123 (Some sample_routes) 6 (4, []) = None"
proof (rule fib_trie_hangs)
  show "newline \<in> set (drop 6 (shown_text sample_routes))" by (simp add: shown_text_def sample_routes_def)
qed (simp_all add: sample_routes_def)

end
