(* ===== verification/Kernel_State.thy ===== *)
theory Kernel_State
  imports Seq_Hooks
begin

text \<open>
  The state of the kernel module and the control calls on it (kmod/main.c): publishing a policy,
  the ioctls of the control device and the statistics calls. The record extends what the hooks read
  with the rest of the module's global variables. The outcome of allocations, of the copies to and
  from user space, of the clock and of the event descriptor lookup are arguments; a copy from user
  space is an option value. Calls that release their locks half-way (the statistics snapshots) are
  two definitions, and the whole call is their composition on one state; the lemmas on concurrent
  callers use the two halves on different states.
\<close>

section \<open>State\<close>

record kernel_state = hook_env +
  owned_ports :: "owned_ports_snapshot option"
  pending_ports :: "pending_port list list"
  udp_rates :: "udp_uid_rate list"
  kmod_stats :: "uid_stats list"
  kmod_stats_capacity :: nat
  kmod_stats_sequence :: u64
  kmod_stats_session_id :: u64
  kmod_port_stats :: "port_slot list option"
  kmod_port_stats_dropped :: u64
  config_generation :: u32
  java_stats_clear_generation :: u32
  java_stats_buf :: string
  java_status_buf :: string
  cover_ifname :: string
  port_event_ctx :: "nat option"

text \<open>The static initial values of the module's globals.\<close>

definition module_zero :: kernel_state where
  "module_zero = \<lparr>global_policy = None, global_active_vpns = None, g_vpn_name_cache = None, global_spoof_ip = None,
     global_cover_ifindex = 0, stats_pkts_first = False, owned_ports = None, pending_ports = pending_empty,
     udp_rates = [], kmod_stats = [], kmod_stats_capacity = 0, kmod_stats_sequence = 0, kmod_stats_session_id = 0,
     kmod_port_stats = None, kmod_port_stats_dropped = 0, config_generation = 1, java_stats_clear_generation = 1,
     java_stats_buf = [], java_status_buf = [], cover_ifname = [], port_event_ctx = None\<rparr>"

text \<open>A call returns 0 (None) or an error, and the new state.\<close>

type_synonym call_result = "errno option \<times> kernel_state"

section \<open>Publishing a policy\<close>

text \<open>
  The part of the publication under the policy lock, and the increment of the generation after the
  lock is released. \<^verbatim>\<open>(u64)atomic_read(&vpnhide_config_generation)\<close> sign-extends the 32-bit counter.
\<close>

definition publish_locked :: "bool \<Rightarrow> policy_snapshot \<Rightarrow> u64 \<Rightarrow> kernel_state \<Rightarrow> call_result" where
  "publish_locked alloc_stats snapshot expected_generation k =
     (if expected_generation \<noteq> 0 \<and> expected_generation \<noteq> scast (config_generation k) then (Some EAGAIN, k)
      else case kmod_stats_reconcile alloc_stats snapshot (kmod_stats k) of
        Inl e \<Rightarrow> (Some e, k)
      | Inr (stats, capacity) \<Rightarrow>
          (None, k\<lparr>kmod_stats := stats, kmod_stats_capacity := capacity, global_policy := Some snapshot,
             pending_ports := pending_empty, owned_ports := None,
             udp_rates := vpnhide_udp_rates_prune (Some snapshot) (udp_rates k)\<rparr>))"

definition next_generation :: "kernel_state \<Rightarrow> kernel_state" where
  "next_generation k = k\<lparr>config_generation := config_generation k + 1\<rparr>"

definition publish_policy_snapshot :: "bool \<Rightarrow> policy_snapshot \<Rightarrow> u64 \<Rightarrow> kernel_state \<Rightarrow> call_result" where
  "publish_policy_snapshot alloc_stats snapshot expected_generation k =
     (case publish_locked alloc_stats snapshot expected_generation k of
        (Some e, k') \<Rightarrow> (Some e, k')
      | (None, k') \<Rightarrow> (None, next_generation k'))"

definition vpnhide_apply_policy_v3 :: "(nat \<Rightarrow> bool) \<Rightarrow> u8 list \<Rightarrow> u64 \<Rightarrow> kernel_state \<Rightarrow> call_result" where
  "vpnhide_apply_policy_v3 alloc payload expected_generation k =
     (case policy_snapshot_from_v3 (alloc 1) payload of
        Inl e \<Rightarrow> (Some e, k)
      | Inr snapshot \<Rightarrow> publish_policy_snapshot (alloc 2) snapshot expected_generation k)"

definition vpnhide_apply_policy_v4 :: "(nat \<Rightarrow> bool) \<Rightarrow> u8 list \<Rightarrow> u64 \<Rightarrow> kernel_state \<Rightarrow> call_result" where
  "vpnhide_apply_policy_v4 alloc payload expected_generation k =
     (case policy_snapshot_from_v4 (alloc 3) (alloc 1) payload of
        Inl e \<Rightarrow> (Some e, k)
      | Inr snapshot \<Rightarrow> publish_policy_snapshot (alloc 2) snapshot expected_generation k)"

definition vpnhide_apply_policy :: "(nat \<Rightarrow> bool) \<Rightarrow> policy_payload_v2 \<Rightarrow> u64 \<Rightarrow> kernel_state \<Rightarrow> call_result" where
  "vpnhide_apply_policy alloc payload expected_generation k =
     (case v3_payload_of_v2 (alloc 3) payload of
        Inl e \<Rightarrow> (Some e, k)
      | Inr v3 \<Rightarrow> vpnhide_apply_policy_v3 alloc v3 expected_generation k)"

text \<open>
  The fixed layout of the version 2 payload: the two UID arrays of 512, 512 port targets of 108
  bytes with 16 rules of 6 bytes, the interface prefixes, 512 application masks of 16 bytes and four
  words.
\<close>

abbreviation (input) sizeof_payload_v2 :: nat where "sizeof_payload_v2 \<equiv> 68132"

definition get_int :: "u8 list \<Rightarrow> nat \<Rightarrow> int" where
  "get_int bs off = sint (get_u32 bs off)"

definition get_uid_port_rules :: "u8 list \<Rightarrow> uid_port_rules_v2" where
  "get_uid_port_rules bs = \<lparr>v2_uid = get_u32 bs 0, v2_rule_count = get_int bs 4, v2_mode = get_u8 bs 8,
     v2_rules = get_array 6 (\<lambda>r. (get_u16 r 0, get_u16 r 2, get_u8 r 4)) bs 10 16\<rparr>"

definition get_payload_v2 :: "u8 list \<Rightarrow> policy_payload_v2" where
  "get_payload_v2 bs = \<lparr>v2_kmod_count = get_int bs 0, v2_kmod_uids = get_array 4 (\<lambda>u. get_u32 u 0) bs 4 512,
     v2_lsposed_count = get_int bs 2052, v2_lsposed_uids = get_array 4 (\<lambda>u. get_u32 u 0) bs 2056 512,
     v2_port_count = get_int bs 4104, v2_port_targets = get_array 108 get_uid_port_rules bs 4108 512,
     v2_iface_count = get_int bs 59404, v2_iface_prefixes = take 512 (drop 59408 bs),
     v2_mask_count = get_int bs 59920,
     v2_masks = get_array 16 (\<lambda>m. (get_u32 m 0, get_u32 m 4, get_u32 m 8, get_u8 m 12, get_u8 m 13)) bs 59924 512,
     v2_active_hooks_mask = get_u32 bs 68116, v2_java_hooks_mask = get_u32 bs 68120,
     v2_debug_enabled = get_u32 bs 68124, v2_flags = get_u32 bs 68128\<rparr>"

record policy_ioctl =
  abi_version :: u32
  payload_size :: u32
  payload_ptr :: u64
  expected_generation :: u64

text \<open>\<open>user\<close> is the payload of \<^verbatim>\<open>payload_size\<close> bytes at \<^verbatim>\<open>payload_ptr\<close>, None when it cannot be read.\<close>

definition ioctl_set_policy :: "(nat \<Rightarrow> bool) \<Rightarrow> policy_ioctl option \<Rightarrow> u8 list option \<Rightarrow> kernel_state \<Rightarrow> call_result" where
  "ioctl_set_policy alloc request_opt user k =
     (case request_opt of
        None \<Rightarrow> (Some EFAULT, k)
      | Some request \<Rightarrow>
          let size = unat (payload_size request); v = abi_version request in
          if payload_ptr request = 0 then (Some EINVAL, k)
          else if v = 2 \<and> size \<noteq> sizeof_payload_v2 then (Some EINVAL, k)
          else if v = 3 \<and> (size < sizeof_payload_v3 \<or> size > VPNHIDE_POLICY_MAX_BYTES) then (Some EINVAL, k)
          else if v = 4 \<and> (size < sizeof_payload_v4 \<or> size > VPNHIDE_POLICY_MAX_BYTES) then (Some EINVAL, k)
          else if v \<noteq> 2 \<and> v \<noteq> 3 \<and> v \<noteq> 4 then (Some EPROTONOSUPPORT, k)
          else if \<not> alloc 0 then (Some ENOMEM, k)
          else case user of
            None \<Rightarrow> (Some EFAULT, k)
          | Some payload \<Rightarrow>
              if v = 4 then vpnhide_apply_policy_v4 alloc payload (expected_generation request) k
              else if v = 3 then vpnhide_apply_policy_v3 alloc payload (expected_generation request) k
              else vpnhide_apply_policy alloc (get_payload_v2 payload) (expected_generation request) k)"

section \<open>Reading the policy back\<close>

definition ioctl_get_targets :: "bool \<Rightarrow> bool \<Rightarrow> bool \<Rightarrow> kernel_state \<Rightarrow> errno option \<times> (nat \<times> uid_t list) option" where
  "ioctl_get_targets lsposed alloc_ok copy_ok k =
     (let uids = (case global_policy k of
          None \<Rightarrow> [] | Some s \<Rightarrow> if lsposed then lsposed_uids s else kmod_uids s) in
      if \<not> alloc_ok then (Some ENOMEM, None)
      else if length uids > VPNHIDE_LEGACY_TARGET_UIDS then (Some ENOSPC, None)
      else if \<not> copy_ok then (Some EFAULT, None)
      else (None, Some (length uids, uids @ replicate (VPNHIDE_LEGACY_TARGET_UIDS - length uids) 0)))"

definition ioctl_get_iface_prefixes :: "bool \<Rightarrow> bool \<Rightarrow> kernel_state \<Rightarrow> errno option \<times> (u32 \<times> u8 list) option" where
  "ioctl_get_iface_prefixes alloc_ok copy_ok k =
     (if \<not> alloc_ok then (Some ENOMEM, None)
      else if \<not> copy_ok then (Some EFAULT, None)
      else (None, Some (case global_policy k of
          None \<Rightarrow> (0, replicate sizeof_iface_prefixes 0)
        | Some s \<Rightarrow> (iface_count s, iface_prefixes s))))"

definition ioctl_get_app_hook_masks :: "bool \<Rightarrow> bool \<Rightarrow> kernel_state \<Rightarrow>
    errno option \<times> (u32 \<times> u32 \<times> u32 \<times> u8 \<times> u8) list option" where
  "ioctl_get_app_hook_masks alloc_ok copy_ok k =
     (let masks = (case global_policy k of None \<Rightarrow> [] | Some s \<Rightarrow> app_hook_masks s) in
      if \<not> alloc_ok then (Some ENOMEM, None)
      else if length masks > VPNHIDE_LEGACY_TARGET_UIDS then (Some ENOSPC, None)
      else if \<not> copy_ok then (Some EFAULT, None)
      else (None, Some (map (\<lambda>m. (mask_uid m, kernel_mask m, java_mask m, has_kernel_override m,
        has_java_override m)) masks)))"

section \<open>Setting the interface data\<close>

definition ioctl_set_spoof_ip :: "bool \<Rightarrow> spoof_ip option \<Rightarrow> kernel_state \<Rightarrow> call_result" where
  "ioctl_set_spoof_ip alloc_ok sip_opt k =
     (case sip_opt of
        None \<Rightarrow> (Some EFAULT, k)
      | Some sip \<Rightarrow> (case update_spoof_ip alloc_ok sip of
            Inl e \<Rightarrow> (Some e, k)
          | Inr new \<Rightarrow> (None, k\<lparr>global_spoof_ip := Some new\<rparr>)))"

definition ioctl_set_cover_iface :: "u32 option \<Rightarrow> kernel_state \<Rightarrow> call_result" where
  "ioctl_set_cover_iface ci k =
     (case ci of
        None \<Rightarrow> (Some EFAULT, k)
      | Some ifindex \<Rightarrow> (None, k\<lparr>global_cover_ifindex := ifindex\<rparr>))"

text \<open>The structure holds a count and 16 entries; the name cache is rebuilt from the same structure.\<close>

definition ioctl_set_vpn_ifindexes :: "(nat \<Rightarrow> bool) \<Rightarrow> (int \<times> active_vpn list) option \<Rightarrow> kernel_state \<Rightarrow> call_result" where
  "ioctl_set_vpn_ifindexes alloc data k =
     (if \<not> alloc 0 then (Some ENOMEM, k)
      else case data of
        None \<Rightarrow> (Some EFAULT, k)
      | Some (n, vpns) \<Rightarrow>
          if n < 0 \<or> n > int MAX_ACTIVE_VPNS then (Some EINVAL, k)
          else if \<not> alloc 1 then (Some ENOMEM, k)
          else (None, next_generation (k\<lparr>global_active_vpns := Some (take (nat n) vpns),
            g_vpn_name_cache := vh_rebuild_name_cache (alloc 2) n vpns (g_vpn_name_cache k)\<rparr>)))"

section \<open>Port ownership\<close>

definition ioctl_set_port_eventfd :: "(int \<Rightarrow> errno + nat) \<Rightarrow> int option \<Rightarrow> kernel_state \<Rightarrow> call_result" where
  "ioctl_set_port_eventfd eventfd_ctx_fdget fd_opt k =
     (case fd_opt of
        None \<Rightarrow> (Some EFAULT, k)
      | Some fd \<Rightarrow> (case eventfd_ctx_fdget fd of
            Inl e \<Rightarrow> (Some e, k)
          | Inr ctx \<Rightarrow> (None, k\<lparr>port_event_ctx := Some ctx\<rparr>)))"

definition ioctl_set_owned_ports :: "u64 \<Rightarrow> u64 \<Rightarrow> (nat \<Rightarrow> bool) \<Rightarrow> (u32 \<times> u32 \<times> u64) option \<Rightarrow>
    owned_port list option \<Rightarrow> kernel_state \<Rightarrow> call_result" where
  "ioctl_set_owned_ports hz jiffies alloc update entries k =
     (case update of
        None \<Rightarrow> (Some EFAULT, k)
      | Some (num, reserved, ptr) \<Rightarrow>
          (case replace_owned_ports hz jiffies (alloc 0) (alloc 1) num reserved ptr entries of
             Inl e \<Rightarrow> (Some e, k)
           | Inr snapshot \<Rightarrow> (None, k\<lparr>owned_ports := Some snapshot\<rparr>)))"

section \<open>Statistics snapshots\<close>

text \<open>
  A kernel buffer on its way to user space: an element the call has written, one of the allocation
  it has not written, or memory behind the allocation.
\<close>

datatype 'e slot = Written 'e | Uninitialised | Outside

definition copied_slots :: "nat \<Rightarrow> 'e list \<Rightarrow> nat \<Rightarrow> 'e slot list" where
  "copied_slots allocated written n =
     map (\<lambda>i. if i < length written \<and> i < allocated then Written (written ! i)
              else if i < allocated then Uninitialised else Outside) [0..<n]"

record stats_request =
  sq_capacity :: u32
  sq_count :: u32
  sq_sequence :: u64
  sq_monotonic_ns :: u64
  sq_entries_ptr :: u64

text \<open>
  \<^verbatim>\<open>VH_GET_STATS\<close>. The first half reads the number of counters and allocates; the second half, after
  the lock was free in between, takes the snapshot and copies it out. The result is the return
  value, the request structure and the entries written to user space, and the new state.
\<close>

definition get_stats_begin :: "bool \<Rightarrow> stats_request \<Rightarrow> kernel_state \<Rightarrow> errno + nat" where
  "get_stats_begin alloc_ok request k =
     (if sq_capacity request \<noteq> 0 \<and> sq_entries_ptr request = 0 then Inl EINVAL
      else
        let allocated = min (unat (sq_capacity request)) (length (kmod_stats k)) in
        if allocated \<noteq> 0 \<and> \<not> alloc_ok then Inl ENOMEM else Inr allocated)"

definition get_stats_end :: "u64 \<Rightarrow> bool \<Rightarrow> bool \<Rightarrow> nat \<Rightarrow> stats_request \<Rightarrow> kernel_state \<Rightarrow>
    errno option \<times> stats_request option \<times> uid_stats slot list \<times> kernel_state" where
  "get_stats_end now copy_entries copy_request allocated request k =
     (let n = length (kmod_stats k);
          seq = kmod_stats_sequence k + 1;
          k' = k\<lparr>kmod_stats_sequence := seq\<rparr>;
          request' = request\<lparr>sq_sequence := seq, sq_monotonic_ns := now, sq_count := of_nat n\<rparr>;
          written = (if allocated \<noteq> 0 \<and> unat (sq_capacity request) \<ge> n \<and> allocated \<ge> n
                     then kmod_stats k else []) in
      if unat (sq_capacity request) < n then
        (if copy_request then (Some ENOSPC, Some request', [], k') else (Some EFAULT, None, [], k'))
      else if allocated \<noteq> 0 \<and> \<not> copy_entries then (Some EFAULT, None, [], k')
      else
        let entries = (if allocated \<noteq> 0 then copied_slots allocated written n else []) in
        if copy_request then (None, Some request', entries, k') else (Some EFAULT, None, entries, k'))"

definition ioctl_get_stats :: "u64 \<Rightarrow> bool \<Rightarrow> bool \<Rightarrow> bool \<Rightarrow> stats_request option \<Rightarrow> kernel_state \<Rightarrow>
    errno option \<times> stats_request option \<times> uid_stats slot list \<times> kernel_state" where
  "ioctl_get_stats now alloc_ok copy_entries copy_request request_opt k =
     (case request_opt of
        None \<Rightarrow> (Some EFAULT, None, [], k)
      | Some request \<Rightarrow> (case get_stats_begin alloc_ok request k of
            Inl e \<Rightarrow> (Some e, None, [], k)
          | Inr allocated \<Rightarrow> get_stats_end now copy_entries copy_request allocated request k))"

text \<open>\<^verbatim>\<open>VH_GET_STATS_V2\<close> returns the counters and the per-port table together.\<close>

record stats_request_v2 =
  s2_uid_capacity :: u32
  s2_uid_count :: u32
  s2_port_capacity :: u32
  s2_port_count :: u32
  s2_sequence :: u64
  s2_monotonic_ns :: u64
  s2_uid_entries_ptr :: u64
  s2_port_entries_ptr :: u64
  s2_dropped_port_entries :: u64

type_synonym port_entry = "uid_t \<times> u16 \<times> u8 \<times> u64"

definition live_ports :: "u64 \<Rightarrow> u64 \<Rightarrow> kernel_state \<Rightarrow> nat \<times> kernel_state" where
  "live_ports hz jiffies k =
     (case kmod_port_stats k of
        None \<Rightarrow> (0, k)
      | Some slots \<Rightarrow> (case count_live_port_stats hz jiffies slots of
            (slots', n) \<Rightarrow> (n, k\<lparr>kmod_port_stats := Some slots'\<rparr>)))"

definition port_entries :: "kernel_state \<Rightarrow> port_entry list" where
  "port_entries k =
     (case kmod_port_stats k of
        None \<Rightarrow> []
      | Some slots \<Rightarrow> map (\<lambda>e. (ps_uid e, ps_port e, ps_protocol e, ps_count e))
          (filter (\<lambda>e. ps_state e = PORT_STAT_USED) slots))"

definition next_sequence :: "kernel_state \<Rightarrow> kernel_state" where
  "next_sequence k = k\<lparr>kmod_stats_sequence := kmod_stats_sequence k + 1\<rparr>"

text \<open>
  The second half takes the counters under their lock in the state \<open>k\<close>, advancing the sequence, and the
  port table under its own lock in the state \<open>kp\<close>.
\<close>

definition get_stats_v2_begin :: "u64 \<Rightarrow> u64 \<Rightarrow> bool \<Rightarrow> bool \<Rightarrow> stats_request_v2 \<Rightarrow> kernel_state \<Rightarrow>
    (errno + nat \<times> nat) \<times> kernel_state" where
  "get_stats_v2_begin hz jiffies alloc_uids alloc_ports request k =
     (if s2_uid_capacity request \<noteq> 0 \<and> s2_uid_entries_ptr request = 0 \<or>
         s2_port_capacity request \<noteq> 0 \<and> s2_port_entries_ptr request = 0
      then (Inl EINVAL, k)
      else
        let uid_count = length (kmod_stats k); (port_count, k') = live_ports hz jiffies k;
            want_uids = (unat (s2_uid_capacity request) \<ge> uid_count \<and> uid_count \<noteq> 0);
            want_ports = (unat (s2_port_capacity request) \<ge> port_count \<and> port_count \<noteq> 0) in
        if want_uids \<and> \<not> alloc_uids \<or> want_ports \<and> \<not> alloc_ports then (Inl ENOMEM, k')
        else (Inr (if want_uids then uid_count else 0, if want_ports then port_count else 0), k'))"

definition get_stats_v2_end :: "u64 \<Rightarrow> u64 \<Rightarrow> u64 \<Rightarrow> bool \<Rightarrow> bool \<Rightarrow> bool \<Rightarrow> nat \<times> nat \<Rightarrow> stats_request_v2 \<Rightarrow>
    kernel_state \<Rightarrow> kernel_state \<Rightarrow>
    errno option \<times> stats_request_v2 option \<times> uid_stats slot list \<times> port_entry slot list \<times> kernel_state" where
  "get_stats_v2_end hz jiffies now copy_uids copy_ports copy_request allocated request k kp =
     (let (uid_allocated, port_allocated) = allocated;
          uid_count = length (kmod_stats k);
          seq = kmod_stats_sequence k + 1;
          uids = (if uid_allocated \<noteq> 0 \<and> unat (s2_uid_capacity request) \<ge> uid_count \<and> uid_allocated \<ge> uid_count
                  then kmod_stats k else []);
          (port_count, k') = live_ports hz jiffies kp;
          request' = request\<lparr>s2_uid_count := of_nat uid_count, s2_sequence := seq, s2_monotonic_ns := now,
            s2_port_count := of_nat port_count, s2_dropped_port_entries := kmod_port_stats_dropped kp\<rparr>;
          ports = (if port_allocated \<noteq> 0 \<and> unat (s2_port_capacity request) \<ge> port_count \<and>
                      port_allocated \<ge> port_count
                   then port_entries k' else []) in
      if unat (s2_uid_capacity request) < uid_count \<or> unat (s2_port_capacity request) < port_count \<or>
         uid_allocated < uid_count \<or> port_allocated < port_count then
        (if copy_request then (Some ENOSPC, Some request', [], [], k') else (Some EFAULT, None, [], [], k'))
      else if uid_allocated \<noteq> 0 \<and> \<not> copy_uids then (Some EFAULT, None, [], [], k')
      else
        let uid_slots = (if uid_allocated \<noteq> 0 then copied_slots uid_allocated uids uid_count else []) in
        if port_allocated \<noteq> 0 \<and> \<not> copy_ports then (Some EFAULT, None, uid_slots, [], k')
        else
          let port_slots = (if port_allocated \<noteq> 0 then copied_slots port_allocated ports port_count else []) in
          (if copy_request then None else Some EFAULT, if copy_request then Some request' else None,
           uid_slots, port_slots, k'))"

definition ioctl_get_stats_v2 :: "u64 \<Rightarrow> u64 \<Rightarrow> u64 \<Rightarrow> (nat \<Rightarrow> bool) \<Rightarrow> (nat \<Rightarrow> bool) \<Rightarrow> stats_request_v2 option \<Rightarrow>
    kernel_state \<Rightarrow>
    errno option \<times> stats_request_v2 option \<times> uid_stats slot list \<times> port_entry slot list \<times> kernel_state" where
  "ioctl_get_stats_v2 hz jiffies now alloc copied request_opt k =
     (case request_opt of
        None \<Rightarrow> (Some EFAULT, None, [], [], k)
      | Some request \<Rightarrow>
          (case get_stats_v2_begin hz jiffies (alloc 0) (alloc 1) request k of
             (Inl e, k') \<Rightarrow> (Some e, None, [], [], k')
           | (Inr allocated, k') \<Rightarrow>
               get_stats_v2_end hz jiffies now (copied 0) (copied 1) (copied 2) allocated request k'
                 (next_sequence k')))"

definition empty_port_slots :: "port_slot list" where
  "empty_port_slots = replicate VPNHIDE_PORT_STATS_CAPACITY
     \<lparr>ps_uid = 0, ps_port = 0, ps_protocol = 0, ps_state = PORT_STAT_EMPTY, ps_count = 0, ps_last_seen = 0\<rparr>"

definition ioctl_clear_stats :: "bool \<Rightarrow> kernel_state \<Rightarrow> call_result" where
  "ioctl_clear_stats alloc_ok k =
     (if \<not> alloc_ok then (Some ENOMEM, k)
      else (None, k\<lparr>kmod_stats := map (\<lambda>s. zero_stats (st_uid s)) (kmod_stats k), kmod_stats_sequence := 0,
        kmod_port_stats := Some empty_port_slots, kmod_port_stats_dropped := 0\<rparr>))"

section \<open>The dispatcher\<close>

datatype vh_request =
    VH_SET_POLICY "policy_ioctl option" "u8 list option"
  | VH_GET_TARGETS
  | VH_GET_LSPOSED_TARGETS
  | VH_GET_JAVA_HOOK_MASK
  | VH_SET_SPOOF_IP "spoof_ip option"
  | VH_SET_COVER_IFACE "u32 option"
  | VH_GET_IFACE_PREFIXES
  | VH_SET_VPN_IFINDEXES "(int \<times> active_vpn list) option"
  | VH_GET_ACTIVE_HOOKS
  | VH_GET_APP_HOOK_MASKS
  | VH_GET_STATS "stats_request option"
  | VH_GET_STATS_V2 "stats_request_v2 option"
  | VH_GET_STATS_SESSION
  | VH_CLEAR_STATS
  | VH_GET_JAVA_STATS
  | VH_GET_HOOK_STATUS
  | VH_GET_VERSION
  | VH_SET_PORT_EVENTFD "int option"
  | VH_SET_OWNED_PORTS "(u32 \<times> u32 \<times> u64) option" "owned_port list option"
  | VH_UNKNOWN

datatype vh_answer =
    No_answer
  | Targets "nat \<times> uid_t list"
  | Word u32
  | Long u64
  | Prefixes "u32 \<times> u8 list"
  | Masks "(u32 \<times> u32 \<times> u32 \<times> u8 \<times> u8) list"
  | Stats "stats_request option" "uid_stats slot list"
  | Stats_v2 "stats_request_v2 option" "uid_stats slot list" "port_entry slot list"
  | Text string

record ioctl_env =
  capable_net_admin :: bool
  ioctl_alloc :: "nat \<Rightarrow> bool"
  ioctl_copied :: "nat \<Rightarrow> bool"
  ioctl_hz :: u64
  ioctl_jiffies :: u64
  ioctl_ktime :: u64
  ioctl_eventfd :: "int \<Rightarrow> errno + nat"

abbreviation (input) VPNHIDE_VERSION_CODE :: u32 where "VPNHIDE_VERSION_CODE \<equiv> 20508"

definition answer_of :: "('a \<Rightarrow> vh_answer) \<Rightarrow> 'a option \<Rightarrow> vh_answer" where
  "answer_of f out = (case out of None \<Rightarrow> No_answer | Some x \<Rightarrow> f x)"

definition put_answer :: "ioctl_env \<Rightarrow> vh_answer \<Rightarrow> kernel_state \<Rightarrow> errno option \<times> vh_answer \<times> kernel_state" where
  "put_answer env out k = (if ioctl_copied env 0 then (None, out, k) else (Some EFAULT, No_answer, k))"

definition set_answer :: "call_result \<Rightarrow> errno option \<times> vh_answer \<times> kernel_state" where
  "set_answer r = (fst r, No_answer, snd r)"

definition handle_vpnhide_ioctl :: "ioctl_env \<Rightarrow> vh_request \<Rightarrow> kernel_state \<Rightarrow>
    errno option \<times> vh_answer \<times> kernel_state" where
  "handle_vpnhide_ioctl env cmd k =
     (let alloc = ioctl_alloc env; copied = ioctl_copied env in
      if \<not> capable_net_admin env then (Some EPERM, No_answer, k)
      else case cmd of
        VH_SET_POLICY request user \<Rightarrow> set_answer (ioctl_set_policy alloc request user k)
      | VH_GET_TARGETS \<Rightarrow> (case ioctl_get_targets False (alloc 0) (copied 0) k of
            (ret, out) \<Rightarrow> (ret, answer_of Targets out, k))
      | VH_GET_LSPOSED_TARGETS \<Rightarrow> (case ioctl_get_targets True (alloc 0) (copied 0) k of
            (ret, out) \<Rightarrow> (ret, answer_of Targets out, k))
      | VH_GET_JAVA_HOOK_MASK \<Rightarrow> put_answer env (Word (vpnhide_java_hooks_mask (global_policy k))) k
      | VH_SET_SPOOF_IP sip \<Rightarrow> set_answer (ioctl_set_spoof_ip (alloc 0) sip k)
      | VH_SET_COVER_IFACE ci \<Rightarrow> set_answer (ioctl_set_cover_iface ci k)
      | VH_GET_IFACE_PREFIXES \<Rightarrow> (case ioctl_get_iface_prefixes (alloc 0) (copied 0) k of
            (ret, out) \<Rightarrow> (ret, answer_of Prefixes out, k))
      | VH_SET_VPN_IFINDEXES data \<Rightarrow> set_answer (ioctl_set_vpn_ifindexes alloc data k)
      | VH_GET_ACTIVE_HOOKS \<Rightarrow> put_answer env (Word (vpnhide_active_hooks_mask (global_policy k))) k
      | VH_GET_APP_HOOK_MASKS \<Rightarrow> (case ioctl_get_app_hook_masks (alloc 0) (copied 0) k of
            (ret, out) \<Rightarrow> (ret, answer_of Masks out, k))
      | VH_GET_STATS request \<Rightarrow>
          (case ioctl_get_stats (ioctl_ktime env) (alloc 0) (copied 0) (copied 1) request k of
             (ret, req, entries, k') \<Rightarrow> (ret, Stats req entries, k'))
      | VH_GET_STATS_V2 request \<Rightarrow>
          (case ioctl_get_stats_v2 (ioctl_hz env) (ioctl_jiffies env) (ioctl_ktime env) alloc copied request k of
             (ret, req, uids, ports, k') \<Rightarrow> (ret, Stats_v2 req uids ports, k'))
      | VH_GET_STATS_SESSION \<Rightarrow> put_answer env (Long (kmod_stats_session_id k)) k
      | VH_CLEAR_STATS \<Rightarrow> set_answer (ioctl_clear_stats (alloc 0) k)
      | VH_GET_JAVA_STATS \<Rightarrow> put_answer env (Text (java_stats_buf k)) k
      | VH_GET_HOOK_STATUS \<Rightarrow> put_answer env (Text (java_status_buf k)) k
      | VH_GET_VERSION \<Rightarrow> put_answer env (Word VPNHIDE_VERSION_CODE) k
      | VH_SET_PORT_EVENTFD fd \<Rightarrow> set_answer (ioctl_set_port_eventfd (ioctl_eventfd env) fd k)
      | VH_SET_OWNED_PORTS update entries \<Rightarrow>
          set_answer (ioctl_set_owned_ports (ioctl_hz env) (ioctl_jiffies env) alloc update entries k)
      | VH_UNKNOWN \<Rightarrow> (Some ENOIOCTLCMD, No_answer, k))"

section \<open>The invariant of the module\<close>

definition owned_wf :: "owned_ports_snapshot \<Rightarrow> bool" where
  "owned_wf s \<longleftrightarrow> (\<exists>j < 32. bucket_count s = 2 ^ j \<and> length (buckets s) = 2 ^ j) \<and>
     probe_inv owned_cell (\<lambda>k. unat (owned_port_hash k)) (buckets s)"

definition kernel_inv :: "kernel_state \<Rightarrow> bool" where
  "kernel_inv k \<longleftrightarrow>
     pred_option snapshot_wf (global_policy k) \<and> pred_option owned_wf (owned_ports k) \<and>
     pending_wf (pending_ports k) \<and>
     stats_wf (kmod_stats_capacity k) (kmod_stats k) \<and> kmod_stats_capacity k \<le> VPNHIDE_UID_STATS_CAPACITY \<and>
     pred_option port_table_wf (kmod_port_stats k) \<and> pred_option spoof_wf (global_spoof_ip k) \<and>
     pred_option (\<lambda>vpns. length vpns \<le> MAX_ACTIVE_VPNS) (global_active_vpns k) \<and> length (cover_ifname k) < MAX_IFACE_LEN"

lemma kernel_invD:
  assumes "kernel_inv k"
  shows "global_policy k = Some s \<Longrightarrow> snapshot_wf s" and "pending_wf (pending_ports k)"
    and "stats_wf (kmod_stats_capacity k) (kmod_stats k)" and "length (kmod_stats k) \<le> 4096"
    and "kmod_port_stats k = Some ts \<Longrightarrow> port_table_wf ts"
  using assms by (auto simp: kernel_inv_def stats_wf_def)

lemma stats_capacity_le: "stats_capacity s \<le> 4096"
  by (simp add: stats_capacity_def Let_def)

lemma reconcile_capacity: "kmod_stats_reconcile a s st = Inr (st', capacity) \<Longrightarrow> capacity = stats_capacity s"
  by (auto simp: kmod_stats_reconcile_def Let_def split: if_splits)

lemma publish_cases:
  assumes "publish_policy_snapshot a s expected k = (r, k')"
  obtains (failed) e where "r = Some e" "k' = k"
  | (published) stats where "r = None" "expected = 0 \<or> expected = scast (config_generation k)"
      "kmod_stats_reconcile a s (kmod_stats k) = Inr (stats, stats_capacity s)"
      "k' = k\<lparr>kmod_stats := stats, kmod_stats_capacity := stats_capacity s, global_policy := Some s,
         pending_ports := pending_empty, owned_ports := None,
         udp_rates := vpnhide_udp_rates_prune (Some s) (udp_rates k),
         config_generation := config_generation k + 1\<rparr>"
  using assms by (auto simp: publish_policy_snapshot_def publish_locked_def next_generation_def reconcile_capacity split: if_splits sum.splits)

lemma publish_succeeds:
  assumes "expected = 0 \<or> expected = scast (config_generation k)"
  shows "\<exists>k'. publish_policy_snapshot True s expected k = (None, k')"
  using assms by (auto simp: publish_policy_snapshot_def publish_locked_def kmod_stats_reconcile_def Let_def)

lemma publish_failed: "fst (publish_policy_snapshot a s expected k) = Some e \<Longrightarrow>
    snd (publish_policy_snapshot a s expected k) = k"
  by (auto simp: publish_policy_snapshot_def publish_locked_def split: if_splits sum.splits)

lemma publish_inv:
  assumes "kernel_inv k" "snapshot_wf s"
  shows "kernel_inv (snd (publish_policy_snapshot a s expected k))"
proof -
  obtain r k' where p: "publish_policy_snapshot a s expected k = (r, k')" by fastforce
  then show ?thesis
  proof (cases rule: publish_cases)
    case failed
    then show ?thesis using p assms(1) by simp
  next
    case (published stats)
    have "ascending st_uid (kmod_stats k)" using kernel_invD(3) [OF assms(1)] by (simp add: stats_wf_def)
    from reconcile_wf [OF assms(2) this published(3)] published(4) p assms show ?thesis
      by (simp add: kernel_inv_def stats_capacity_le pending_empty_wf)
  qed
qed

text \<open>A policy call either fails and changes nothing, or publishes a well-formed snapshot.\<close>

lemma apply_v3_cases:
  "(\<exists>e. vpnhide_apply_policy_v3 alloc payload expected k = (Some e, k)) \<or>
   (\<exists>s. snapshot_wf s \<and>
      vpnhide_apply_policy_v3 alloc payload expected k = publish_policy_snapshot (alloc 2) s expected k)"
  by (auto simp: vpnhide_apply_policy_v3_def dest: from_v3_wf split: sum.splits)

lemma apply_v4_cases:
  "(\<exists>e. vpnhide_apply_policy_v4 alloc payload expected k = (Some e, k)) \<or>
   (\<exists>s. snapshot_wf s \<and>
      vpnhide_apply_policy_v4 alloc payload expected k = publish_policy_snapshot (alloc 2) s expected k)"
  by (auto simp: vpnhide_apply_policy_v4_def dest: from_v4_wf split: sum.splits)

lemma apply_v2_cases:
  "(\<exists>e. vpnhide_apply_policy alloc payload expected k = (Some e, k)) \<or>
   (\<exists>s. snapshot_wf s \<and>
      vpnhide_apply_policy alloc payload expected k = publish_policy_snapshot (alloc 2) s expected k)"
proof (cases "v3_payload_of_v2 (alloc 3) payload")
  case (Inr v3)
  then show ?thesis using apply_v3_cases [of alloc v3 expected k] by (simp add: vpnhide_apply_policy_def)
qed (simp add: vpnhide_apply_policy_def)

lemmas apply_cases = apply_v2_cases apply_v3_cases apply_v4_cases

lemma set_policy_cases:
  "(\<exists>e. ioctl_set_policy alloc request user k = (Some e, k)) \<or>
   (\<exists>s r. request = Some r \<and> snapshot_wf s \<and>
      ioctl_set_policy alloc request user k = publish_policy_snapshot (alloc 2) s (expected_generation r) k)"
proof (cases "request = None \<or> user = None")
  case True
  then show ?thesis
    by (cases request; cases user)
      (simp_all add: ioctl_set_policy_def Let_def split: if_splits)
next
  case False
  then obtain r payload where "request = Some r" "user = Some payload" by auto
  then show ?thesis
    using apply_v2_cases [of alloc "get_payload_v2 payload" "expected_generation r" k]
      apply_v3_cases [of alloc payload "expected_generation r" k]
      apply_v4_cases [of alloc payload "expected_generation r" k]
    by (simp add: ioctl_set_policy_def Let_def)
qed

text \<open>
  The contract of the calls that set state: they keep the invariant, and a failing call changes
  nothing. A client that retries, or issues any sequence of such calls, can rely on both.
\<close>

locale transaction =
  fixes call :: "kernel_state \<Rightarrow> call_result"
  assumes call_keeps: "kernel_inv k \<Longrightarrow> kernel_inv (snd (call k))"
    and call_failed: "fst (call k) = Some e \<Longrightarrow> snd (call k) = k"
begin

lemma changed_succeeded: "snd (call k) \<noteq> k \<Longrightarrow> fst (call k) = None"
  using call_failed by (cases "fst (call k)") auto

lemma retry_failed: "fst (call k) = Some e \<Longrightarrow> fst (call (snd (call k))) = Some e"
  using call_failed by simp

lemma repeated_keeps: "kernel_inv k \<Longrightarrow> kernel_inv (((\<lambda>k. snd (call k)) ^^ n) k)"
  by (induction n) (simp_all add: call_keeps)

end

lemma replace_owned_wf:
  "replace_owned_ports hz now ae al num reserved ptr entries = Inr s \<Longrightarrow> owned_wf s"
  using replace_owned_table [of hz now ae al num reserved ptr entries s, OF _ refl] by (auto simp: owned_wf_def)

interpretation set_policy: transaction "ioctl_set_policy alloc request user"
proof
  show "kernel_inv (snd (ioctl_set_policy alloc request user k))" if "kernel_inv k" for k
    using set_policy_cases [of alloc request user k] that publish_inv by auto
  show "snd (ioctl_set_policy alloc request user k) = k" if "fst (ioctl_set_policy alloc request user k) = Some e" for k e
    using set_policy_cases [of alloc request user k] that publish_failed by fastforce
qed

interpretation set_spoof: transaction "ioctl_set_spoof_ip alloc_ok sip"
  by unfold_locales
    (auto simp: ioctl_set_spoof_ip_def update_spoof_ip_def kernel_inv_def sanitize_wf split: option.splits sum.splits if_splits)

interpretation set_cover: transaction "ioctl_set_cover_iface ci"
  by unfold_locales (auto simp: ioctl_set_cover_iface_def kernel_inv_def split: option.splits)

interpretation set_vpns: transaction "ioctl_set_vpn_ifindexes alloc data"
  by unfold_locales (auto simp: ioctl_set_vpn_ifindexes_def next_generation_def kernel_inv_def split: option.splits if_splits)

interpretation set_eventfd: transaction "ioctl_set_port_eventfd lookup fd"
  by unfold_locales (auto simp: ioctl_set_port_eventfd_def kernel_inv_def split: option.splits sum.splits)

interpretation set_owned: transaction "ioctl_set_owned_ports hz jiffies alloc update entries"
  by unfold_locales
    (auto simp: ioctl_set_owned_ports_def kernel_inv_def replace_owned_wf split: option.splits sum.splits)

lemma empty_port_slots_wf: "port_table_wf empty_port_slots"
  by (simp add: port_table_wf_def empty_port_slots_def probe_inv_def port_cell_def)

interpretation clear_stats: transaction "ioctl_clear_stats alloc_ok"
proof
  have "ascending st_uid (map (\<lambda>s. zero_stats (st_uid s)) xs) = ascending st_uid xs" for xs :: "uid_stats list"
    by (simp add: ascending_def sorted_wrt_map)
  then show "kernel_inv (snd (ioctl_clear_stats alloc_ok k))" if "kernel_inv k" for k
    using that by (simp add: ioctl_clear_stats_def kernel_inv_def stats_wf_def empty_port_slots_wf)
qed (auto simp: ioctl_clear_stats_def split: if_splits)

lemma live_ports_inv: "kernel_inv k \<Longrightarrow> kernel_inv (snd (live_ports hz jiffies k))"
  by (auto simp: live_ports_def count_live_port_stats_def Let_def kernel_inv_def sweep_wf split: option.splits)

lemma live_ports_same [simp]:
  "kmod_stats (snd (live_ports hz jiffies k)) = kmod_stats k"
  "kmod_port_stats_dropped (snd (live_ports hz jiffies k)) = kmod_port_stats_dropped k"
  by (auto simp: live_ports_def count_live_port_stats_def Let_def split: option.splits)

lemma next_sequence_inv [simp]: "kernel_inv (next_sequence k) = kernel_inv k"
  by (simp add: next_sequence_def kernel_inv_def)

lemma sequence_inv [simp]: "kernel_inv (k\<lparr>kmod_stats_sequence := q\<rparr>) = kernel_inv k"
  by (simp add: kernel_inv_def)

lemma get_stats_state: "get_stats_end now a b n request k = (r, req, es, k') \<Longrightarrow>
    k' = k\<lparr>kmod_stats_sequence := kmod_stats_sequence k + 1\<rparr>"
  by (auto simp: get_stats_end_def Let_def split: if_splits)

lemma get_stats_v2_state: "get_stats_v2_end hz jiffies now a b c n request k kp = (r, req, us, ps, k') \<Longrightarrow>
    k' = snd (live_ports hz jiffies kp)"
  by (auto simp: get_stats_v2_end_def Let_def split: if_splits prod.splits)

lemma get_stats_v2_begin_state: "get_stats_v2_begin hz jiffies a b request k = (r, k') \<Longrightarrow>
    k' = k \<or> k' = snd (live_ports hz jiffies k)"
  by (auto simp: get_stats_v2_begin_def Let_def split: if_splits prod.splits)

lemma ioctl_keeps_inv:
  assumes "kernel_inv k"
  shows "kernel_inv (snd (snd (handle_vpnhide_ioctl env cmd k)))"
proof (cases cmd)
  case (VH_GET_STATS request)
  with assms show ?thesis
    by (auto simp: handle_vpnhide_ioctl_def ioctl_get_stats_def Let_def dest!: get_stats_state
        split: option.splits sum.splits prod.splits)
next
  case (VH_GET_STATS_V2 request)
  with assms live_ports_inv show ?thesis
    by (auto simp: handle_vpnhide_ioctl_def ioctl_get_stats_v2_def Let_def
        dest!: get_stats_v2_state get_stats_v2_begin_state split: option.splits sum.splits prod.splits)
qed (use assms set_policy.call_keeps set_spoof.call_keeps set_cover.call_keeps set_vpns.call_keeps
    set_eventfd.call_keeps set_owned.call_keeps clear_stats.call_keeps in
    \<open>auto simp: handle_vpnhide_ioctl_def Let_def set_answer_def put_answer_def split: prod.splits\<close>)

section \<open>Snapshots of the counters under concurrency\<close>

lemma length_copied_slots [simp]: "length (copied_slots a xs n) = n"
  by (simp add: copied_slots_def)

lemma copied_slots_written: "length written = n \<Longrightarrow> n \<le> allocated \<Longrightarrow> copied_slots allocated written n = map Written written"
  by (rule nth_equalityI) (simp_all add: copied_slots_def)

lemma get_stats_end_grown:
  assumes "n = length (kmod_stats k)" "n \<le> unat (sq_capacity request)" "allocated \<noteq> 0" "allocated < n"
  shows "\<exists>out k'. get_stats_end now True True allocated request k = (None, out, copied_slots allocated [] n, k')"
  using assms by (simp add: get_stats_end_def Let_def not_less)

lemma copied_slots_outside:
  assumes "a < n"
  shows "(Outside :: 'e slot) \<in> set (copied_slots a [] n) \<and>
    list_all (\<lambda>e. e = (Uninitialised :: 'e slot) \<or> e = Outside) (copied_slots a [] n)"
proof -
  have "a \<in> set [0..<n]" using assms by simp
  then show ?thesis unfolding copied_slots_def set_map list_all_iff by force
qed

lemma get_stats_v2_end_cases:
  assumes l: "live_ports hz j kp = (n, k')"
    and m: "m = length (kmod_stats k)"
  shows "\<exists>q. s2_uid_count q = of_nat m \<and> s2_port_count q = of_nat n \<and>
    s2_dropped_port_entries q = kmod_port_stats_dropped kp \<and>
    get_stats_v2_end hz j now True True True (ua, pa) request k kp =
    (if unat (s2_uid_capacity request) < m \<or> unat (s2_port_capacity request) < n \<or> ua < m \<or> pa < n
     then (Some ENOSPC, Some q, [], [], k')
     else (None, Some q, if ua \<noteq> 0 then copied_slots ua (kmod_stats k) m else [],
       if pa \<noteq> 0 then copied_slots pa (port_entries k') n else [], k'))"
  unfolding get_stats_v2_end_def Let_def prod.case l m [symmetric]
  by (intro exI conjI) (auto simp: not_less)
lemma live_ports_count: "live_ports hz jiffies k = (n, k') \<Longrightarrow> n = length (port_entries k')"
  by (auto simp: live_ports_def count_live_port_stats_def Let_def port_entries_def split: option.splits)

lemma length_port_entries: "kernel_inv k \<Longrightarrow> length (port_entries k) \<le> 65536"
  by (auto simp: port_entries_def kernel_inv_def port_table_wf_def split: option.splits
      intro: order_trans [OF length_filter_le])

lemma no_port_owned_empty:
  assumes "uid \<noteq> 0"
  shows "\<not> vpnhide_uid_owns_port jiffies None pending_empty uid port proto family address"
proof -
  have "\<not> pending_port_lookup_one jiffies pending_empty w" if "own_uid w = uid" for w
    using that assms pending_set_less [of w]
    by (auto simp: pending_port_lookup_one_def pending_empty_def pending_hit_def pending_zero_def owned_zero_def
        owned_port_equal_iff list_ex_iff)
  then show ?thesis by (simp add: vpnhide_uid_owns_port_def Let_def)
qed

lemma scast_Suc_neq: "(scast g :: u64) \<noteq> scast (g + 1)" for g :: u32
proof
  have s: "sint (scast w :: u64) = sint w" for w :: u32 by (rule sint_up_scast) (simp add: is_up)
  assume "(scast g :: u64) = scast (g + 1)"
  then have "sint g = sint (g + 1)" by (metis s)
  then have "g = g + 1" by (rule signed_word_eqI)
  then show False by simp
qed

section \<open>Properties\<close>

text \<open>
  C26: Publishing a policy is a transaction. Whatever bytes are sent, a failing call leaves the whole
  state as it was; a stale expected generation fails; a successful call publishes a well-formed
  snapshot, advances the generation, drops every claim to a port and every rate bucket of a UID that
  is not a target, and leaves the interface data alone. Two successive calls that expect the same
  generation do not both succeed.
\<close>

theorem set_policy_transaction:
  assumes "kernel_inv k" and "ioctl_set_policy alloc (Some request) user k = (r, k')"
  shows "kernel_inv k' \<and> (case r of
      Some e \<Rightarrow> k' = k
    | None \<Rightarrow> (expected_generation request = 0 \<or> expected_generation request = scast (config_generation k)) \<and>
        pred_option snapshot_wf (global_policy k') \<and> global_policy k' \<noteq> None \<and>
        config_generation k' = config_generation k + 1 \<and>
        (uid \<noteq> 0 \<longrightarrow> \<not> vpnhide_uid_owns_port jiffies (owned_ports k') (pending_ports k') uid port proto family address) \<and>
        list_all (\<lambda>b. is_target_uid_val (global_policy k') (ur_uid b)) (udp_rates k') \<and>
        global_active_vpns k' = global_active_vpns k \<and> global_spoof_ip k' = global_spoof_ip k \<and>
        (expected_generation request \<noteq> 0 \<and> expected_generation request2 = expected_generation request \<longrightarrow>
           fst (ioctl_set_policy alloc2 (Some request2) user2 k') \<noteq> None))"
proof -
  have inv: "kernel_inv k'" using set_policy.call_keeps [OF assms(1), of alloc "Some request" user] assms(2) by simp
  show ?thesis
  proof (cases r)
    case (Some e)
    then show ?thesis using inv set_policy.call_failed [of alloc "Some request" user k e] assms(2) by simp
  next
    case None
    then obtain s where s: "snapshot_wf s"
      "publish_policy_snapshot (alloc 2) s (expected_generation request) k = (None, k')"
      using set_policy_cases [of alloc "Some request" user k] assms(2) by auto
    have stale: "fst (ioctl_set_policy alloc2 (Some request2) user2 k') \<noteq> None"
      if "expected_generation request2 \<noteq> 0" "expected_generation request2 \<noteq> scast (config_generation k')"
      using set_policy_cases [of alloc2 "Some request2" user2 k'] that
      by (auto simp: publish_policy_snapshot_def publish_locked_def)
    from s(2) show ?thesis
    proof (cases rule: publish_cases)
      case (published stats)
      then show ?thesis using None inv s(1) stale scast_Suc_neq no_port_owned_empty [of uid]
        by (auto simp: vpnhide_udp_rates_prune_def is_target_uid_val_def list_all_iff)
    qed simp
  qed
qed

lemma module_zero_inv: "kernel_inv module_zero"
  by (simp add: module_zero_def kernel_inv_def pending_empty_wf stats_wf_def)

definition sample_set_policy :: policy_ioctl where
  "sample_set_policy = \<lparr>abi_version = 3, payload_size = 616, payload_ptr = 4096, expected_generation = 1\<rparr>"

theorem set_policy_transaction_witness:
  "\<exists>k'. ioctl_set_policy (\<lambda>_. True) (Some sample_set_policy) (Some sample_payload_v3) module_zero = (None, k') \<and>
     config_generation k' = 2 \<and> global_policy k' \<noteq> None \<and>
     \<not> vpnhide_uid_owns_port 7 (owned_ports k') (pending_ports k') 10050 80 0 2 (0x0100007F, 0, 0, 0) \<and>
     fst (ioctl_set_policy (\<lambda>_. True) (Some sample_set_policy) (Some sample_payload_v3) k') \<noteq> None"
proof -
  obtain s where s: "policy_snapshot_from_v3 True sample_payload_v3 = Inr s" using sample_v3_accepted by auto
  obtain k' where k: "ioctl_set_policy (\<lambda>_. True) (Some sample_set_policy) (Some sample_payload_v3) module_zero = (None, k')"
    using publish_succeeds [of 1 module_zero s]
    by (auto simp: ioctl_set_policy_def sample_set_policy_def vpnhide_apply_policy_v3_def s module_zero_def)
  from set_policy_transaction [OF module_zero_inv k, of 10050 7 80 0 2 "(0x0100007F, 0, 0, 0)" sample_set_policy
      "\<lambda>_. True" "Some sample_payload_v3"] k
  show ?thesis by (auto simp: sample_set_policy_def module_zero_def)
qed

text \<open>
  C32: The generation check does not exclude a lost update. The generation is advanced after the policy
  lock is released: when a second writer takes the lock in between, it still finds the generation it
  expects, so both writers succeed and the second silently replaces the policy of the first.
\<close>

theorem publish_race_loses_update:
  assumes "expected = scast (config_generation k)"
  shows "case publish_locked True s1 expected k of (r1, k1) \<Rightarrow>
    case publish_policy_snapshot True s2 expected k1 of (r2, k2) \<Rightarrow>
      r1 = None \<and> global_policy k1 = Some s1 \<and> r2 = None \<and> global_policy (next_generation k2) = Some s2"
  using assms
  by (simp add: publish_policy_snapshot_def publish_locked_def kmod_stats_reconcile_def next_generation_def Let_def)

theorem publish_race_witness:
  "case publish_locked True sample_policy 1 module_zero of (r1, k1) \<Rightarrow>
    case publish_policy_snapshot True (sample_policy\<lparr>kmod_uids := []\<rparr>) 1 k1 of (r2, k2) \<Rightarrow>
      r1 = None \<and> global_policy k1 = Some sample_policy \<and> r2 = None \<and>
      global_policy (next_generation k2) = Some (sample_policy\<lparr>kmod_uids := []\<rparr>)"
  by (rule publish_race_loses_update) (simp add: module_zero_def)

text \<open>
  C27: A version 2 statistics snapshot is exact under every interleaving. Whatever was
  allocated and whatever happened to the two tables before each was copied, the caller is given either all counters
  and all live port entries as they were at their copy, with their numbers, or the two numbers needed
  and ENOSPC; uninitialised memory or memory behind the buffers never reaches user space.
\<close>

theorem stats_v2_exact:
  assumes "kernel_inv k2" and "kernel_inv k3"
    and "get_stats_v2_end hz j2 now True True True allocated request k2 k3 = (r, out, uids, ports, k')"
  shows "(r = None \<and> uids = map Written (kmod_stats k2) \<and> ports = map Written (port_entries k') \<or>
      r = Some ENOSPC \<and> uids = [] \<and> ports = []) \<and>
    map_option (\<lambda>q. (unat (s2_uid_count q), unat (s2_port_count q), s2_dropped_port_entries q)) out =
      Some (length (kmod_stats k2), length (port_entries k'), kmod_port_stats_dropped k3)"
proof -
  obtain ua pa where a: "allocated = (ua, pa)" by fastforce
  obtain n k where l: "live_ports hz j2 k3 = (n, k)" by fastforce
  have n: "n = length (port_entries k)" using live_ports_count [OF l] .
  have inv: "kernel_inv k" using live_ports_inv [of k3 hz j2] l assms(2) by simp
  have "length (kmod_stats k2) < 2 ^ 32" "n < 2 ^ 32"
    using kernel_invD(4) [OF assms(1)] length_port_entries [OF inv] n by simp_all
  then have u: "unat (of_nat (length (kmod_stats k2)) :: u32) = length (kmod_stats k2)"
    "unat (of_nat n :: u32) = n" by (simp_all add: unat_of_nat_32)
  from get_stats_v2_end_cases [OF l refl, of k2 now ua pa request] obtain q where
    q: "s2_uid_count q = of_nat (length (kmod_stats k2))" "s2_port_count q = of_nat n"
      "s2_dropped_port_entries q = kmod_port_stats_dropped k3"
    and res: "get_stats_v2_end hz j2 now True True True (ua, pa) request k2 k3 =
      (if unat (s2_uid_capacity request) < length (kmod_stats k2) \<or> unat (s2_port_capacity request) < n \<or>
          ua < length (kmod_stats k2) \<or> pa < n
       then (Some ENOSPC, Some q, [], [], k)
       else (None, Some q, if ua \<noteq> 0 then copied_slots ua (kmod_stats k2) (length (kmod_stats k2)) else [],
         if pa \<noteq> 0 then copied_slots pa (port_entries k) n else [], k))" by blast
  have k: "k' = k" "out = Some q" using assms(3) res a by (auto split: if_splits)
  show ?thesis
  proof (cases "unat (s2_uid_capacity request) < length (kmod_stats k2) \<or> unat (s2_port_capacity request) < n \<or>
      ua < length (kmod_stats k2) \<or> pa < n")
    case True
    then show ?thesis using assms(3) res a k q u n by simp
  next
    case False
    then have c: "copied_slots ua (kmod_stats k2) (length (kmod_stats k2)) = map Written (kmod_stats k2)"
      "copied_slots pa (port_entries k) n = map Written (port_entries k)"
      using n by (simp_all add: copied_slots_written)
    have z: "ua = 0 \<Longrightarrow> kmod_stats k2 = []" "pa = 0 \<Longrightarrow> port_entries k = []" using False n by simp_all
    from False res assms(3) a have "r = None" "uids = (if ua \<noteq> 0 then map Written (kmod_stats k2) else [])"
      "ports = (if pa \<noteq> 0 then map Written (port_entries k) else [])" using c by auto
    then show ?thesis using z k q u n by simp
  qed
qed

text \<open>
  C33: A version 1 statistics snapshot is not safe under concurrency. When counters were added between
  the sizing and the copy and the caller's capacity has room for them, the call succeeds, but none of
  the entries it copies was written by it, and the copy runs past the end of the kernel buffer.
\<close>

theorem stats_v1_reads_outside:
  assumes "get_stats_begin True request k1 = Inr allocated" and "allocated \<noteq> 0"
    and "allocated < length (kmod_stats k2)" and "length (kmod_stats k2) \<le> unat (sq_capacity request)"
  shows "case get_stats_end now True True allocated request k2 of (r, out, entries, k') \<Rightarrow>
    r = None \<and> length entries = length (kmod_stats k2) \<and> list_all (\<lambda>e. e = Uninitialised \<or> e = Outside) entries \<and>
    Outside \<in> set entries"
proof -
  from get_stats_end_grown [OF refl assms(4,2,3), of now] obtain out k' where
    "get_stats_end now True True allocated request k2 =
      (None, out, copied_slots allocated [] (length (kmod_stats k2)), k')" by blast
  then show ?thesis using copied_slots_outside [OF assms(3), where 'e = uid_stats] by simp
qed

definition sample_counting :: kernel_state where
  "sample_counting = module_zero\<lparr>kmod_stats := [zero_stats 10001], kmod_stats_capacity := 8\<rparr>"

definition sample_stats_request :: stats_request where
  "sample_stats_request = \<lparr>sq_capacity = 8, sq_count = 0, sq_sequence = 0, sq_monotonic_ns = 0, sq_entries_ptr = 4096\<rparr>"

theorem stats_v1_reads_outside_witness:
  "case get_stats_end 5 True True 1 sample_stats_request
      (sample_counting\<lparr>kmod_stats := record_kmod_intercept 8 [zero_stats 10001] 10002 0\<rparr>) of (r, out, entries, k') \<Rightarrow>
    r = None \<and> length entries = 2 \<and> Outside \<in> set entries"
proof -
  have "length (record_kmod_intercept 8 [zero_stats 10001] 10002 0) = 2"
    by (simp add: record_kmod_intercept_def uid_protected_def search_def bsearch.simps insert_at_def)
  then show ?thesis
    using stats_v1_reads_outside [of sample_stats_request sample_counting 1
        "sample_counting\<lparr>kmod_stats := record_kmod_intercept 8 [zero_stats 10001] 10002 0\<rparr>" 5]
    by (auto simp: sample_stats_request_def sample_counting_def get_stats_begin_def Let_def)
qed

definition sample_request_v2 :: stats_request_v2 where
  "sample_request_v2 = \<lparr>s2_uid_capacity = 8, s2_uid_count = 0, s2_port_capacity = 8, s2_port_count = 0, s2_sequence = 0,
     s2_monotonic_ns = 0, s2_uid_entries_ptr = 4096, s2_port_entries_ptr = 8192, s2_dropped_port_entries = 0\<rparr>"

theorem stats_v2_exact_witness:
  "\<exists>out uids ports k'. get_stats_v2_end 250 0 5 True True True (1, 0) sample_request_v2 sample_counting (next_sequence sample_counting) =
     (None, out, uids, ports, k') \<and> uids = [Written (zero_stats 10001)]"
proof -
  have inv: "kernel_inv sample_counting"
    using module_zero_inv by (simp add: sample_counting_def kernel_inv_def stats_wf_def)
  obtain r out uids ports k' where e: "get_stats_v2_end 250 0 5 True True True (1, 0) sample_request_v2 sample_counting (next_sequence sample_counting) =
      (r, out, uids, ports, k')" by (metis prod_cases5)
  then have "r = None"
    by (simp add: get_stats_v2_end_def sample_request_v2_def sample_counting_def module_zero_def live_ports_def next_sequence_def Let_def)
  with e inv stats_v2_exact [OF inv _ e] show ?thesis by (simp add: sample_counting_def)
qed

end
