(* ===== verification/Kernel_Device.thy ===== *)
theory Kernel_Device
  imports Kernel_State
begin

text \<open>
  The control device as a file (kmod/main.c): reading the configuration text, writing statistics and
  commands, loading and unloading the module, and the module as a transition system over all its
  entry points. A read releases the policy lock before it notes the generation it has shown, so the
  states at its three points are separate arguments.
\<close>

section \<open>Formatted output\<close>

definition digit :: "nat \<Rightarrow> char" where
  "digit d = char_of (48 + d)"

fun dec :: "nat \<Rightarrow> string" where
  "dec n = (if n < 10 then [digit n] else dec (n div 10) @ [digit (n mod 10)])"

declare dec.simps [simp del]

definition fmt_u :: "u32 \<Rightarrow> string" where
  "fmt_u w = dec (unat w)"

definition fmt_d :: "int \<Rightarrow> string" where
  "fmt_d i = (if i < 0 then CHR ''-'' # dec (nat (- i)) else dec (nat i))"

text \<open>\<^verbatim>\<open>offset += scnprintf(buf + offset, capacity - offset, ...)\<close>: what fits before the terminator.\<close>

definition scnprintf :: "nat \<Rightarrow> string \<Rightarrow> string \<Rightarrow> string" where
  "scnprintf capacity buf s = buf @ take (capacity - length buf - 1) s"

section \<open>Reading\<close>

text \<open>
  Names are printed with \<^verbatim>\<open>%s\<close>, which stops at the first zero byte: for a name that fills its array it
  goes on into what follows, the next array or memory that is an argument here.
\<close>

record read_env =
  after_prefixes :: string
  after_vpn :: "nat \<Rightarrow> string"

definition prefix_text :: "read_env \<Rightarrow> policy_snapshot \<Rightarrow> nat \<Rightarrow> string" where
  "prefix_text env s i =
     c_string (map (\<lambda>b. char_of (unat b)) (drop (MAX_IFACE_LEN * i) (iface_prefixes s)) @ after_prefixes env)"

definition vpn_text :: "read_env \<Rightarrow> active_vpn list \<Rightarrow> nat \<Rightarrow> string" where
  "vpn_text env vpns i = c_string (vpn_name (vpns ! i) @ after_vpn env i)"

definition snapshot_capacity :: "policy_snapshot option \<Rightarrow> nat" where
  "snapshot_capacity p = 1024 + (case p of
     None \<Rightarrow> 0
   | Some s \<Rightarrow> length (lsposed_uids s) * 16 + length (app_hook_masks s) * 32 +
       unat (iface_count s) * (MAX_IFACE_LEN + 1) + MAX_ACTIVE_VPNS * (MAX_IFACE_LEN + 1))"

definition nl :: string where
  "nl = [newline]"

text \<open>The pieces one read prints, in order.\<close>

definition config_pieces :: "read_env \<Rightarrow> kernel_state \<Rightarrow> string list" where
  "config_pieces env k =
     (let s = global_policy k in
      [''version_code: '' @ fmt_u VPNHIDE_VERSION_CODE @ nl,
       ''java_hook_mask: '' @ fmt_u (vpnhide_java_hooks_mask s) @ nl,
       ''java_stats_clear_gen: '' @ fmt_d (sint (java_stats_clear_generation k)) @ nl,
       ''stats_mode: cumulative_session'' @ nl,
       ''debug_enabled: '' @ (if vpnhide_debug_is_enabled s then ''1'' else ''0'') @ nl,
       ''lsposed_list_mode: '' @
         (case s of Some p \<Rightarrow> if lsposed_match_mode p = VPNHIDE_MATCH_EXCLUDE then ''SHOW'' else ''HIDE''
                  | None \<Rightarrow> ''HIDE'') @ nl,
       ''lsposed_uids:''] @
      (case s of None \<Rightarrow> [] | Some p \<Rightarrow> map (\<lambda>u. '' '' @ fmt_u u) (lsposed_uids p)) @
      [nl, ''iface_prefixes:''] @
      (case s of None \<Rightarrow> [] | Some p \<Rightarrow> map (\<lambda>i. '' '' @ prefix_text env p i) [0..<unat (iface_count p)]) @
      [nl, ''active_vpn_ifaces:''] @
      (case global_active_vpns k of None \<Rightarrow> [] | Some vpns \<Rightarrow> map (\<lambda>i. '' '' @ vpn_text env vpns i) [0..<length vpns]) @
      [nl, ''app_java_hook_mask:''] @
      (case s of None \<Rightarrow> [] | Some p \<Rightarrow>
         map (\<lambda>m. '' '' @ fmt_u (mask_uid m) @ '':'' @ fmt_u (java_mask m))
           (filter (\<lambda>m. has_java_override m \<noteq> 0) (app_hook_masks p))) @
      [nl, ''cover_iface: '' @ (if cover_ifname k = [] then ''none'' else cover_ifname k) @ nl, nl])"

definition config_text :: "read_env \<Rightarrow> kernel_state \<Rightarrow> string" where
  "config_text env k = foldl (scnprintf (snapshot_capacity (global_policy k))) [] (config_pieces env k)"

record dev_reader =
  rd_generation :: u64
  rd_buf :: string
  rd_len :: nat
  rd_pos :: nat

definition vpnhide_dev_open :: "bool \<Rightarrow> errno + dev_reader" where
  "vpnhide_dev_open alloc_ok =
     (if alloc_ok then Inr \<lparr>rd_generation = 0, rd_buf = [], rd_len = 0, rd_pos = 0\<rparr> else Inl ENOMEM)"

text \<open>
  \<open>k0\<close> is the state at the first check, \<open>k1\<close> while the text is built under the policy lock, \<open>k2\<close> when
  the generation is noted. \<open>woken\<close> tells whether a wait ended because its condition became true, and
  not by a signal.
\<close>

definition vpnhide_dev_read :: "read_env \<Rightarrow> uid_t \<Rightarrow> bool \<Rightarrow> bool \<Rightarrow> bool \<Rightarrow> bool \<Rightarrow> kernel_state \<Rightarrow> kernel_state \<Rightarrow>
    kernel_state \<Rightarrow> nat \<Rightarrow> dev_reader option \<Rightarrow> (errno + string) \<times> dev_reader option" where
  "vpnhide_dev_read env uid nonblock woken alloc_ok copy_ok k0 k1 k2 num reader_opt =
     (case reader_opt of
        None \<Rightarrow> (Inl EINVAL, None)
      | Some reader \<Rightarrow>
          let copy = (\<lambda>r. let chunk = take num (drop (rd_pos r) (take (rd_len r) (rd_buf r))) in
                if copy_ok then (Inr chunk, Some (r\<lparr>rd_pos := rd_pos r + length chunk\<rparr>))
                else (Inl EFAULT, Some r)) in
          if rd_pos reader < rd_len reader then copy reader
          else
            let uptodate = (rd_generation reader \<ge> scast (config_generation k0)) in
            if uptodate \<and> uid \<noteq> 1000 then (Inr [], Some reader)
            else if uptodate \<and> nonblock then (Inl EAGAIN, Some reader)
            else if uptodate \<and> \<not> woken then (Inl ERESTARTSYS, Some reader)
            else if \<not> alloc_ok then (Inl ENOMEM, Some (reader\<lparr>rd_buf := []\<rparr>))
            else
              let text = config_text env k1 in
              copy \<lparr>rd_generation = scast (config_generation k2), rd_buf = text, rd_len = length text, rd_pos = 0\<rparr>)"

section \<open>Writing\<close>

definition is_space :: "char \<Rightarrow> bool" where
  "is_space c \<longleftrightarrow> c = CHR 0x20 \<or> c = CHR 0x09 \<or> c = CHR 0x0A \<or> c = CHR 0x0B \<or> c = CHR 0x0C \<or> c = CHR 0x0D \<or> c = CHR 0xA0"

definition is_digit :: "char \<Rightarrow> bool" where
  "is_digit c \<longleftrightarrow> 48 \<le> (of_char c :: nat) \<and> (of_char c :: nat) \<le> 57"

definition undec :: "string \<Rightarrow> nat" where
  "undec ds = foldl (\<lambda>n c. n * 10 + (of_char c - 48)) 0 ds"

text \<open>\<^verbatim>\<open>%u\<close>: white space is skipped, at least one digit is needed, and the value is truncated to 32 bits.\<close>

definition scan_u :: "string \<Rightarrow> (u32 \<times> string) option" where
  "scan_u s =
     (let t = dropWhile is_space s; ds = takeWhile is_digit t in
      if ds = [] then None else Some (of_nat (undec ds), drop (length ds) t))"

definition scan_char :: "char \<Rightarrow> string \<Rightarrow> string option" where
  "scan_char c s = (case s of x # r \<Rightarrow> if x = c then Some r else None | [] \<Rightarrow> None)"

text \<open>\<^verbatim>\<open>%u;%127[^;];%u\<close> and \<^verbatim>\<open>%u;%u\<close>.\<close>

definition scan_hook_stat :: "string \<Rightarrow> (u32 \<times> string \<times> u32) option" where
  "scan_hook_stat s =
     Option.bind (scan_u s) (\<lambda>(uid, s). Option.bind (scan_char (CHR '';'') s) (\<lambda>s.
       let hook = take 127 (takeWhile (\<lambda>c. c \<noteq> CHR '';'') s) in
       if hook = [] then None
       else Option.bind (scan_char (CHR '';'') (drop (length hook) s)) (\<lambda>s.
         Option.bind (scan_u s) (\<lambda>(n, s). Some (uid, hook, n)))))"

definition scan_plain_stat :: "string \<Rightarrow> (u32 \<times> u32) option" where
  "scan_plain_stat s =
     Option.bind (scan_u s) (\<lambda>(uid, s). Option.bind (scan_char (CHR '';'') s) (\<lambda>s.
       Option.bind (scan_u s) (\<lambda>(n, s). Some (uid, n))))"

definition stat_of_line :: "string \<Rightarrow> (uid_t \<times> string \<times> u64) option" where
  "stat_of_line line =
     (case scan_hook_stat line of
        Some (uid, hook, n) \<Rightarrow>
          if n > 0 then Some (uid, hook, ucast n)
          else (case scan_plain_stat line of
              Some (uid, n) \<Rightarrow> if n > 0 then Some (uid, [], ucast n) else None | None \<Rightarrow> None)
      | None \<Rightarrow> (case scan_plain_stat line of
            Some (uid, n) \<Rightarrow> if n > 0 then Some (uid, [], ucast n) else None | None \<Rightarrow> None))"

function stat_lines :: "string \<Rightarrow> string list" where
  "stat_lines s =
     (if s = [] then []
      else takeWhile (\<lambda>c. c \<noteq> newline) s # stat_lines (drop 1 (dropWhile (\<lambda>c. c \<noteq> newline) s)))"
  by pat_completeness auto
termination
proof (relation "measure length", simp)
  fix s :: string assume "s \<noteq> []"
  then show "(drop 1 (dropWhile (\<lambda>c. c \<noteq> newline) s), s) \<in> measure length"
    using length_dropWhile_le [of "\<lambda>c. c \<noteq> newline" s] by (cases s) (auto simp: less_Suc_eq_le intro: order_trans)
qed

declare stat_lines.simps [simp del]

definition record_line :: "nat \<Rightarrow> uid_stats list \<Rightarrow> string \<Rightarrow> uid_stats list" where
  "record_line capacity stats line =
     (case stat_of_line line of
        Some (uid, hook, n) \<Rightarrow> record_java_stat capacity stats uid hook n
      | None \<Rightarrow> stats)"

definition write_stats :: "string \<Rightarrow> kernel_state \<Rightarrow> kernel_state" where
  "write_stats s k =
     (let text = take 4095 (c_string s) in
      k\<lparr>java_stats_buf := map (\<lambda>c. if c = newline then NUL else c) text,
        kmod_stats := foldl (record_line (kmod_stats_capacity k)) (kmod_stats k) (stat_lines text)\<rparr>)"

definition write_cover :: "string \<Rightarrow> kernel_state \<Rightarrow> kernel_state" where
  "write_cover s k =
     (let val = c_string s;
          val = (if val \<noteq> [] \<and> List.last val = newline then butlast val else val) in
      next_generation (k\<lparr>cover_ifname := (if val = [] \<or> val = ''none'' then [] else take 15 val)\<rparr>))"

text \<open>\<^verbatim>\<open>java_stats_buf[0] = '\0'\<close>: the rest of the array keeps its bytes.\<close>

definition clear_first :: "string \<Rightarrow> string" where
  "clear_first buf = (case buf of [] \<Rightarrow> [] | _ # rest \<Rightarrow> NUL # rest)"

definition vpnhide_dev_write :: "bool \<Rightarrow> string option \<Rightarrow> nat \<Rightarrow> kernel_state \<Rightarrow> (errno + nat) \<times> kernel_state" where
  "vpnhide_dev_write alloc_ok user num k =
     (if num > 4096 then (Inl EINVAL, k)
      else if \<not> alloc_ok then (Inl ENOMEM, k)
      else case user of
        None \<Rightarrow> (Inl EFAULT, k)
      | Some kbuf \<Rightarrow>
          (Inr num,
           if strncmp_eq 6 kbuf ''stats:'' then write_stats (drop 6 kbuf) k
           else if strncmp_eq 7 kbuf ''status:'' then k\<lparr>java_status_buf := take 255 (c_string (drop 7 kbuf))\<rparr>
           else if strcmp_eq kbuf ''clear_stats'' then
             next_generation (k\<lparr>java_stats_buf := clear_first (java_stats_buf k), 
               java_stats_clear_generation := java_stats_clear_generation k + 1\<rparr>)
           else if strncmp_eq 12 kbuf ''cover_iface:'' then write_cover (drop 12 kbuf) k
           else k))"

section \<open>Loading and unloading\<close>

text \<open>The probe table: symbol and index of the probe it is a fallback for.\<close>

definition probes :: "(string \<times> int) list" where
  "probes =
     [(''dev_ioctl'', -1), (''inet_ioctl'', -1), (''sock_ioctl'', -1), (''rtnl_fill_ifinfo'', -1),
      (''inet6_fill_ifaddr'', -1), (''inet_fill_ifaddr'', -1), (''fib_route_seq_show'', -1), (''fib_dump_info'', -1),
      (''fib_nl_fill_rule'', -1), (''rt6_fill_node'', -1), (''rt_fill_info'', -1), (''__arm64_sys_setsockopt'', -1),
      (''__arm64_sys_getsockopt'', -1), (''sk_getsockopt'', 13), (''sock_getsockopt'', 13),
      (''sock_common_getsockopt'', 13), (''ip_cmsg_recv_offset'', -1), (''ip6_datagram_recv_common_ctl'', -1),
      (''ip6_datagram_recv_ctl'', 17), (''__arm64_sys_connect'', -1), (''__arm64_sys_bind'', -1),
      (''security_socket_connect'', 19), (''inet_bind'', 20), (''inet_listen'', -1), (''inet6_bind'', -1),
      (''__arm64_sys_getsockname'', -1), (''inet_getname'', 25), (''inet6_getname'', 25), (''__arm64_sys_bpf'', -1),
      (''dev_seq_show'', -1), (''if6_seq_show'', -1), (''udp_sendmsg'', -1), (''udpv6_sendmsg'', -1),
      (''fib_trie_seq_show'', -1), (''tc_fill_qdisc'', -1), (''ipv6_route_seq_show'', -1)]"

definition probe_skipped :: "bool list \<Rightarrow> nat \<Rightarrow> bool" where
  "probe_skipped registered i \<longleftrightarrow>
     fst (probes ! i) = ''sock_getsockopt'' \<and>
       (case filter (\<lambda>j. fst (probes ! j) = ''sk_getsockopt'') [0..<length probes] of
          [] \<Rightarrow> False | j # _ \<Rightarrow> registered ! j) \<or>
     snd (probes ! i) \<ge> 0 \<and> registered ! nat (snd (probes ! i))"

text \<open>\<open>krp i\<close> is the return value of \<^verbatim>\<open>register_kretprobe\<close> for probe \<open>i\<close>.\<close>

definition register_probe :: "(nat \<Rightarrow> int) \<Rightarrow> bool list \<Rightarrow> nat \<Rightarrow> bool list" where
  "register_probe krp registered i =
     (if probe_skipped registered i then registered
      else if krp i < 0 then registered else registered[i := True])"

definition register_probes :: "(nat \<Rightarrow> int) \<Rightarrow> bool list" where
  "register_probes krp = foldl (register_probe krp) (replicate (length probes) False) [0..<length probes]"

definition vpnhide_init :: "bool \<Rightarrow> u64 \<Rightarrow> (nat \<Rightarrow> int) \<Rightarrow> int \<Rightarrow> kernel_state \<Rightarrow> call_result \<times> bool list" where
  "vpnhide_init alloc_ok random krp misc_ret k =
     (if \<not> alloc_ok then ((Some ENOMEM, k), replicate (length probes) False)
      else
        let k' = k\<lparr>kmod_port_stats := Some empty_port_slots,
                   kmod_stats_session_id := (if random = 0 then 1 else random)\<rparr> in
        ((None, if misc_ret \<noteq> 0 then k'\<lparr>kmod_port_stats := None\<rparr> else k'), register_probes krp))"

definition vpnhide_exit :: "kernel_state \<Rightarrow> kernel_state" where
  "vpnhide_exit k = k\<lparr>global_policy := None, owned_ports := None, port_event_ctx := None, kmod_stats := [],
     kmod_port_stats := None, udp_rates := [], global_active_vpns := None, g_vpn_name_cache := None,
     global_spoof_ip := None\<rparr>"

section \<open>The module as a transition system\<close>

text \<open>Every entry point that changes the state, with arbitrary arguments and outcomes of the environment.\<close>

inductive kernel_step :: "kernel_state \<Rightarrow> kernel_state \<Rightarrow> bool" where
  ioctl: "kernel_step k (snd (snd (handle_vpnhide_ioctl env cmd k)))"
| written: "kernel_step k (snd (vpnhide_dev_write alloc_ok user num k))"
| sized: "kernel_step k (snd (get_stats_v2_begin hz jiffies au ap request k))"
| sequence: "kernel_step k (next_sequence k)"
| copied: "kernel_step k (snd (snd (snd (snd (get_stats_v2_end hz jiffies now cu cp cr allocated request2 k0 k)))))"
| publish: "snapshot_wf s \<Longrightarrow> kernel_step k (snd (publish_locked alloc_ok s expected k))"
| generation: "kernel_step k (next_generation k)"
| intercept: "kernel_step k (k\<lparr>kmod_stats := record_kmod_intercept (kmod_stats_capacity k) (kmod_stats k) uid type\<rparr>)"
| port_intercept: "record_port_intercept jiffies (kmod_stats_capacity k) (kmod_stats k)
      (map_option (\<lambda>slots. (slots, kmod_port_stats_dropped k)) (kmod_port_stats k)) uid port proto = (stats, ports) \<Longrightarrow>
    kernel_step k (k\<lparr>kmod_stats := stats, kmod_port_stats := map_option fst ports,
      kmod_port_stats_dropped := (case ports of None \<Rightarrow> kmod_port_stats_dropped k | Some td \<Rightarrow> snd td)\<rparr>)"
| bound_socket: "kernel_step k (k\<lparr>pending_ports :=
      fst (vpnhide_record_bound_socket hz jiffies (global_policy k) (port_event_ctx k \<noteq> None) uid sk (pending_ports k))\<rparr>)"
| udp_send: "kernel_step k (k\<lparr>udp_rates := snd (udp_rate_limit_exceeded now alloc_ok uid (udp_rates k))\<rparr>)"

inductive kernel_reachable :: "kernel_state \<Rightarrow> bool" where
  loaded: "vpnhide_init True random krp misc_ret module_zero = ((None, k), probes_on) \<Longrightarrow> kernel_reachable k"
| stepped: "kernel_reachable k \<Longrightarrow> kernel_step k k' \<Longrightarrow> kernel_reachable k'"

inductive_cases kernel_stepE: "kernel_step k k'"

section \<open>Decimal numbers\<close>

lemma dec_induct [case_names small large]:
  assumes "\<And>n. n < 10 \<Longrightarrow> P n" "\<And>n. 10 \<le> n \<Longrightarrow> P (n div 10) \<Longrightarrow> P n"
  shows "P (n :: nat)"
  by (induction n rule: less_induct) (metis assms div_less_dividend not_less one_less_numeral_iff order_less_le_trans semiring_norm(76) zero_less_numeral)



lemma dec_not_Nil [simp]: "dec n \<noteq> []"
  by (simp add: dec.simps [of n])



lemma length_dec: "n < 10 ^ Suc k \<Longrightarrow> length (dec n) \<le> Suc k"
proof (induction n arbitrary: k rule: dec_induct)
  case (small n)
  then show ?case by (simp add: dec.simps [of n])
next
  case (large n)
  then obtain k' where "k = Suc k'" by (cases k) auto
  with large have "length (dec (n div 10)) \<le> Suc k'" by (intro large.IH) (simp add: div_less_iff_less_mult mult.commute)
  with large \<open>k = Suc k'\<close> show ?case by (simp add: dec.simps [of n])
qed

section \<open>The invariant holds in every reachable state\<close>

lemma next_generation_inv [simp]: "kernel_inv (next_generation k) = kernel_inv k"
  by (simp add: next_generation_def kernel_inv_def)

lemma publish_locked_inv:
  assumes "kernel_inv k" "snapshot_wf s"
  shows "kernel_inv (snd (publish_locked a s expected k))"
  using publish_inv [OF assms, of a expected] by (auto simp: publish_policy_snapshot_def split: prod.splits option.splits)

lemma record_line_wf: "stats_wf c st \<Longrightarrow> stats_wf c (record_line c st line)"
  by (auto simp: record_line_def record_java_stat_wf split: option.splits)

lemma record_lines_wf: "stats_wf c st \<Longrightarrow> stats_wf c (foldl (record_line c) st ls)"
  by (induction ls arbitrary: st) (simp_all add: record_line_wf)

lemma write_inv:
  assumes "kernel_inv k"
  shows "kernel_inv (snd (vpnhide_dev_write a user n k))"
proof -
  have "kernel_inv (write_stats s k)" for s
    using assms record_lines_wf [of "kmod_stats_capacity k"] by (simp add: write_stats_def kernel_inv_def Let_def)
  moreover have "kernel_inv (k\<lparr>cover_ifname := x\<rparr>)" if "length x < 16" for x
    using assms that by (simp add: kernel_inv_def)
  then have "kernel_inv (write_cover s k)" for s
    unfolding write_cover_def Let_def next_generation_inv by (auto simp: min_def)
  ultimately show ?thesis
    using assms by (auto simp: vpnhide_dev_write_def kernel_inv_def next_generation_def split: option.splits if_splits)
qed

lemma port_intercept_wf:
  assumes "record_port_intercept jiffies c stats ports uid port proto = (stats', ports')"
    and "stats_wf c stats" "pred_option (\<lambda>td. port_table_wf (fst td)) ports"
  shows "stats_wf c stats' \<and> pred_option (\<lambda>td. port_table_wf (fst td)) ports'"
proof -
  have "port_table_wf (fst (port_table_record jiffies td k))" if "port_table_wf (fst td)" for td k
  proof -
    obtain tb d tb' d' where "td = (tb, d)" "port_table_record jiffies (tb, d) k = (tb', d')" by (metis surj_pair)
    with that port_table_record_spec [of tb jiffies d k tb' d'] show ?thesis by simp
  qed
  with assms record_kmod_intercept_spec(1) [OF assms(2), of uid 6] show ?thesis
    by (auto simp: record_port_intercept_def Let_def split: option.splits if_splits)
qed

lemma step_inv:
  assumes "kernel_step k k'" "kernel_inv k"
  shows "kernel_inv k'"
  using assms
proof (cases rule: kernel_step.cases)
  case (ioctl env cmd)
  then show ?thesis using ioctl_keeps_inv [OF assms(2)] by simp
next
  case (written alloc_ok user num)
  then show ?thesis using write_inv [OF assms(2)] by simp
next
  case (sized hz jiffies au ap request)
  then show ?thesis using assms(2) live_ports_inv get_stats_v2_begin_state
    by (metis prod.collapse)
next
  case sequence
  then show ?thesis using assms(2) by simp
next
  case (copied hz jiffies now cu cp cr allocated request2 k0)
  then show ?thesis using assms(2) live_ports_inv get_stats_v2_state
    by (metis prod.collapse sequence_inv)
next
  case (publish s alloc_ok expected)
  then show ?thesis using publish_locked_inv [OF assms(2)] by simp
next
  case (intercept uid type)
  then show ?thesis using assms(2) record_kmod_intercept_spec(1) by (simp add: kernel_inv_def)
next
  case (port_intercept jiffies uid port proto stats ports)
  then show ?thesis
    using assms(2) port_intercept_wf [OF port_intercept(2)]
    by (auto simp: kernel_inv_def option.pred_map comp_def split: option.splits)
next
  case (bound_socket hz jiffies uid sk)
  then show ?thesis using assms(2) record_bound_socket_wf by (simp add: kernel_inv_def)
next
  case generation
  then show ?thesis using assms(2) by simp
next
  case (udp_send now alloc_ok uid)
  then show ?thesis using assms(2) by (simp add: kernel_inv_def)
qed

lemma init_inv: "vpnhide_init a random krp m module_zero = ((r, k), on) \<Longrightarrow> kernel_inv k"
  using module_zero_inv
  by (auto simp: vpnhide_init_def Let_def kernel_inv_def empty_port_slots_wf split: if_splits)

lemma reachable_inv: "kernel_reachable k \<Longrightarrow> kernel_inv k"
  by (induction rule: kernel_reachable.induct) (auto dest: init_inv step_inv)

section \<open>The text fits the buffer\<close>

lemma scnprintf_fits: "length buf + length s < capacity \<Longrightarrow> scnprintf capacity buf s = buf @ s"
  by (simp add: scnprintf_def)

lemma scnprintf_pieces:
  "length buf + length (concat ps) < capacity \<Longrightarrow> foldl (scnprintf capacity) buf ps = buf @ concat ps"
  by (induction ps arbitrary: buf) (simp_all add: scnprintf_fits)

lemma length_concat_map_le:
  "(\<And>x. x \<in> set xs \<Longrightarrow> length (f x) \<le> c) \<Longrightarrow> length (concat (map f xs)) \<le> c * length xs"
  by (induction xs) (auto simp: add_mono)

lemma length_fmt_u: "length (fmt_u w) \<le> 10"
  using length_dec [of "unat w" 9] unat_less_32 [of w] by (simp add: fmt_u_def)

lemma length_fmt_d: "length (fmt_d (sint (w :: u32))) \<le> 11"
proof -
  have "- (2 ^ 31) \<le> sint w" "sint w < 2 ^ 31" using sint_range_size [of w] by (simp_all add: word_size)
  then have "nat \<bar>sint w\<bar> < 10 ^ Suc 9" by simp
  from length_dec [OF this] show ?thesis by (auto simp: fmt_d_def abs_if split: if_splits)
qed

lemma length_c_string_NUL:
  assumes "NUL \<in> set (take n xs)"
  shows "length (c_string (xs @ ys)) < n"
proof -
  from split_list_first [OF assms] obtain a b where
    ab: "take n xs = a @ NUL # b" "NUL \<notin> set a" by blast
  have "xs @ ys = a @ NUL # (b @ drop n xs @ ys)" using append_take_drop_id [of n xs] ab(1) by (metis append.assoc append_Cons)
  then have "c_string (xs @ ys) = a" using ab(2) by (simp only: c_string_append_NUL) (rule c_string_id)
  moreover have "length (take n xs) \<le> n" by simp
  ultimately show ?thesis using ab(1) by simp
qed

text \<open>What user space must have sent: names with their terminator inside their array.\<close>

definition names_terminated :: "kernel_state \<Rightarrow> bool" where
  "names_terminated k \<longleftrightarrow>
     pred_option (\<lambda>s. list_all (\<lambda>i. 0 \<in> set (take MAX_IFACE_LEN (drop (MAX_IFACE_LEN * i) (iface_prefixes s))))
       [0..<unat (iface_count s)]) (global_policy k) \<and>
     pred_option (list_all (\<lambda>v. NUL \<in> set (take MAX_IFACE_LEN (vpn_name v)))) (global_active_vpns k)"

lemma length_prefix_text:
  assumes "0 \<in> set (take 16 (drop (16 * i) (iface_prefixes s)))"
  shows "length (prefix_text env s i) \<le> 16"
proof -
  let ?f = "\<lambda>b :: u8. char_of (unat b) :: char"
  have "NUL = ?f 0" by (simp add: NUL_def char_of_def)
  then have "NUL \<in> set (take 16 (map ?f (drop (16 * i) (iface_prefixes s))))"
    using assms by (auto simp: take_map image_iff intro!: bexI [of _ 0])
  from length_c_string_NUL [OF this] show ?thesis by (simp add: prefix_text_def less_imp_le)
qed

lemma length_vpn_text:
  assumes "list_all (\<lambda>v. NUL \<in> set (take 16 (vpn_name v))) vpns" "i < length vpns"
  shows "length (vpn_text env vpns i) \<le> 16"
  using assms length_c_string_NUL [of 16 "vpn_name (vpns ! i)" "after_vpn env i"]
  by (simp add: vpn_text_def list_all_length less_imp_le)

lemma pieces_length:
  assumes inv: "kernel_inv k" and nt: "names_terminated k"
  shows "length (concat (config_pieces env k)) < snapshot_capacity (global_policy k)"
proof -
  let ?s = "global_policy k"
  let ?L = "case ?s of None \<Rightarrow> [] | Some p \<Rightarrow> map (\<lambda>u. '' '' @ fmt_u u) (lsposed_uids p)"
  let ?I = "case ?s of None \<Rightarrow> [] | Some p \<Rightarrow> map (\<lambda>i. '' '' @ prefix_text env p i) [0..<unat (iface_count p)]"
  let ?V = "case global_active_vpns k of None \<Rightarrow> [] | Some vpns \<Rightarrow> map (\<lambda>i. '' '' @ vpn_text env vpns i) [0..<length vpns]"
  let ?M = "case ?s of None \<Rightarrow> [] | Some p \<Rightarrow> map (\<lambda>m. '' '' @ fmt_u (mask_uid m) @ '':'' @ fmt_u (java_mask m))
      (filter (\<lambda>m. has_java_override m \<noteq> 0) (app_hook_masks p))"
  have l: "length (concat ?L) \<le> (case ?s of None \<Rightarrow> 0 | Some p \<Rightarrow> 11 * length (lsposed_uids p))"
    using length_fmt_u by (auto split: option.splits intro!: length_concat_map_le)
  have i: "length (concat ?I) \<le> (case ?s of None \<Rightarrow> 0 | Some p \<Rightarrow> 17 * unat (iface_count p))"
  proof (cases ?s)
    case (Some p)
    then have "length (concat (map (\<lambda>i. '' '' @ prefix_text env p i) [0..<unat (iface_count p)])) \<le>
        17 * length [0..<unat (iface_count p)]"
      using nt length_prefix_text [of _ p env]
      by (intro length_concat_map_le) (auto simp: names_terminated_def list_all_iff)
    then show ?thesis using Some by simp
  qed simp
  have v: "length (concat ?V) \<le> 272"
  proof (cases "global_active_vpns k")
    case (Some vpns)
    then have "length (concat (map (\<lambda>i. '' '' @ vpn_text env vpns i) [0..<length vpns])) \<le> 17 * length [0..<length vpns]"
      using nt length_vpn_text [of vpns _ env]
      by (intro length_concat_map_le) (auto simp: names_terminated_def)
    then show ?thesis using Some inv by (simp add: kernel_inv_def)
  qed simp
  have m: "length (concat ?M) \<le> (case ?s of None \<Rightarrow> 0 | Some p \<Rightarrow> 22 * length (app_hook_masks p))"
  proof (cases ?s)
    case (Some p)
    let ?ms = "filter (\<lambda>m. has_java_override m \<noteq> 0) (app_hook_masks p)"
    have "length (fmt_u a) + length (fmt_u b) \<le> 20" for a b using add_mono [OF length_fmt_u [of a] length_fmt_u [of b]] by simp
    then have "length (concat (map (\<lambda>m. '' '' @ fmt_u (mask_uid m) @ '':'' @ fmt_u (java_mask m)) ?ms)) \<le> 22 * length ?ms"
      by (intro length_concat_map_le) simp
    also have "\<dots> \<le> 22 * length (app_hook_masks p)" by simp
    finally show ?thesis using Some by simp
  qed simp
  have c: "length (cover_ifname k) \<le> 15" using inv by (simp add: kernel_inv_def)
  have f: "length (fmt_u VPNHIDE_VERSION_CODE) \<le> 10" "length (fmt_u (vpnhide_java_hooks_mask ?s)) \<le> 10"
    "length (fmt_d (sint (java_stats_clear_generation k))) \<le> 11"
    by (rule length_fmt_u length_fmt_d)+
  have h: "length (case ?s of Some p \<Rightarrow> if lsposed_match_mode p = VPNHIDE_MATCH_EXCLUDE then ''SHOW'' else ''HIDE''
      | None \<Rightarrow> ''HIDE'') = 4" by (simp split: option.split)
  have len: "length (concat (config_pieces env k)) \<le> 300 + length (concat ?L) + length (concat ?I) + length (concat ?V) + length (concat ?M)"
    unfolding config_pieces_def Let_def concat_append length_append using f c h by (simp add: nl_def)
  show ?thesis
  proof (cases ?s)
    case None
    with len l i v m show ?thesis by (simp add: snapshot_capacity_def)
  next
    case (Some p)
    with len l i v m show ?thesis by (simp add: snapshot_capacity_def)
  qed
qed

section \<open>Draining the device\<close>









section \<open>The probe table\<close>

lemma probes_fallback_later:
  "list_all (\<lambda>i. snd (probes ! i) < 0 \<or> nat (snd (probes ! i)) = i \<or> nat (snd (probes ! i)) < i) [0..<length probes]"
  by (simp add: probes_def upt_rec)

lemma register_probes_exclusive:
  "n \<le> length probes \<Longrightarrow> regs = foldl (register_probe krp) (replicate (length probes) False) [0..<n] \<Longrightarrow>
    length regs = length probes \<and> (\<forall>j. n \<le> j \<longrightarrow> j < length probes \<longrightarrow> \<not> regs ! j) \<and>
    (\<forall>i < n. snd (probes ! i) \<ge> 0 \<longrightarrow> nat (snd (probes ! i)) \<noteq> i \<longrightarrow> \<not> (regs ! i \<and> regs ! nat (snd (probes ! i))))"
proof (induction n arbitrary: regs)
  case (Suc n)
  let ?old = "foldl (register_probe krp) (replicate (length probes) False) [0..<n]"
  have regs: "regs = register_probe krp ?old n" using Suc.prems(2) by simp
  have ih: "length ?old = length probes" "\<And>j. n \<le> j \<Longrightarrow> j < length probes \<Longrightarrow> \<not> ?old ! j"
    "\<And>i. i < n \<Longrightarrow> snd (probes ! i) \<ge> 0 \<Longrightarrow> nat (snd (probes ! i)) \<noteq> i \<Longrightarrow>
      \<not> (?old ! i \<and> ?old ! nat (snd (probes ! i)))"
    using Suc.IH [OF _ refl] Suc.prems(1) by auto
  have before: "nat (snd (probes ! i)) < i" if "i \<le> n" "snd (probes ! i) \<ge> 0" "nat (snd (probes ! i)) \<noteq> i" for i
  proof -
    have "i \<in> set [0..<length probes]" using that(1) Suc.prems(1) by simp
    with probes_fallback_later that(2,3) show ?thesis unfolding list_all_iff by fastforce
  qed
  have nth: "regs ! j = ?old ! j" if "j \<noteq> n" for j
    using that by (simp add: regs register_probe_def)
  have skip: "\<not> regs ! n" if "snd (probes ! n) \<ge> 0" "?old ! nat (snd (probes ! n))"
    using that ih(2) [of n] Suc.prems(1) by (simp add: regs register_probe_def probe_skipped_def)
  show ?case
  proof (intro conjI allI impI)
    show "length regs = length probes" using ih(1) by (simp add: regs register_probe_def)
    show "\<not> regs ! j" if "Suc n \<le> j" "j < length probes" for j using that ih(2) [of j] nth [of j] by simp
    show "\<not> (regs ! i \<and> regs ! nat (snd (probes ! i)))"
      if "i < Suc n" "snd (probes ! i) \<ge> 0" "nat (snd (probes ! i)) \<noteq> i" for i
      using that before [of i] ih(3) [of i] nth [of i] nth [of "nat (snd (probes ! i))"] skip
      by (cases "i = n") auto
  qed
qed simp

section \<open>Properties\<close>


definition booted :: kernel_state where
  "booted = module_zero\<lparr>kmod_port_stats := Some empty_port_slots, kmod_stats_session_id := 7\<rparr>"

lemma booted_reachable: "kernel_reachable booted"
  by (rule loaded [of 7 "\<lambda>_. 0" 0 _ "register_probes (\<lambda>_. 0)"]) (simp add: vpnhide_init_def booted_def Let_def)


definition sample_read_env :: read_env where
  "sample_read_env = \<lparr>after_prefixes = [], after_vpn = (\<lambda>_. [])\<rparr>"

text \<open>
  C29: The configuration text always fits. In every reachable state whose interface names are terminated,
  the buffer sized from the policy holds all the pieces: nothing the reader prints is cut off.
\<close>

theorem config_text_complete:
  assumes "kernel_reachable k" and "names_terminated k"
  shows "config_text env k = concat (config_pieces env k)"
  using scnprintf_pieces [of "[]" "config_pieces env k"] pieces_length [OF reachable_inv [OF assms(1)] assms(2)]
  by (simp add: config_text_def)

theorem config_text_complete_witness:
  "config_text sample_read_env booted = concat (config_pieces sample_read_env booted)"
  by (rule config_text_complete [OF booted_reachable]) (simp add: names_terminated_def booted_def module_zero_def)



text \<open>
  C34: A reader can miss an update for good. The text is built under the policy lock, but the generation the
  reader notes is read after the lock is released: when the configuration changes in between, the
  reader has the old text with the new generation, a waiting reader is told that there is nothing new,
  and any other reader sees the end of the file.
\<close>

theorem dev_read_misses_update:
  assumes "rd_len r \<le> rd_pos r" and "rd_generation r < scast (config_generation k1)"
    and "length (config_text env k1) \<le> num"
  shows "case vpnhide_dev_read env uid nonblock woken True True k1 k1 k2 num (Some r) of (shown, r') \<Rightarrow>
    shown = Inr (config_text env k1) \<and>
    fst (vpnhide_dev_read env 1000 True w a c k2 k2 k2 num2 r') = Inl EAGAIN \<and>
    fst (vpnhide_dev_read env 0 n w a c k2 k2 k2 num2 r') = Inr []"
proof -
  have stale: "\<not> (scast (config_generation k1) :: u64) \<le> rd_generation r" using assms(2) by (simp add: not_le)
  have "take num (config_text env k1) = config_text env k1" using assms(3) by simp
  then show ?thesis using assms(1) stale by (simp add: vpnhide_dev_read_def Let_def)
qed

lemma booted_text_short: "length (config_text env booted) \<le> 4096"
proof -
  have n: "names_terminated booted" and p: "global_policy booted = None"
    by (simp_all add: names_terminated_def booted_def module_zero_def)
  from pieces_length [OF reachable_inv [OF booted_reachable] n, of env]
  have "length (concat (config_pieces env booted)) < 1024" by (simp add: p snapshot_capacity_def)
  then show ?thesis using scnprintf_pieces [of "[]" "config_pieces env booted" 1024]
    by (simp add: config_text_def snapshot_capacity_def p)
qed

lemma sample_cover_written: "cover_ifname (snd (vpnhide_dev_write True (Some ''cover_iface:wlan0'') 17 k)) = ''wlan0''"
  by (simp add: vpnhide_dev_write_def strncmp_eq_def strcmp_eq_def c_string_def NUL_def write_cover_def next_generation_def Let_def)

definition sample_reader :: dev_reader where
  "sample_reader = \<lparr>rd_generation = 0, rd_buf = [], rd_len = 0, rd_pos = 0\<rparr>"

theorem dev_read_misses_update_witness:
  "\<exists>k2 r'. k2 = snd (vpnhide_dev_write True (Some ''cover_iface:wlan0'') 17 booted) \<and>
    vpnhide_dev_read sample_read_env 1000 False True True True booted booted k2 4096 (Some sample_reader) =
      (Inr (config_text sample_read_env booted), r') \<and>
    cover_ifname k2 = ''wlan0'' \<and> cover_ifname booted = [] \<and>
    fst (vpnhide_dev_read sample_read_env 1000 True True True True k2 k2 k2 4096 r') = Inl EAGAIN"
proof -
  let ?k2 = "snd (vpnhide_dev_write True (Some ''cover_iface:wlan0'') 17 booted)"
  have b: "cover_ifname booted = []" "config_generation booted = 1" by (simp_all add: booted_def module_zero_def)
  have r: "rd_len sample_reader \<le> rd_pos sample_reader" "rd_generation sample_reader < scast (config_generation booted)"
    by (simp_all add: sample_reader_def b)
  obtain shown r' where x: "vpnhide_dev_read sample_read_env 1000 False True True True booted booted ?k2 4096
      (Some sample_reader) = (shown, r')" by fastforce
  show ?thesis
    using dev_read_misses_update [OF r booted_text_short, where env = sample_read_env and uid = 1000 and nonblock = False
          and woken = True and ?k2.0 = ?k2 and w = True and a = True and c = True and ?num2.0 = 4096,
        unfolded x prod.case] x b(1) sample_cover_written [of booted] by blast
qed



text \<open>
  A fallback probe is never active together with the probe it stands in for, whatever registrations
  fail; a connect, for instance, is never checked by both connect probes. The entry of sk_getsockopt
  names itself as its primary, which has no effect.
\<close>

theorem fallback_probes_exclusive:
  assumes "i < length probes" and "snd (probes ! i) = int p" and "p \<noteq> i"
  shows "\<not> (register_probes krp ! i \<and> register_probes krp ! p)"
  using register_probes_exclusive [OF order_refl refl, of krp] assms by (auto simp: register_probes_def)

theorem fallback_probes_exclusive_witness:
  "fst (probes ! 21) = ''security_socket_connect'' \<and> fst (probes ! 19) = ''__arm64_sys_connect'' \<and>
   \<not> (register_probes (\<lambda>_. 0) ! 21 \<and> register_probes (\<lambda>_. 0) ! 19)"
  using fallback_probes_exclusive [of 21 19 "\<lambda>_. 0"] by (simp add: probes_def)

end
