(* ===== verification/Connect_Hooks.thy ===== *)
theory Connect_Hooks
  imports Owned_Ports Kernel_Stats
begin

text \<open>
  The connect and bind probes of kmod/hooks_socket.c. Each probe has an entry handler, whose result
  1 means that the return handler is skipped, and a return handler. The environment of a call is
  the published policy, the ownership tables and \<^verbatim>\<open>jiffies\<close>. A socket is an option (NULL) of an
  optional \<^verbatim>\<open>struct sock\<close> (its \<^verbatim>\<open>sk\<close>). What the kernel around the probes does is a parameter: the
  bytes a copy from user space delivers, the socket of a file descriptor, and the return value of
  the probed function.
\<close>

section \<open>Addresses and the environment\<close>

datatype sockaddr = Sockaddr_in u16 u32 | Sockaddr_in6 u16 addr4 | Sockaddr_other

type_synonym socket = "sock option"

record port_env =
  env_policy :: "policy_snapshot option"
  env_owned :: "owned_ports_snapshot option"
  env_pending :: "pending_port list list"
  env_jiffies :: u64

abbreviation env_owns :: "port_env \<Rightarrow> uid_t \<Rightarrow> u16 \<Rightarrow> u8 \<Rightarrow> u8 \<Rightarrow> addr4 \<Rightarrow> bool" where
  "env_owns e \<equiv> vpnhide_uid_owns_port (env_jiffies e) (env_owned e) (env_pending e)"

text \<open>
  \<^verbatim>\<open>resolve_sock_addr\<close>: through the system call wrapper the user registers hold the descriptor, the
  address and its length (\<open>uregs\<close> is None when the pointer to them is not a kernel address);
  \<open>copy_addr\<close> is the copy from user space, \<open>fd_sock\<close> the socket the descriptor names. The result is
  the socket, the address and whether the socket must be put.
\<close>

definition resolve_sock_addr :: "bool \<Rightarrow> int option \<Rightarrow> (int \<Rightarrow> sockaddr option) \<Rightarrow> socket option \<Rightarrow>
    socket option \<Rightarrow> sockaddr option \<Rightarrow> socket option \<times> sockaddr option \<times> bool" where
  "resolve_sock_addr uses_wrapper uregs copy_addr fd_sock direct_sock direct_addr =
     (if uses_wrapper then
        (case uregs of
           None \<Rightarrow> (None, None, False)
         | Some addrlen \<Rightarrow>
             let copy_sz = min addrlen 128;
                 addr = (if copy_sz > 0 then copy_addr copy_sz else None) in
             (fd_sock, addr, fd_sock \<noteq> None))
      else (direct_sock, direct_addr, False))"

definition sock_proto :: "sock \<Rightarrow> u8" where
  "sock_proto sk = (if sk_type sk = SOCK_STREAM then VH_PROTO_TCP else VH_PROTO_UDP)"

section \<open>Connect\<close>

text \<open>The decision of the security hook: the blocked port and protocol, None when not blocked.\<close>

definition direct_connect_should_block :: "port_env \<Rightarrow> socket option \<Rightarrow> sockaddr option \<Rightarrow> uid_t \<Rightarrow>
    (u16 \<times> u8) option" where
  "direct_connect_should_block env sock addr uid =
     (case (sock, addr) of
        (Some (Some sk), Some a) \<Rightarrow>
          (case (env_policy env, vpnhide_find_port_target (env_policy env) uid) of
             (Some s, Some urules) \<Rightarrow>
               (case a of
                  Sockaddr_in port v4 \<Rightarrow>
                    let proto = sock_proto sk; address = (v4, 0, 0, 0) in
                    if (ipv4_is_loopback v4 \<or> v4 = 0) \<and> should_block_port s urules port proto \<and>
                       \<not> env_owns env uid port proto AF_INET address
                    then Some (port, proto) else None
                | Sockaddr_in6 port v6 \<Rightarrow>
                    let proto = sock_proto sk; v4 = snd (snd (snd v6));
                        mapped = ipv6_addr_v4mapped v6;
                        local = (if mapped then ipv4_is_loopback v4 \<or> v4 = 0
                                 else ipv6_addr_loopback v6 \<or> ipv6_addr_any v6);
                        family = (if mapped then AF_INET else AF_INET6);
                        address = (if mapped then (v4, 0, 0, 0) else v6) in
                    if local \<and> should_block_port s urules port proto \<and>
                       \<not> env_owns env uid port proto family address
                    then Some (port, proto) else None
                | Sockaddr_other \<Rightarrow> None)
           | _ \<Rightarrow> None)
      | _ \<Rightarrow> None)"

record connect_data =
  should_block :: bool
  intercepted :: bool
  cd_port :: u16
  cd_protocol :: u8

definition connect_data_init :: connect_data where
  "connect_data_init = \<lparr>should_block = False, intercepted = False, cd_port = 0,
     cd_protocol = VH_PROTO_TCP\<rparr>"

text \<open>
  The system call probe. Besides the result and the instance data it returns whether it overwrote
  the user's address pointer with NULL.
\<close>

definition connect_block :: "bool \<Rightarrow> int option \<Rightarrow> u16 \<Rightarrow> u8 \<Rightarrow> connect_data" where
  "connect_block uses_wrapper uregs port proto =
     \<lparr>should_block = True, intercepted = (uses_wrapper \<and> uregs \<noteq> None), cd_port = port,
      cd_protocol = proto\<rparr>"

definition connect_address_check :: "port_env \<Rightarrow> bool \<Rightarrow> int option \<Rightarrow> policy_snapshot \<Rightarrow>
    port_target_v3 \<Rightarrow> sock \<Rightarrow> sockaddr \<Rightarrow> uid_t \<Rightarrow> connect_data" where
  "connect_address_check env uses_wrapper uregs s urules sk a uid =
     (case a of
        Sockaddr_in port v4 \<Rightarrow>
          if ipv4_is_loopback v4 \<or> v4 = 0 then
            let proto = sock_proto sk; address = (v4, 0, 0, 0) in
            if should_block_port s urules port proto \<and> \<not> env_owns env uid port proto AF_INET address
            then connect_block uses_wrapper uregs port proto else connect_data_init
          else connect_data_init
      | Sockaddr_in6 port v6 \<Rightarrow>
          let is_loopback =
                (if ipv6_addr_loopback v6 \<or> ipv6_addr_any v6 then True
                 else if ipv6_addr_v4mapped v6 then
                   ipv4_is_loopback (snd (snd (snd v6))) \<or> snd (snd (snd v6)) = 0
                 else False) in
          if is_loopback then
            let proto = sock_proto sk;
                family = (if ipv6_addr_v4mapped v6 then AF_INET else AF_INET6);
                address = (if ipv6_addr_v4mapped v6 then (snd (snd (snd v6)), 0, 0, 0) else v6) in
            if should_block_port s urules port proto \<and> \<not> env_owns env uid port proto family address
            then connect_block uses_wrapper uregs port proto else connect_data_init
          else connect_data_init
      | Sockaddr_other \<Rightarrow> connect_data_init)"

definition socket_connect_entry :: "port_env \<Rightarrow> bool \<Rightarrow> uid_t \<Rightarrow> int option \<Rightarrow> (int \<Rightarrow> sockaddr option) \<Rightarrow>
    socket option \<Rightarrow> socket option \<Rightarrow> sockaddr option \<Rightarrow> nat \<times> connect_data \<times> bool" where
  "socket_connect_entry env uses_wrapper uid uregs copy_addr fd_sock direct_sock direct_addr =
     (if \<not> is_hook_active (env_policy env) HOOK_CONNECT uid then (1, connect_data_init, False)
      else
        case resolve_sock_addr uses_wrapper uregs copy_addr fd_sock direct_sock direct_addr of
          (sock, addr, put_needed) \<Rightarrow>
            if uses_wrapper \<and> sock = None then (0, connect_data_init, False)
            else
              (case env_policy env of
                 None \<Rightarrow> (1, connect_data_init, False)
               | Some s \<Rightarrow>
                   (case (vpnhide_find_port_target (Some s) uid, addr, sock) of
                      (Some urules, Some a, Some (Some sk)) \<Rightarrow>
                        let data = connect_address_check env uses_wrapper uregs s urules sk a uid in
                        (if should_block data then 0 else 1, data, intercepted data)
                    | _ \<Rightarrow> (1, connect_data_init, False))))"

abbreviation (input) EFAULT_ret :: int where "EFAULT_ret \<equiv> - 14"
abbreviation (input) ECONNREFUSED_ret :: int where "ECONNREFUSED_ret \<equiv> - 111"

text \<open>The return handlers give the new return value and whether an intercept is recorded.\<close>

definition socket_connect_ret :: "bool \<Rightarrow> connect_data \<Rightarrow> int \<Rightarrow> int \<times> (u16 \<times> u8) option" where
  "socket_connect_ret uses_wrapper data retval =
     (if should_block data then
        (if uses_wrapper
         then if intercepted data \<and> retval = EFAULT_ret then ECONNREFUSED_ret else retval
         else ECONNREFUSED_ret,
         Some (cd_port data, cd_protocol data))
      else (retval, None))"

definition security_socket_connect_entry :: "port_env \<Rightarrow> uid_t \<Rightarrow> socket option \<Rightarrow> sockaddr option \<Rightarrow>
    nat \<times> connect_data" where
  "security_socket_connect_entry env uid sock addr =
     (if \<not> is_hook_active (env_policy env) HOOK_CONNECT uid then (1, connect_data_init)
      else case direct_connect_should_block env sock addr uid of
        Some (port, proto) \<Rightarrow>
          (0, connect_data_init\<lparr>should_block := True, cd_port := port, cd_protocol := proto\<rparr>)
      | None \<Rightarrow> (1, connect_data_init))"

definition security_socket_connect_ret :: "connect_data \<Rightarrow> int \<Rightarrow> int \<times> (u16 \<times> u8) option" where
  "security_socket_connect_ret data retval =
     (if should_block data then (ECONNREFUSED_ret, Some (cd_port data, cd_protocol data))
      else (retval, None))"

section \<open>Bind and listen\<close>

text \<open>
  The ownership probes. The entry handlers return the remembered socket and UID, None when the
  return handler is skipped; the return handlers update the pending cache and may signal the
  daemon.
\<close>

definition socket_bind_entry :: "bool \<Rightarrow> uid_t \<Rightarrow> int option \<Rightarrow> (int \<Rightarrow> sockaddr option) \<Rightarrow> socket option \<Rightarrow>
    socket option \<Rightarrow> sockaddr option \<Rightarrow> (socket \<times> uid_t \<times> bool) option" where
  "socket_bind_entry uses_wrapper uid uregs copy_addr fd_sock direct_sock direct_addr =
     (case resolve_sock_addr uses_wrapper uregs copy_addr fd_sock direct_sock direct_addr of
        (None, _, _) \<Rightarrow> None
      | (Some sock, _, put_needed) \<Rightarrow> Some (sock, uid, put_needed))"

text \<open>
  In the return handlers \<open>sk'\<close> is the \<^verbatim>\<open>struct sock\<close> as the probed function left it, with the port
  number the kernel chose.
\<close>

definition socket_bind_ret :: "u64 \<Rightarrow> bool \<Rightarrow> port_env \<Rightarrow> (socket \<times> uid_t \<times> bool) option \<Rightarrow> socket \<Rightarrow> int \<Rightarrow>
    pending_port list list \<times> bool" where
  "socket_bind_ret hz ctx env data sk' retval =
     (case data of
        None \<Rightarrow> (env_pending env, False)
      | Some (_, uid, _) \<Rightarrow>
          (case sk' of
             None \<Rightarrow> (env_pending env, False)
           | Some sk \<Rightarrow>
               if retval = 0 \<and> (sk_family sk = AF_INET \<or> sk_family sk = AF_INET6) \<and>
                  sk_type sk = SOCK_DGRAM
               then vpnhide_record_bound_socket hz (env_jiffies env) (env_policy env) ctx uid (Some sk)
                 (env_pending env)
               else (env_pending env, False)))"

definition inet_bind_owner_entry :: "uid_t \<Rightarrow> socket option \<Rightarrow> (sock \<times> uid_t) option" where
  "inet_bind_owner_entry uid sock =
     (case sock of
        Some (Some sk) \<Rightarrow>
          if sk_family sk \<noteq> AF_INET \<or> sk_type sk \<noteq> SOCK_DGRAM then None else Some (sk, uid)
      | _ \<Rightarrow> None)"



section \<open>The two connect probes agree\<close>

lemma v4mapped_not_v6_local:
  "ipv6_addr_v4mapped v6 \<Longrightarrow> \<not> ipv6_addr_loopback v6 \<and> \<not> ipv6_addr_any v6"
  by (cases v6) (simp add: ipv6_addr_v4mapped_def ipv6_addr_loopback_def ipv6_addr_any_def)

lemma connect_address_check_direct:
  assumes "env_policy env = Some s" "vpnhide_find_port_target (Some s) uid = Some urules"
  shows "connect_address_check env w uregs s urules sk a uid =
    (case direct_connect_should_block env (Some (Some sk)) (Some a) uid of
       Some (port, proto) \<Rightarrow> connect_block w uregs port proto
     | None \<Rightarrow> connect_data_init)"
proof (cases a)
  case (Sockaddr_in port v4)
  with assms show ?thesis
    by (simp add: connect_address_check_def direct_connect_should_block_def Let_def)
next
  case (Sockaddr_in6 port v6)
  with assms v4mapped_not_v6_local [of v6] show ?thesis
    by (cases "ipv6_addr_v4mapped v6")
      (auto simp: connect_address_check_def direct_connect_should_block_def Let_def)
next
  case Sockaddr_other
  with assms show ?thesis
    by (simp add: connect_address_check_def direct_connect_should_block_def)
qed

lemma direct_block_iff:
  assumes wf: "snapshot_wf s" and pol: "env_policy env = Some s"
  shows "direct_connect_should_block env (Some (Some sk)) (Some (Sockaddr_in port v4)) uid =
    (if (ipv4_is_loopback v4 \<or> v4 = 0) \<and>
        (case vpnhide_find_port_target (Some s) uid of None \<Rightarrow> False
         | Some t \<Rightarrow> should_block_port s t port (sock_proto sk)) \<and>
        \<not> env_owns env uid port (sock_proto sk) AF_INET (v4, 0, 0, 0)
     then Some (port, sock_proto sk) else None)"
  using pol by (auto simp: direct_connect_should_block_def Let_def split: option.splits)

section \<open>Properties\<close>

text \<open>
  C11: The system call probe and the security hook take the same decision: on a call whose socket
  and address resolve, the entry handler of \<^verbatim>\<open>__arm64_sys_connect\<close> blocks exactly the port and
  protocol that \<^verbatim>\<open>direct_connect_should_block\<close> blocks, for IPv4, IPv6 and v4-mapped addresses, and
  it overwrites the user's address pointer exactly when it blocks.
\<close>

theorem connect_probes_agree:
  assumes "is_hook_active (env_policy env) HOOK_CONNECT uid" and "env_policy env = Some s"
    and "addrlen > 0" and "copy_addr (min addrlen 128) = Some a"
  shows "socket_connect_entry env True uid (Some addrlen) copy_addr (Some (Some sk)) ds da =
    (case direct_connect_should_block env (Some (Some sk)) (Some a) uid of
       Some (port, proto) \<Rightarrow>
         (0, \<lparr>should_block = True, intercepted = True, cd_port = port, cd_protocol = proto\<rparr>, True)
     | None \<Rightarrow> (1, connect_data_init, False))"
proof (cases "vpnhide_find_port_target (Some s) uid")
  case None
  then show ?thesis using assms
    by (simp add: socket_connect_entry_def resolve_sock_addr_def direct_connect_should_block_def Let_def)
next
  case (Some urules)
  then show ?thesis
    using assms connect_address_check_direct [OF assms(2) Some, of True "Some addrlen" sk a]
    by (simp add: socket_connect_entry_def resolve_sock_addr_def Let_def connect_block_def
        connect_data_init_def split: option.split)
qed

definition sample_env :: port_env where
  "sample_env = \<lparr>env_policy = Some sample_policy, env_owned = None, env_pending = pending_empty,
     env_jiffies = 1000\<rparr>"

definition sample_client :: sock where
  "sample_client = \<lparr>sk_type = SOCK_STREAM, sk_family = 2, inet_num = 0, inet_rcv_saddr = 0,
     sk_v6_rcv_saddr = (0, 0, 0, 0)\<rparr>"

theorem connect_probes_agree_witness:
  "socket_connect_entry sample_env True 10123 (Some 16) (\<lambda>n. Some (Sockaddr_in 443 0x08080808))
     (Some (Some sample_client)) None None = (1, connect_data_init, False)"
proof -
  have h: "is_hook_active (env_policy sample_env) HOOK_CONNECT 10123"
    using port_hooks_active [OF sample_policy_wf] by (simp add: sample_env_def)
  have p: "env_policy sample_env = Some sample_policy" by (simp add: sample_env_def)
  have "direct_connect_should_block sample_env (Some (Some sample_client))
      (Some (Sockaddr_in 443 0x08080808)) 10123 = None"
    using direct_block_iff [OF sample_policy_wf p] by (simp add: ipv4_is_loopback_def)
  with connect_probes_agree [OF h p, of 16 "\<lambda>n. Some (Sockaddr_in 443 0x08080808)"] show ?thesis
    by simp
qed

text \<open>
  The security hook decides the declarative policy: with a published snapshot, a connect to an
  IPv4 address is refused, and recorded with its port and protocol, iff the address is loopback or
  the wildcard, the policy blocks the port and protocol for the UID, and the UID does not own the
  port; a connect it does not refuse returns what the kernel returned.
\<close>

theorem security_connect_decision:
  assumes "snapshot_wf s" and "env_policy env = Some s"
    and "security_socket_connect_entry env uid (Some (Some sk)) (Some (Sockaddr_in port v4)) = (r, data)"
  shows "security_socket_connect_ret data retval =
    (if (ipv4_is_loopback v4 \<or> v4 = 0) \<and>
        (case vpnhide_find_port_target (Some s) uid of None \<Rightarrow> False
         | Some t \<Rightarrow> should_block_port s t port (sock_proto sk)) \<and>
        \<not> env_owns env uid port (sock_proto sk) AF_INET (v4, 0, 0, 0)
     then (ECONNREFUSED_ret, Some (port, sock_proto sk)) else (retval, None)) \<and>
    (r = 0 \<longleftrightarrow> should_block data)"
  using assms(3) port_hooks_active [OF assms(1), of HOOK_CONNECT uid] direct_block_iff [OF assms(1,2), of sk port v4 uid]
    assms(2)
  by (auto simp: security_socket_connect_entry_def security_socket_connect_ret_def connect_data_init_def
      split: if_splits)

theorem security_connect_decision_witness:
  "security_socket_connect_ret
     (snd (security_socket_connect_entry sample_env 10123 (Some (Some sample_client))
        (Some (Sockaddr_in 22 0x0100007F)))) 0 = (ECONNREFUSED_ret, Some (22, 0))"
proof -
  have p: "env_policy sample_env = Some sample_policy" by (simp add: sample_env_def)
  obtain r data where e: "security_socket_connect_entry sample_env 10123 (Some (Some sample_client))
        (Some (Sockaddr_in 22 0x0100007F)) = (r, data)" by fastforce
  have no: "\<not> pending_port_lookup_one 1000 pending_empty w" if "own_family w \<noteq> 0" for w
    using that pending_set_less [of w]
    by (simp add: pending_port_lookup_one_def pending_empty_def pending_hit_def pending_zero_def
        owned_port_equal_iff owned_zero_def list_ex_iff) auto
  have "\<not> env_owns sample_env 10123 22 0 2 (0x0100007F, 0, 0, 0)"
    by (simp add: sample_env_def vpnhide_uid_owns_port_def Let_def no)
  with security_connect_decision [OF sample_policy_wf p e, of 0] e show ?thesis
    by (simp add: find_port_target_sample target_wf_deny_all_block ipv4_is_loopback_def sock_proto_def
        sample_client_def)
qed



end
