(* ===== verification/Fs_Hooks.thy ===== *)
theory Fs_Hooks
  imports Hook_Env
begin

text \<open>
  The hooks of kmod/hooks_fs.c: the laundering of traffic counters that \<^verbatim>\<open>bpf()\<close> map lookups return,
  single and batched, and the UDP send probe around the token bucket. A map is its name, its sizes
  and its lookup function, which belongs to the kernel and is a field of the record. Of user space
  the handlers see the bytes their copies deliver (None when a copy fails) and, for each copy back,
  the number of bytes that could not be written. The UAPI layout of \<^verbatim>\<open>union bpf_attr\<close> gives the
  offsets at which the handlers read their copy of it.
\<close>

section \<open>Traffic counters\<close>

record stats_value =
  rxBytes :: u64
  rxPackets :: u64
  txBytes :: u64
  txPackets :: u64

definition sv_rx_bytes :: "bool \<Rightarrow> stats_value \<Rightarrow> u64" where
  "sv_rx_bytes pkts_first sv = (if pkts_first then rxPackets sv else rxBytes sv)"

definition sv_tx_bytes :: "bool \<Rightarrow> stats_value \<Rightarrow> u64" where
  "sv_tx_bytes pkts_first sv = (if pkts_first then txPackets sv else txBytes sv)"

definition sv_add :: "bool \<Rightarrow> stats_value \<Rightarrow> stats_value \<Rightarrow> stats_value" where
  "sv_add pkts_first dst src =
     (if pkts_first then
        dst\<lparr>rxPackets := rxPackets dst + rxPackets src, rxBytes := rxBytes dst + rxBytes src,
            txPackets := txPackets dst + txPackets src, txBytes := txBytes dst + txBytes src\<rparr>
      else
        dst\<lparr>rxBytes := rxBytes dst + rxBytes src, rxPackets := rxPackets dst + rxPackets src,
            txBytes := txBytes dst + txBytes src, txPackets := txPackets dst + txPackets src\<rparr>)"

definition sv_zero :: stats_value where
  "sv_zero = \<lparr>rxBytes = 0, rxPackets = 0, txBytes = 0, txPackets = 0\<rparr>"

text \<open>The structure at the start of a value buffer, and the buffer after an addition to it.\<close>

definition get_sv :: "u8 list \<Rightarrow> stats_value" where
  "get_sv v = \<lparr>rxBytes = get_u64 v 0, rxPackets = get_u64 v 8, txBytes = get_u64 v 16,
     txPackets = get_u64 v 24\<rparr>"

definition put_sv :: "stats_value \<Rightarrow> u8 list" where
  "put_sv sv = u64_bytes (rxBytes sv) @ u64_bytes (rxPackets sv) @ u64_bytes (txBytes sv) @
     u64_bytes (txPackets sv)"

definition buf_sv_add :: "bool \<Rightarrow> u8 list \<Rightarrow> stats_value \<Rightarrow> u8 list" where
  "buf_sv_add pkts_first v s = take (length v) (put_sv (sv_add pkts_first (get_sv v) s) @ drop 32 v)"

section \<open>Maps\<close>

datatype vh_bpf_map_kind =
    VH_BPF_MAP_UNKNOWN | VH_BPF_MAP_KEYED_UID | VH_BPF_MAP_IFACE | VH_BPF_MAP_OTHER

definition classify_bpf_map :: "string \<Rightarrow> vh_bpf_map_kind" where
  "classify_bpf_map name =
     (case c_string name of
        [] \<Rightarrow> VH_BPF_MAP_UNKNOWN
      | c # _ \<Rightarrow>
          if c = CHR ''a'' then
            (if strncmp_eq 13 name ''app_uid_stats'' then VH_BPF_MAP_KEYED_UID else VH_BPF_MAP_UNKNOWN)
          else if c = CHR ''s'' then
            (if strncmp_eq 10 name ''stats_map_'' then VH_BPF_MAP_KEYED_UID else VH_BPF_MAP_UNKNOWN)
          else if c = CHR ''i'' then
            (if strncmp_eq 11 name ''iface_stats'' then VH_BPF_MAP_IFACE else VH_BPF_MAP_UNKNOWN)
          else if c = CHR ''u'' then
            (if strncmp_eq 9 name ''uid_stats'' then VH_BPF_MAP_KEYED_UID else VH_BPF_MAP_UNKNOWN)
          else if c = CHR ''t'' then
            (if strncmp_eq 12 name ''tether_stats'' then VH_BPF_MAP_IFACE else VH_BPF_MAP_UNKNOWN)
          else if c = CHR ''m'' then
            (if strncmp_eq 14 name ''map_netd_stats'' then VH_BPF_MAP_KEYED_UID
             else if strncmp_eq 15 name ''map_netd_app_ui'' \<or> strncmp_eq 15 name ''map_netd_uid_st''
             then VH_BPF_MAP_OTHER
             else if strncmp_eq 15 name ''map_netd_iface_'' then VH_BPF_MAP_IFACE
             else VH_BPF_MAP_UNKNOWN)
          else VH_BPF_MAP_UNKNOWN)"

record bpf_map =
  map_name :: string
  map_key_size :: u32
  map_value_size :: u32
  map_lookup_elem :: "u32 \<Rightarrow> stats_value option"

definition is_key_vpn_or_target_uid :: "hook_env \<Rightarrow> u8 list \<Rightarrow> vh_bpf_map_kind \<Rightarrow> bool" where
  "is_key_vpn_or_target_uid env key kind =
     (if kind = VH_BPF_MAP_KEYED_UID then vpn_index env (get_u32 key 12) \<or> is_target env (get_u32 key 0)
      else if kind = VH_BPF_MAP_IFACE then vpn_index env (get_u32 key 0)
      else False)"

definition collect_vpn_traffic_sum :: "hook_env \<Rightarrow> bpf_map \<Rightarrow> stats_value \<Rightarrow> stats_value" where
  "collect_vpn_traffic_sum env m vpn_sum =
     (case global_active_vpns env of
        None \<Rightarrow> vpn_sum
      | Some vs \<Rightarrow>
          foldl (\<lambda>s v. case map_lookup_elem m (vpn_ifindex v) of
                   None \<Rightarrow> s | Some sv \<Rightarrow> sv_add (stats_pkts_first env) s sv) vpn_sum vs)"

section \<open>A single lookup\<close>

text \<open>
  The value the caller finds in its buffer afterwards. \<open>rd_ok\<close> says that the value could be copied in,
  \<open>left\<close> how many bytes of a copy back were not written.
\<close>

definition bpf_single_cover_update :: "hook_env \<Rightarrow> bool \<Rightarrow> nat \<Rightarrow> u8 list \<Rightarrow> stats_value \<Rightarrow> u8 list" where
  "bpf_single_cover_update env rd_ok left usr_val vpn_sum =
     (if sv_rx_bytes (stats_pkts_first env) vpn_sum = 0 \<and> sv_tx_bytes (stats_pkts_first env) vpn_sum = 0
      then usr_val
      else if \<not> rd_ok then usr_val
      else copy_to_user usr_val (buf_sv_add (stats_pkts_first env) usr_val vpn_sum) left)"

definition bpf_single_lookup_zero :: "hook_env \<Rightarrow> bool \<Rightarrow> bool \<Rightarrow> bpf_map \<Rightarrow> vh_bpf_map_kind \<Rightarrow>
    u8 list option \<Rightarrow> bool \<Rightarrow> nat \<Rightarrow> u8 list \<Rightarrow> u8 list" where
  "bpf_single_lookup_zero env kbuf_ok vbuf_ok m kind usr_key rd_ok left usr_val =
     (let kbuf = map_key_size m \<le> 64 \<or> kbuf_ok;
          vbuf = map_value_size m \<le> 256 \<or> vbuf_ok in
      if \<not> kbuf \<or> \<not> vbuf then usr_val
      else case usr_key of
        None \<Rightarrow> usr_val
      | Some key \<Rightarrow>
          if is_key_vpn_or_target_uid env key kind
          then copy_to_user usr_val (replicate (unat (map_value_size m)) 0) left
          else if kind = VH_BPF_MAP_IFACE then
            let ifaceIndex = get_u32 key 0; cover_idx = global_cover_ifindex env in
            if cover_idx \<noteq> 0 \<and> ifaceIndex = cover_idx
            then bpf_single_cover_update env rd_ok left usr_val (collect_vpn_traffic_sum env m sv_zero)
            else usr_val
          else usr_val)"

section \<open>A batched lookup\<close>

text \<open>
  The user's value array is the list of its elements; \<open>rd i\<close> says whether element \<open>i\<close> can be copied
  in and \<open>wr i\<close> how many bytes a copy back to it does not write. The loop carries the array, the sum
  of the hidden traffic and the position of the cover interface.
\<close>

type_synonym batch_state = "u8 list list \<times> stats_value \<times> nat option"

definition batch_key :: "bpf_map \<Rightarrow> u8 list \<Rightarrow> nat \<Rightarrow> u8 list" where
  "batch_key m keys i = drop (i * unat (map_key_size m)) keys"

definition batch_step :: "hook_env \<Rightarrow> bpf_map \<Rightarrow> vh_bpf_map_kind \<Rightarrow> u8 list \<Rightarrow> (nat \<Rightarrow> bool) \<Rightarrow>
    (nat \<Rightarrow> nat) \<Rightarrow> nat \<Rightarrow> batch_state \<Rightarrow> batch_state" where
  "batch_step env m kind keys rd wr i st =
     (case st of (vals, vpn_sum, cover_pos) \<Rightarrow>
        let key = batch_key m keys i; zeros = replicate (unat (map_value_size m)) 0 in
        if kind = VH_BPF_MAP_IFACE then
          let ifindex = get_u32 key 0 in
          if vpn_index env ifindex then
            if rd i then
              (vals[i := copy_to_user (vals ! i) zeros (wr i)],
               if map_value_size m \<ge> 32 then sv_add (stats_pkts_first env) vpn_sum (get_sv (vals ! i))
               else vpn_sum, cover_pos)
            else st
          else if global_cover_ifindex env \<noteq> 0 \<and> ifindex = global_cover_ifindex env
          then (vals, vpn_sum, Some i)
          else st
        else if is_key_vpn_or_target_uid env key kind
        then (vals[i := copy_to_user (vals ! i) zeros (wr i)], vpn_sum, cover_pos)
        else st)"

definition batch_loop :: "hook_env \<Rightarrow> bpf_map \<Rightarrow> vh_bpf_map_kind \<Rightarrow> u8 list \<Rightarrow> (nat \<Rightarrow> bool) \<Rightarrow>
    (nat \<Rightarrow> nat) \<Rightarrow> nat \<Rightarrow> u8 list list \<Rightarrow> batch_state" where
  "batch_loop env m kind keys rd wr n vals =
     fold (batch_step env m kind keys rd wr) [0..<n] (vals, sv_zero, None)"

definition batch_cover :: "hook_env \<Rightarrow> bpf_map \<Rightarrow> (nat \<Rightarrow> bool) \<Rightarrow> (nat \<Rightarrow> nat) \<Rightarrow> batch_state \<Rightarrow>
    u8 list list" where
  "batch_cover env m rd wr st =
     (case st of (vals, vpn_sum, cover_pos) \<Rightarrow>
        (case cover_pos of
           None \<Rightarrow> vals
         | Some p \<Rightarrow>
             if (sv_rx_bytes (stats_pkts_first env) vpn_sum \<noteq> 0 \<or>
                 sv_tx_bytes (stats_pkts_first env) vpn_sum \<noteq> 0) \<and> map_value_size m \<ge> 32 \<and> rd p
             then vals[p := copy_to_user (vals ! p)
                    (buf_sv_add (stats_pkts_first env) (vals ! p) vpn_sum) (wr p)]
             else vals))"

definition bpf_batch_lookup_zero :: "hook_env \<Rightarrow> bool \<Rightarrow> bool \<Rightarrow> bpf_map \<Rightarrow> vh_bpf_map_kind \<Rightarrow>
    u8 list \<Rightarrow> u32 option \<Rightarrow> u8 list option \<Rightarrow> (nat \<Rightarrow> bool) \<Rightarrow> (nat \<Rightarrow> nat) \<Rightarrow> u8 list list \<Rightarrow>
    u8 list list" where
  "bpf_batch_lookup_zero env keys_ok value_ok m kind attr count_opt usr_keys rd wr usr_vals =
     (case count_opt of
        None \<Rightarrow> usr_vals
      | Some cnt \<Rightarrow>
          if cnt = 0 then usr_vals
          else if get_u64 attr 16 = 0 \<or> get_u64 attr 24 = 0 \<or> cnt > 4096 \<or>
                  map_key_size m = 0 \<or> map_value_size m = 0
          then usr_vals
          else if \<not> (unat cnt * unat (map_key_size m) \<le> 64 \<or> keys_ok) \<or>
                  \<not> (map_value_size m \<le> 256 \<or> value_ok)
          then usr_vals
          else case usr_keys of
            None \<Rightarrow> usr_vals
          | Some keys \<Rightarrow> batch_cover env m rd wr (batch_loop env m kind keys rd wr (unat cnt) usr_vals))"

section \<open>The system call probe\<close>

datatype bpf_cmd =
    BPF_MAP_LOOKUP_ELEM | BPF_MAP_UPDATE_ELEM | BPF_MAP_DELETE_ELEM | BPF_MAP_GET_NEXT_KEY
  | BPF_MAP_LOOKUP_AND_DELETE_ELEM | BPF_MAP_LOOKUP_BATCH | BPF_MAP_LOOKUP_AND_DELETE_BATCH
  | BPF_OTHER_CMD

record sys_bpf_data =
  sb_cmd :: bpf_cmd
  sb_uattr :: bool
  sb_size :: u32
  sb_attr :: "u8 list"
  sb_map_fd :: u32

text \<open>
  The arguments are the command, whether the attribute pointer is not NULL and its size; through the
  wrapper they come from the user registers, whose pointer may be refused (None). \<open>attr_size\<close> is
  \<^verbatim>\<open>sizeof(union bpf_attr)\<close> and \<open>copy_attr n\<close> the result of copying \<open>n\<close> bytes of the attribute.
\<close>

definition sys_bpf_entry :: "hook_env \<Rightarrow> uid_t \<Rightarrow> bool \<Rightarrow> (bpf_cmd \<times> bool \<times> u32) option \<Rightarrow>
    (bpf_cmd \<times> bool \<times> u32) \<Rightarrow> nat \<Rightarrow> (nat \<Rightarrow> u8 list option) \<Rightarrow> sys_bpf_data \<Rightarrow> nat \<times> sys_bpf_data" where
  "sys_bpf_entry env uid uses_wrapper user_regs regs attr_size copy_attr data0 =
     (if \<not> hook_on env HOOK_BPF uid \<or> is_target env uid then (1, data0\<lparr>sb_uattr := False\<rparr>)
      else case (if uses_wrapper then user_regs else Some regs) of
        None \<Rightarrow> (1, data0)
      | Some (cmd, uattr, sz) \<Rightarrow>
          let data = data0\<lparr>sb_cmd := cmd, sb_uattr := uattr, sb_size := sz, sb_map_fd := 0\<rparr> in
          if uattr \<and> cmd \<noteq> BPF_OTHER_CMD then
            let copy_sz = min (unat sz) attr_size in
            (case copy_attr copy_sz of
               None \<Rightarrow> (0, data\<lparr>sb_uattr := False, sb_attr := replicate attr_size 0\<rparr>)
             | Some bytes \<Rightarrow>
                 let attr = bytes @ replicate (attr_size - copy_sz) 0 in
                 (0, data\<lparr>sb_attr := attr, sb_map_fd :=
                       (if cmd = BPF_MAP_LOOKUP_BATCH \<or> cmd = BPF_MAP_LOOKUP_AND_DELETE_BATCH
                        then get_u32 attr 36 else get_u32 attr 0)\<rparr>))
          else (0, data))"

text \<open>The file of a descriptor: the magic of its super block, its name and its private data.\<close>

record bpf_file =
  f_magic :: u64
  f_dname :: string
  f_private :: "bpf_map option"

definition bpf_map_from_fd :: "bpf_file option \<Rightarrow> bpf_map option" where
  "bpf_map_from_fd file =
     (case file of
        None \<Rightarrow> None
      | Some f \<Rightarrow>
          (case f_private f of
             None \<Rightarrow> None
           | Some m \<Rightarrow>
               if f_magic f = 0xcafe4a11 then Some m
               else if (f_magic f = 0x09041934 \<or> f_magic f = 0x09041957) \<and> strcmp_eq (f_dname f) ''bpf-map''
               then Some m else None))"

text \<open>What the return handler finds in user space: for a single lookup and for a batch.\<close>

record bpf_user =
  u_key :: "u8 list option"
  u_val :: "u8 list"
  u_val_rd :: bool
  u_val_left :: nat
  u_count :: "u32 option"
  u_keys :: "u8 list option"
  u_vals :: "u8 list list"
  u_rd :: "nat \<Rightarrow> bool"
  u_wr :: "nat \<Rightarrow> nat"

definition sys_bpf_ret :: "hook_env \<Rightarrow> bool \<Rightarrow> bool \<Rightarrow> sys_bpf_data \<Rightarrow> (u32 \<Rightarrow> bpf_file option) \<Rightarrow> int \<Rightarrow>
    bpf_user \<Rightarrow> bpf_user" where
  "sys_bpf_ret env alloc1 alloc2 data fdget ret_val u =
     (if \<not> sb_uattr data then u
      else if ret_val < 0 \<and> ret_val \<noteq> -2 then u
      else if sb_cmd data \<notin> {BPF_MAP_LOOKUP_ELEM, BPF_MAP_LOOKUP_AND_DELETE_ELEM, BPF_MAP_LOOKUP_BATCH,
                BPF_MAP_LOOKUP_AND_DELETE_BATCH} then u
      else case bpf_map_from_fd (fdget (sb_map_fd data)) of
        None \<Rightarrow> u
      | Some m \<Rightarrow>
          let kind = classify_bpf_map (map_name m) in
          if kind = VH_BPF_MAP_UNKNOWN then u
          else if (sb_cmd data = BPF_MAP_LOOKUP_ELEM \<or> sb_cmd data = BPF_MAP_LOOKUP_AND_DELETE_ELEM) \<and>
                  ret_val = 0
          then u\<lparr>u_val := bpf_single_lookup_zero env alloc1 alloc2 m kind (u_key u) (u_val_rd u)
                           (u_val_left u) (u_val u)\<rparr>
          else if sb_cmd data = BPF_MAP_LOOKUP_BATCH \<or> sb_cmd data = BPF_MAP_LOOKUP_AND_DELETE_BATCH
          then u\<lparr>u_vals := bpf_batch_lookup_zero env alloc1 alloc2 m kind (sb_attr data) (u_count u)
                            (u_keys u) (u_rd u) (u_wr u) (u_vals u)\<rparr>
          else u)"

section \<open>The UDP send probe\<close>

text \<open>What the probe reads of the socket, and the flags and destination of the message.\<close>

record udp_sock =
  us_family :: u8
  us_daddr :: u32
  us_v6_daddr :: addr4
  us_sndbuf :: int
  us_dst :: "u32 option option"

record udp_msg =
  msg_name :: bool
  msg_dontwait :: bool

text \<open>\<open>us_dst\<close> is the cached route: no route, a route without a device, or its device index.\<close>

definition vpnhide_udp_dst_is_vpn_bound :: "hook_env \<Rightarrow> udp_sock \<Rightarrow> udp_msg option \<Rightarrow> bool" where
  "vpnhide_udp_dst_is_vpn_bound env sk msg =
     (if (case msg of Some m \<Rightarrow> msg_name m | None \<Rightarrow> False) then False
      else if us_family sk = AF_INET6 \<and> ipv6_addr_loopback (us_v6_daddr sk) then False
      else if us_family sk \<noteq> AF_INET6 \<and> ipv4_is_loopback (us_daddr sk) then False
      else case us_dst sk of
        None \<Rightarrow> False
      | Some dev \<Rightarrow> (case dev of None \<Rightarrow> False | Some i \<Rightarrow> vpn_index env i))"

record udp_sendmsg_data =
  ud_sk :: bool
  ud_orig_sndbuf :: int
  ud_spoofed :: bool

definition udp_sendmsg_entry :: "hook_env \<Rightarrow> uid_t \<Rightarrow> u64 \<Rightarrow> bool \<Rightarrow> udp_sock option \<Rightarrow> udp_msg option \<Rightarrow>
    udp_uid_rate list \<Rightarrow> udp_sendmsg_data \<Rightarrow> nat \<times> udp_sendmsg_data \<times> udp_sock option \<times> udp_uid_rate list" where
  "udp_sendmsg_entry env uid now alloc_ok sk_opt msg_opt rates data0 =
     (if \<not> hook_on env HOOK_UDP_SENDMSG uid then (1, data0, sk_opt, rates)
      else if \<not> is_target env uid then (1, data0, sk_opt, rates)
      else case (sk_opt, msg_opt) of
        (Some sk, Some msg) \<Rightarrow>
          let data = \<lparr>ud_sk = True, ud_orig_sndbuf = us_sndbuf sk, ud_spoofed = False\<rparr> in
          if msg_dontwait msg \<and> vpnhide_udp_dst_is_vpn_bound env sk (Some msg) then
            (case udp_rate_limit_exceeded now alloc_ok uid rates of (exceeded, rates') \<Rightarrow>
               if exceeded
               then (0, data\<lparr>ud_spoofed := True\<rparr>, Some (sk\<lparr>us_sndbuf := 0\<rparr>), rates')
               else (0, data, Some sk, rates'))
          else (0, data, Some sk, rates)
      | _ \<Rightarrow> (1, data0, sk_opt, rates))"

definition udp_sendmsg_ret :: "udp_sendmsg_data \<Rightarrow> udp_sock \<Rightarrow> udp_sock" where
  "udp_sendmsg_ret data sk =
     (if ud_spoofed data \<and> ud_sk data then sk\<lparr>us_sndbuf := ud_orig_sndbuf data\<rparr> else sk)"

section \<open>Layout and addition of the counters\<close>

lemma length_put_sv [simp]: "length (put_sv sv) = 32"
  by (simp add: put_sv_def)

lemma get_put_sv: "get_sv (put_sv sv @ v) = sv"
proof -
  note sk = get_u64_skip [of "u64_bytes a" for a]
  have "get_u64 (put_sv sv @ v) 0 = rxBytes sv"
    by (simp add: put_sv_def get_u64_bytes_append)
  moreover have "get_u64 (put_sv sv @ v) 8 = rxPackets sv"
    by (simp add: put_sv_def get_u64_bytes_append get_u64_skip)
  moreover have "get_u64 (put_sv sv @ v) 16 = txBytes sv"
    by (simp add: put_sv_def get_u64_bytes_append get_u64_skip)
  moreover have "get_u64 (put_sv sv @ v) 24 = txPackets sv"
    by (simp add: put_sv_def get_u64_bytes_append get_u64_skip)
  ultimately show ?thesis by (simp add: get_sv_def)
qed

lemma length_buf_sv_add [simp]: "length (buf_sv_add pf v s) = length v"
  by (auto simp: buf_sv_add_def)

lemma get_buf_sv_add: "32 \<le> length v \<Longrightarrow> get_sv (buf_sv_add pf v s) = sv_add pf (get_sv v) s"
  by (simp add: buf_sv_add_def get_put_sv)

lemma sv_add_simps [simp]:
  "rxBytes (sv_add pf a b) = rxBytes a + rxBytes b" "rxPackets (sv_add pf a b) = rxPackets a + rxPackets b"
  "txBytes (sv_add pf a b) = txBytes a + txBytes b" "txPackets (sv_add pf a b) = txPackets a + txPackets b"
  by (simp_all add: sv_add_def)

lemma get_u8_zeros: "get_u8 (replicate n 0) off = 0"
  by (cases "off < n") (simp_all add: get_u8_nth, simp add: get_u8_def)

lemma get_sv_zeros: "get_sv (replicate n 0) = sv_zero"
  by (simp add: get_sv_def sv_zero_def get_u64_def get_u32_def get_u8_zeros)

definition traffic_total :: "(stats_value \<Rightarrow> u64) \<Rightarrow> u8 list list \<Rightarrow> u64" where
  "traffic_total F vals = sum_list (map (\<lambda>v. F (get_sv v)) vals)"

definition vals_ok :: "bpf_map \<Rightarrow> u8 list list \<Rightarrow> bool" where
  "vals_ok m vals \<longleftrightarrow> (\<forall>v \<in> set vals. length v = unat (map_value_size m))"

text \<open>
  The contract of a counter that the laundering must conserve: it is additive, and the test that
  decides whether there is anything to move sees it.
\<close>

locale additive_counter =
  fixes F :: "stats_value \<Rightarrow> u64"
  assumes F_add: "F (sv_add pf' a b) = F a + F b"
    and F_zero: "F sv_zero = 0"
begin

definition looked_up :: "bpf_map \<Rightarrow> u32 \<Rightarrow> u64" where
  "looked_up m x = (case map_lookup_elem m x of None \<Rightarrow> 0 | Some sv \<Rightarrow> F sv)"

lemma F_foldl: "F (foldl (sv_add pf') s xs) = F s + sum_list (map F xs)"
  by (induction xs arbitrary: s) (auto simp: F_add add.assoc)

lemma F_collect_list:
  "F (foldl (\<lambda>s v. case map_lookup_elem m (vpn_ifindex v) of None \<Rightarrow> s | Some sv \<Rightarrow> sv_add pf' s sv) s vs) =
     F s + sum_list (map (looked_up m) (map vpn_ifindex vs))"
  by (induction vs arbitrary: s) (auto simp: F_add looked_up_def add.assoc split: option.splits)

end

locale traffic_counter = additive_counter F for F :: "stats_value \<Rightarrow> u64" +
  fixes pf :: bool
  assumes F_tested: "sv_rx_bytes pf s = 0 \<Longrightarrow> sv_tx_bytes pf s = 0 \<Longrightarrow> F s = 0"
begin

lemma total_update: "i < length vals \<Longrightarrow> traffic_total F (vals[i := v]) = traffic_total F vals - F (get_sv (vals ! i)) + F (get_sv v)"
  by (induction vals arbitrary: i) (auto simp: traffic_total_def algebra_simps split: nat.splits)

lemma batch_step_total:
  assumes "batch_step env m VH_BPF_MAP_IFACE keys rd wr i (vals, s, c) = (vals', s', c')"
    and "pf = stats_pkts_first env" "i < length vals" "vals_ok m vals" "map_value_size m \<ge> 32" "wr i = 0"
  shows "traffic_total F vals' + F s' = traffic_total F vals + F s \<and> vals_ok m vals' \<and> length vals' = length vals"
proof -
  have len: "length (vals ! i) = unat (map_value_size m)"
    using assms by (auto simp: vals_ok_def)
  have ok: "vals_ok m (vals[i := replicate (unat (map_value_size m)) 0])"
    using assms(4) by (auto simp: vals_ok_def dest!: subsetD [OF set_update_subset_insert])
  show ?thesis
    using assms len ok total_update [OF assms(3), of "replicate (unat (map_value_size m)) 0"]
    by (auto simp: batch_step_def Let_def F_add F_zero get_sv_zeros split: if_splits)
qed

lemma batch_fold_total:
  assumes "pf = stats_pkts_first env" "map_value_size m \<ge> 32" "vals_ok m vals" "\<forall>i < length vals. wr i = 0"
    and "set is \<subseteq> {..<length vals}" "fold (batch_step env m VH_BPF_MAP_IFACE keys rd wr) is (vals, s, c) = (vals', s', c')"
  shows "traffic_total F vals' + F s' = traffic_total F vals + F s \<and> vals_ok m vals' \<and> length vals' = length vals"
  using assms(3-)
proof (induction "is" arbitrary: vals s c)
  case (Cons i "is")
  obtain v1 s1 c1 where st: "batch_step env m VH_BPF_MAP_IFACE keys rd wr i (vals, s, c) = (v1, s1, c1)"
    by (metis prod_cases3)
  have "traffic_total F v1 + F s1 = traffic_total F vals + F s \<and> vals_ok m v1 \<and> length v1 = length vals"
    using batch_step_total [OF st assms(1)] Cons.prems assms(2) by auto
  with Cons.IH [of v1 s1 c1] Cons.prems st show ?case by auto
qed simp

lemma batch_cover_total:
  assumes "pf = stats_pkts_first env" "map_value_size m \<ge> 32" "vals_ok m vals" "p < length vals" "rd p" "wr p = 0"
  shows "traffic_total F (batch_cover env m rd wr (vals, s, Some p)) = traffic_total F vals + F s"
proof -
  have len: "length (vals ! p) = unat (map_value_size m)" using assms by (auto simp: vals_ok_def)
  moreover have "32 \<le> unat (map_value_size m)" using assms(2) by (simp add: word_le_nat_alt)
  ultimately show ?thesis using assms F_tested [of s]
    by (auto simp: batch_cover_def total_update get_buf_sv_add F_add)
qed

end

interpretation rx_counter: traffic_counter "sv_rx_bytes pf" pf for pf
  by unfold_locales (auto simp: sv_rx_bytes_def sv_zero_def)

interpretation tx_counter: traffic_counter "sv_tx_bytes pf" pf for pf
  by unfold_locales (auto simp: sv_tx_bytes_def sv_zero_def)

interpretation rxb: additive_counter rxBytes by unfold_locales (simp_all add: sv_zero_def)
interpretation rxp: additive_counter rxPackets by unfold_locales (simp_all add: sv_zero_def)
interpretation txb: additive_counter txBytes by unfold_locales (simp_all add: sv_zero_def)
interpretation txp: additive_counter txPackets by unfold_locales (simp_all add: sv_zero_def)

section \<open>The batch element by element\<close>

definition hides :: "hook_env \<Rightarrow> bpf_map \<Rightarrow> vh_bpf_map_kind \<Rightarrow> u8 list \<Rightarrow> nat \<Rightarrow> bool" where
  "hides env m kind keys i \<longleftrightarrow> is_key_vpn_or_target_uid env (batch_key m keys i) kind"

definition covers :: "hook_env \<Rightarrow> bpf_map \<Rightarrow> u8 list \<Rightarrow> nat \<Rightarrow> bool" where
  "covers env m keys i \<longleftrightarrow> \<not> vpn_index env (get_u32 (batch_key m keys i) 0) \<and>
     global_cover_ifindex env \<noteq> 0 \<and> get_u32 (batch_key m keys i) 0 = global_cover_ifindex env"

abbreviation batch_zeroed :: "bpf_map \<Rightarrow> (nat \<Rightarrow> nat) \<Rightarrow> u8 list list \<Rightarrow> nat \<Rightarrow> u8 list" where
  "batch_zeroed m wr vals i \<equiv> copy_to_user (vals ! i) (replicate (unat (map_value_size m)) 0) (wr i)"

definition batch_read :: "vh_bpf_map_kind \<Rightarrow> (nat \<Rightarrow> bool) \<Rightarrow> nat \<Rightarrow> bool" where
  "batch_read kind rd i \<longleftrightarrow> (if kind = VH_BPF_MAP_IFACE then rd i else True)"

lemma hides_iface: "hides env m VH_BPF_MAP_IFACE keys i = vpn_index env (get_u32 (batch_key m keys i) 0)"
  by (simp add: hides_def is_key_vpn_or_target_uid_def)

lemma batch_step_cases:
  "batch_step env m kind keys rd wr i (vals, s, c) =
     (if hides env m kind keys i \<and> batch_read kind rd i then vals[i := batch_zeroed m wr vals i] else vals,
      if hides env m kind keys i \<and> rd i \<and> kind = VH_BPF_MAP_IFACE \<and> map_value_size m \<ge> 32
      then sv_add (stats_pkts_first env) s (get_sv (vals ! i)) else s,
      if kind = VH_BPF_MAP_IFACE \<and> covers env m keys i then Some i else c)"
  by (auto simp: batch_step_def Let_def hides_def covers_def batch_read_def is_key_vpn_or_target_uid_def)

lemma batch_loop_Suc:
  "batch_loop env m kind keys rd wr (Suc n) vals =
     batch_step env m kind keys rd wr n (batch_loop env m kind keys rd wr n vals)"
  by (simp add: batch_loop_def)

lemma batch_loop_vals:
  assumes "n \<le> length vals"
  shows "length (fst (batch_loop env m kind keys rd wr n vals)) = length vals \<and>
    (\<forall>i < length vals. fst (batch_loop env m kind keys rd wr n vals) ! i =
      (if i < n \<and> hides env m kind keys i \<and> batch_read kind rd i then batch_zeroed m wr vals i else vals ! i))"
  using assms
proof (induction n)
  case 0
  then show ?case by (simp add: batch_loop_def)
next
  case (Suc n)
  obtain v s c where l: "batch_loop env m kind keys rd wr n vals = (v, s, c)" by (metis prod_cases3)
  with Suc show ?case
    by (auto simp: batch_loop_Suc batch_step_cases nth_list_update less_Suc_eq)
qed

lemma batch_loop_sum:
  assumes "n \<le> length vals" "map_value_size m \<ge> 32"
  shows "fst (snd (batch_loop env m VH_BPF_MAP_IFACE keys rd wr n vals)) =
    foldl (sv_add (stats_pkts_first env)) sv_zero (map (\<lambda>i. get_sv (vals ! i))
      (filter (\<lambda>i. hides env m VH_BPF_MAP_IFACE keys i \<and> rd i) [0..<n]))"
  using assms
proof (induction n)
  case 0
  then show ?case by (simp add: batch_loop_def)
next
  case (Suc n)
  obtain v s c where l: "batch_loop env m VH_BPF_MAP_IFACE keys rd wr n vals = (v, s, c)" by (metis prod_cases3)
  with batch_loop_vals [of n vals env m VH_BPF_MAP_IFACE keys rd wr] Suc.prems have "v ! n = vals ! n"
    by simp
  with l Suc show ?case by (auto simp: batch_loop_Suc batch_step_cases)
qed

lemma batch_loop_cover:
  "snd (snd (batch_loop env m VH_BPF_MAP_IFACE keys rd wr n vals)) =
    (let ps = filter (covers env m keys) [0..<n] in if ps = [] then None else Some (last ps))"
proof (induction n)
  case (Suc n)
  obtain v s c where l: "batch_loop env m VH_BPF_MAP_IFACE keys rd wr n vals = (v, s, c)" by (metis prod_cases3)
  with Suc show ?case by (auto simp: batch_loop_Suc batch_step_cases Let_def)
qed (simp add: batch_loop_def)

lemma batch_loop_cover_Some:
  assumes "p < n" "covers env m keys p"
  shows "\<exists>q. snd (snd (batch_loop env m VH_BPF_MAP_IFACE keys rd wr n vals)) = Some q \<and> q < n \<and> covers env m keys q"
proof -
  let ?ps = "filter (covers env m keys) [0..<n]"
  from assms have ne: "?ps \<noteq> []" by (auto simp: filter_empty_conv)
  then have "last ?ps \<in> set ?ps" by (rule last_in_set)
  then show ?thesis using ne by (auto simp: batch_loop_cover Let_def)
qed

text \<open>What the batch guard leaves to the loop.\<close>

definition batch_guard :: "bool \<Rightarrow> bool \<Rightarrow> bpf_map \<Rightarrow> u8 list \<Rightarrow> u32 \<Rightarrow> bool" where
  "batch_guard keys_ok value_ok m attr cnt \<longleftrightarrow>
     cnt \<noteq> 0 \<and> get_u64 attr 16 \<noteq> 0 \<and> get_u64 attr 24 \<noteq> 0 \<and> cnt \<le> 4096 \<and>
     map_key_size m \<noteq> 0 \<and> map_value_size m \<noteq> 0 \<and>
     (unat cnt * unat (map_key_size m) \<le> 64 \<or> keys_ok) \<and> (map_value_size m \<le> 256 \<or> value_ok)"

lemma batch_lookup_run:
  "batch_guard keys_ok value_ok m attr cnt \<Longrightarrow>
   bpf_batch_lookup_zero env keys_ok value_ok m kind attr (Some cnt) (Some keys) rd wr vals =
     batch_cover env m rd wr (batch_loop env m kind keys rd wr (unat cnt) vals)"
  by (auto simp: batch_guard_def bpf_batch_lookup_zero_def)

lemma batch_cover_other: "kind \<noteq> VH_BPF_MAP_IFACE \<Longrightarrow>
  snd (snd (batch_loop env m kind keys rd wr n vals)) = None"
proof (induction n)
  case (Suc n)
  obtain v s c where l: "batch_loop env m kind keys rd wr n vals = (v, s, c)" by (metis prod_cases3)
  with Suc show ?case by (auto simp: batch_loop_Suc batch_step_cases)
qed (simp add: batch_loop_def)

lemma batch_cover_None: "snd (snd st) = None \<Longrightarrow> batch_cover env m rd wr st = fst st"
  by (cases st) (auto simp: batch_cover_def)

context traffic_counter
begin

lemma batch_conserves:
  assumes pf: "pf = stats_pkts_first env"
    and vs: "map_value_size m \<ge> 32" "vals_ok m vals" and n: "length vals = n"
    and io: "\<And>i. i < n \<Longrightarrow> rd i \<and> wr i = 0" and cov: "p < n" "covers env m keys p"
  shows "traffic_total F (batch_cover env m rd wr (batch_loop env m VH_BPF_MAP_IFACE keys rd wr n vals)) =
    traffic_total F vals"
proof -
  obtain v s c where l: "batch_loop env m VH_BPF_MAP_IFACE keys rd wr n vals = (v, s, c)" by (metis prod_cases3)
  have inv: "traffic_total F v + F s = traffic_total F vals + F sv_zero \<and> vals_ok m v \<and> length v = length vals"
    using l io n by (intro batch_fold_total [OF pf vs, of wr "[0..<n]"]) (auto simp: batch_loop_def)
  obtain q where q: "c = Some q" "q < n" using batch_loop_cover_Some [OF cov, of rd wr vals] l by auto
  have "traffic_total F (batch_cover env m rd wr (v, s, Some q)) = traffic_total F v + F s"
    using inv q io n vs by (intro batch_cover_total [OF pf]) auto
  with inv l q show ?thesis by (simp add: F_zero)
qed

end

lemma batch_cover_nth:
  assumes "i < length vals" "snd (snd (vals, s, c)) \<noteq> Some i"
  shows "batch_cover env m rd wr (vals, s, c) ! i = vals ! i"
proof (cases c)
  case (Some p)
  with assms(2) have "p \<noteq> i" by simp
  with Some show ?thesis by (simp add: batch_cover_def)
qed (simp add: batch_cover_def)

section \<open>A batch against the same lookups one at a time\<close>

text \<open>
  The batch shows the map: the returned keys are different, each value is what a lookup of its key
  gives, and no other key is in the map.
\<close>

definition iface_key :: "bpf_map \<Rightarrow> u8 list \<Rightarrow> nat \<Rightarrow> u32" where
  "iface_key m keys i = get_u32 (batch_key m keys i) 0"

definition batch_shows_map :: "bpf_map \<Rightarrow> u8 list \<Rightarrow> u8 list list \<Rightarrow> bool" where
  "batch_shows_map m keys vals \<longleftrightarrow> distinct (map (iface_key m keys) [0..<length vals]) \<and>
     (\<forall>i < length vals. map_lookup_elem m (iface_key m keys i) = Some (get_sv (vals ! i))) \<and>
     (\<forall>x. x \<notin> iface_key m keys ` {..<length vals} \<longrightarrow> map_lookup_elem m x = None)"

lemma vpn_index_set: "global_active_vpns env = Some vs \<Longrightarrow> vpn_index env x \<longleftrightarrow> x \<in> vpn_ifindex ` set vs"
  by (auto simp: is_active_vpn_ifindex_def list_ex_iff)

context additive_counter
begin

lemma collect_eq_batch:
  assumes "batch_shows_map m keys vals" "global_active_vpns env = Some vs" "distinct (map vpn_ifindex vs)"
    and "map_value_size m \<ge> 32" "\<And>i. i < length vals \<Longrightarrow> rd i"
  shows "F (collect_vpn_traffic_sum env m sv_zero) =
    F (fst (snd (batch_loop env m VH_BPF_MAP_IFACE keys rd wr (length vals) vals)))"
proof -
  let ?n = "length vals"
  let ?K = "iface_key m keys"
  let ?V = "vpn_ifindex ` set vs"
  let ?I = "{i. i < ?n \<and> ?K i \<in> ?V}"
  have inj: "inj_on ?K {..<?n}" using assms(1) by (auto simp: batch_shows_map_def distinct_map atLeast0LessThan)
  have look: "looked_up m (?K i) = F (get_sv (vals ! i))" if "i < ?n" for i
    using assms(1) that by (simp add: batch_shows_map_def looked_up_def)
  have none: "looked_up m x = 0" if "x \<notin> ?K ` {..<?n}" for x
    using assms(1) that by (simp add: batch_shows_map_def looked_up_def)
  have "F (fst (snd (batch_loop env m VH_BPF_MAP_IFACE keys rd wr ?n vals))) =
      sum_list (map (\<lambda>i. F (get_sv (vals ! i))) (filter (\<lambda>i. hides env m VH_BPF_MAP_IFACE keys i \<and> rd i) [0..<?n]))"
    using assms(4) by (simp add: batch_loop_sum F_foldl F_zero comp_def)
  also have "\<dots> = (\<Sum>i \<in> ?I. F (get_sv (vals ! i)))"
    using assms(5) by (subst sum_list_distinct_conv_sum_set)
      (auto simp: hides_iface vpn_index_set [OF assms(2)] iface_key_def intro!: sum.cong)
  also have "\<dots> = (\<Sum>i \<in> ?I. looked_up m (?K i))" by (intro sum.cong) (auto simp: look)
  also have "\<dots> = sum (looked_up m) (?K ` ?I)"
    using inj by (subst sum.reindex) (auto intro: inj_on_subset)
  also have "\<dots> = sum (looked_up m) ?V"
  proof (rule sum.mono_neutral_left)
    have "x \<notin> ?K ` {..<?n}" if x: "x \<in> ?V" "x \<notin> ?K ` ?I" for x
    proof
      assume "x \<in> ?K ` {..<?n}"
      then obtain i where i: "i < ?n" "x = ?K i" by blast
      with x(1) have "i \<in> ?I" by simp
      with i(2) x(2) show False by blast
    qed
    then show "\<forall>x \<in> ?V - ?K ` ?I. looked_up m x = 0" using none by blast
  qed auto
  also have "\<dots> = sum_list (map (looked_up m) (map vpn_ifindex vs))"
    using sum_list_distinct_conv_sum_set [OF assms(3), of "looked_up m"] by simp
  also have "\<dots> = F (collect_vpn_traffic_sum env m sv_zero)"
    by (simp only: collect_vpn_traffic_sum_def assms(2) option.case F_collect_list F_zero add_0)
  finally show ?thesis by simp
qed

end

lemma collect_eq_batch_sum:
  assumes "batch_shows_map m keys vals" "global_active_vpns env = Some vs" "distinct (map vpn_ifindex vs)"
    and "map_value_size m \<ge> 32" "\<And>i. i < length vals \<Longrightarrow> rd i"
  shows "collect_vpn_traffic_sum env m sv_zero =
    fst (snd (batch_loop env m VH_BPF_MAP_IFACE keys rd wr (length vals) vals))"
  by (rule stats_value.equality)
    (use rxb.collect_eq_batch [OF assms] rxp.collect_eq_batch [OF assms] txb.collect_eq_batch [OF assms]
       txp.collect_eq_batch [OF assms] in simp_all)

lemma get_u32_take: "4 \<le> k \<Longrightarrow> get_u32 (take k xs) 0 = get_u32 xs 0"
  by (simp add: get_u32_def get_u8_take)

section \<open>Properties\<close>

text \<open>
  C18: Hiding a VPN does not lose traffic. In a batched read of an interface counter map whose copies
  succeed and which contains the cover interface, every VPN entry is returned as zero, and the sums
  of received and of sent bytes over the whole batch are what they were: the hidden traffic is on
  the cover interface.
\<close>

theorem batch_traffic_conserved:
  assumes "batch_guard keys_ok value_ok m attr cnt" and "map_value_size m \<ge> 32"
    and "vals_ok m vals" and "length vals = unat cnt"
    and "\<And>i. i < unat cnt \<Longrightarrow> rd i \<and> wr i = 0" and "p < unat cnt" and "covers env m keys p"
    and "res = bpf_batch_lookup_zero env keys_ok value_ok m VH_BPF_MAP_IFACE attr (Some cnt) (Some keys) rd wr vals"
  shows "traffic_total (sv_rx_bytes (stats_pkts_first env)) res =
           traffic_total (sv_rx_bytes (stats_pkts_first env)) vals \<and>
         traffic_total (sv_tx_bytes (stats_pkts_first env)) res =
           traffic_total (sv_tx_bytes (stats_pkts_first env)) vals \<and>
         (\<forall>i. i < unat cnt \<longrightarrow> vpn_index env (get_u32 (batch_key m keys i) 0) \<longrightarrow>
            res ! i = replicate (unat (map_value_size m)) 0)"
proof -
  let ?l = "batch_loop env m VH_BPF_MAP_IFACE keys rd wr (unat cnt) vals"
  have res: "res = batch_cover env m rd wr ?l" using assms(8) batch_lookup_run [OF assms(1)] by simp
  obtain v s c where l: "?l = (v, s, c)" by (metis prod_cases3)
  obtain q where q: "c = Some q" "covers env m keys q"
    using batch_loop_cover_Some [OF assms(6,7), of rd wr vals] l by auto
  have "res ! i = replicate (unat (map_value_size m)) 0"
    if i: "i < unat cnt" "vpn_index env (get_u32 (batch_key m keys i) 0)" for i
  proof -
    have ne: "c \<noteq> Some i" using q i by (auto simp: covers_def)
    have len: "length (vals ! i) = unat (map_value_size m)" using assms(3,4) i by (auto simp: vals_ok_def)
    from batch_loop_vals [of "unat cnt" vals env m VH_BPF_MAP_IFACE keys rd wr] l i assms(4) assms(5) [OF i(1)]
    have v: "v ! i = replicate (unat (map_value_size m)) 0" "length v = unat cnt"
      by (auto simp: hides_iface batch_read_def len)
    then show ?thesis using res l ne i by (simp add: batch_cover_nth)
  qed
  then show ?thesis
    using rx_counter.batch_conserves [where rd = rd and wr = wr, OF refl assms(2,3,4) _ assms(6,7)]
      tx_counter.batch_conserves [where rd = rd and wr = wr, OF refl assms(2,3,4) _ assms(6,7)]
      res assms(5) by blast
qed

text \<open>
  C19: The batched path and the single path are equivalent. On an interface counter map with different
  active VPN indices, whose batch shows the whole map and whose copies succeed, each element of the
  batch is returned exactly as a single lookup of its key would be: zero for a VPN, its own counters
  plus all hidden traffic for the cover interface, and unchanged otherwise.
\<close>

theorem batch_agrees_with_single:
  assumes guard: "batch_guard keys_ok value_ok m attr cnt" and vs: "map_value_size m \<ge> 32" "vals_ok m vals"
    and n: "length vals = unat cnt" and io: "\<And>i. i < unat cnt \<Longrightarrow> rd i \<and> wr i = 0" and ks: "4 \<le> map_key_size m"
    and map: "batch_shows_map m keys vals" and vpns: "global_active_vpns env = Some vpns" "distinct (map vpn_ifindex vpns)"
    and i: "i < unat cnt"
  shows "bpf_batch_lookup_zero env keys_ok value_ok m VH_BPF_MAP_IFACE attr (Some cnt) (Some keys) rd wr vals ! i =
    bpf_single_lookup_zero env True True m VH_BPF_MAP_IFACE
      (Some (take (unat (map_key_size m)) (batch_key m keys i))) True 0 (vals ! i)"
proof -
  let ?l = "batch_loop env m VH_BPF_MAP_IFACE keys rd wr (unat cnt) vals"
  obtain v s c where l: "?l = (v, s, c)" by (metis prod_cases3)
  have key: "get_u32 (take (unat (map_key_size m)) (batch_key m keys i)) 0 = iface_key m keys i"
    using ks by (simp add: get_u32_take iface_key_def word_le_nat_alt)
  have len: "length (vals ! i) = unat (map_value_size m)" using vs(2) n i by (auto simp: vals_ok_def)
  have sum: "collect_vpn_traffic_sum env m sv_zero = s"
    using collect_eq_batch_sum [where rd = rd and wr = wr, OF map vpns vs(1)] io n l by simp
  have v: "length v = unat cnt" "v ! i = (if vpn_index env (iface_key m keys i) then replicate (unat (map_value_size m)) 0 else vals ! i)"
    using batch_loop_vals [of "unat cnt" vals env m VH_BPF_MAP_IFACE keys rd wr] l i n io [OF i]
    by (auto simp: hides_iface batch_read_def len iface_key_def)
  have inj: "q = i" if "q < unat cnt" "iface_key m keys q = iface_key m keys i" for q
    using map that i n by (auto simp: batch_shows_map_def distinct_map inj_on_def)
  have run: "bpf_batch_lookup_zero env keys_ok value_ok m VH_BPF_MAP_IFACE attr (Some cnt) (Some keys) rd wr vals =
      batch_cover env m rd wr (v, s, c)" using batch_lookup_run [OF guard] l by simp
  have other: "batch_cover env m rd wr (v, s, c) ! i = v ! i" if "\<not> covers env m keys i"
  proof (rule batch_cover_nth)
    have "c \<noteq> Some i"
    proof
      assume "c = Some i"
      then have "filter (covers env m keys) [0..<unat cnt] \<noteq> []" "last (filter (covers env m keys) [0..<unat cnt]) = i"
        using batch_loop_cover [of env m keys rd wr "unat cnt" vals] l by (auto simp: Let_def split: if_splits)
      then show False using that last_in_set by fastforce
    qed
    then show "snd (snd (v, s, c)) \<noteq> Some i" by simp
  qed (use v i in simp)
  have cover: "batch_cover env m rd wr (v, s, c) ! i = bpf_single_cover_update env True 0 (vals ! i) s"
    if cv: "covers env m keys i"
  proof -
    obtain q where q: "c = Some q" "q < unat cnt" "covers env m keys q"
      using batch_loop_cover_Some [OF i cv, of rd wr vals] l by auto
    with cv inj [of q] have "q = i" by (auto simp: covers_def iface_key_def)
    with q cv v i io [OF i] vs(1) len show ?thesis
      by (auto simp: batch_cover_def bpf_single_cover_update_def covers_def iface_key_def)
  qed
  show ?thesis
  proof (cases "covers env m keys i")
    case True
    then show ?thesis using run cover sum key
      by (auto simp: bpf_single_lookup_zero_def is_key_vpn_or_target_uid_def covers_def iface_key_def Let_def)
  next
    case False
    then show ?thesis using run other v key len
      by (auto simp: bpf_single_lookup_zero_def is_key_vpn_or_target_uid_def covers_def iface_key_def Let_def)
  qed
qed

text \<open>
  A batched read of a per-UID counter map hides exactly the entries of target UIDs and of VPN
  interfaces: element by element they are overwritten with zeros (as far as the copy gets), and every
  other element is returned unchanged, whether or not values can be read back.
\<close>

theorem batch_hides_uids:
  assumes "batch_guard keys_ok value_ok m attr cnt" and "length vals = unat cnt"
  shows "bpf_batch_lookup_zero env keys_ok value_ok m VH_BPF_MAP_KEYED_UID attr (Some cnt) (Some keys) rd wr vals =
    map (\<lambda>i. if vpn_index env (get_u32 (batch_key m keys i) 12) \<or> is_target env (get_u32 (batch_key m keys i) 0)
            then copy_to_user (vals ! i) (replicate (unat (map_value_size m)) 0) (wr i) else vals ! i) [0..<unat cnt]"
proof -
  let ?l = "batch_loop env m VH_BPF_MAP_KEYED_UID keys rd wr (unat cnt) vals"
  have "bpf_batch_lookup_zero env keys_ok value_ok m VH_BPF_MAP_KEYED_UID attr (Some cnt) (Some keys) rd wr vals = fst ?l"
    using batch_lookup_run [OF assms(1)] batch_cover_None batch_cover_other by simp
  then show ?thesis
    using batch_loop_vals [of "unat cnt" vals env m VH_BPF_MAP_KEYED_UID keys rd wr] assms(2)
    by (intro nth_equalityI) (auto simp: hides_def is_key_vpn_or_target_uid_def batch_read_def)
qed

text \<open>
  The send probe is transparent. Whatever it decides, once the return handler has run the socket has
  its own send buffer size again; and a send that is blocking, has an explicit destination, or does
  not leave through an active VPN interface neither touches the socket nor consumes tokens.
\<close>

theorem udp_send_transparent:
  assumes "udp_sendmsg_entry env uid now alloc_ok (Some sk) (Some msg) rates data0 = (0, data, Some sk', rates')"
  shows "udp_sendmsg_ret data sk' = sk \<and>
    (\<not> (msg_dontwait msg \<and> vpnhide_udp_dst_is_vpn_bound env sk (Some msg)) \<longrightarrow> sk' = sk \<and> rates' = rates)"
  using assms by (auto simp: udp_sendmsg_entry_def udp_sendmsg_ret_def Let_def split: if_splits prod.splits)

definition sample_bpf_env :: hook_env where
  "sample_bpf_env = \<lparr>global_policy = None, global_active_vpns = Some [\<lparr>vpn_ifindex = 7, vpn_name = ''tun0''\<rparr>],
     g_vpn_name_cache = None, global_spoof_ip = None, global_cover_ifindex = 3, stats_pkts_first = False\<rparr>"

definition sample_map :: bpf_map where
  "sample_map = \<lparr>map_name = ''iface_stats_map'', map_key_size = 4, map_value_size = 32,
     map_lookup_elem = [7 \<mapsto> \<lparr>rxBytes = 10, rxPackets = 1, txBytes = 20, txPackets = 2\<rparr>,
       3 \<mapsto> \<lparr>rxBytes = 100, rxPackets = 5, txBytes = 200, txPackets = 6\<rparr>]\<rparr>"

definition sample_keys :: "u8 list" where
  "sample_keys = u32_bytes 7 @ u32_bytes 3"

definition sample_vals :: "u8 list list" where
  "sample_vals = [put_sv \<lparr>rxBytes = 10, rxPackets = 1, txBytes = 20, txPackets = 2\<rparr>,
     put_sv \<lparr>rxBytes = 100, rxPackets = 5, txBytes = 200, txPackets = 6\<rparr>]"

definition sample_attr :: "u8 list" where
  "sample_attr = replicate 64 1"

lemma sample_batch_guard: "batch_guard False False sample_map sample_attr 2"
  by code_simp

lemma sample_batch_keys:
  "get_u32 (batch_key sample_map sample_keys 0) 0 = 7" "get_u32 (batch_key sample_map sample_keys 1) 0 = 3"
  by code_simp+

lemma sample_batch_covers: "covers sample_bpf_env sample_map sample_keys 1"
  by code_simp

lemma sample_vals_ok: "vals_ok sample_map sample_vals"
  by (simp add: vals_ok_def sample_vals_def sample_map_def)

theorem batch_traffic_conserved_witness:
  "traffic_total (sv_rx_bytes False) (bpf_batch_lookup_zero sample_bpf_env False False sample_map VH_BPF_MAP_IFACE
     sample_attr (Some 2) (Some sample_keys) (\<lambda>_. True) (\<lambda>_. 0) sample_vals) = 110"
proof -
  have "traffic_total (sv_rx_bytes False) (bpf_batch_lookup_zero sample_bpf_env False False sample_map VH_BPF_MAP_IFACE
     sample_attr (Some 2) (Some sample_keys) (\<lambda>_. True) (\<lambda>_. 0) sample_vals) =
     traffic_total (sv_rx_bytes False) sample_vals"
    using batch_traffic_conserved [OF sample_batch_guard _ sample_vals_ok _ _ _ sample_batch_covers refl,
        of "\<lambda>_. True" "\<lambda>_. 0"]
    by (simp add: sample_map_def sample_vals_def sample_bpf_env_def)
  also have "\<dots> = 110" by code_simp
  finally show ?thesis .
qed

lemma sample_iface_keys: "iface_key sample_map sample_keys 0 = 7" "iface_key sample_map sample_keys (Suc 0) = 3"
  using sample_batch_keys by (simp_all add: iface_key_def)

lemma sample_batch_shows_map: "batch_shows_map sample_map sample_keys sample_vals"
proof -
  have n: "length sample_vals = Suc (Suc 0)" by (simp add: sample_vals_def)
  have v: "get_sv (sample_vals ! 0) = \<lparr>rxBytes = 10, rxPackets = 1, txBytes = 20, txPackets = 2\<rparr>"
    "get_sv (sample_vals ! Suc 0) = \<lparr>rxBytes = 100, rxPackets = 5, txBytes = 200, txPackets = 6\<rparr>"
    using get_put_sv [where v = "[]"] by (simp_all add: sample_vals_def)
  have l: "map_lookup_elem sample_map = [7 \<mapsto> \<lparr>rxBytes = 10, rxPackets = 1, txBytes = 20, txPackets = 2\<rparr>,
       3 \<mapsto> \<lparr>rxBytes = 100, rxPackets = 5, txBytes = 200, txPackets = 6\<rparr>]" by (simp add: sample_map_def)
  show ?thesis unfolding batch_shows_map_def n
    by (auto simp: less_Suc_eq sample_iface_keys v l lessThan_Suc upt_rec)
qed

theorem batch_agrees_with_single_witness:
  "bpf_batch_lookup_zero sample_bpf_env False False sample_map VH_BPF_MAP_IFACE
     sample_attr (Some 2) (Some sample_keys) (\<lambda>_. True) (\<lambda>_. 0) sample_vals ! 1 =
   bpf_single_lookup_zero sample_bpf_env True True sample_map VH_BPF_MAP_IFACE
     (Some (take (unat (map_key_size sample_map)) (batch_key sample_map sample_keys 1))) True 0 (sample_vals ! 1)"
proof (rule batch_agrees_with_single [OF sample_batch_guard _ sample_vals_ok _ _ _ sample_batch_shows_map])
  show "global_active_vpns sample_bpf_env = Some [\<lparr>vpn_ifindex = 7, vpn_name = ''tun0''\<rparr>]"
    by (simp add: sample_bpf_env_def)
qed (simp_all add: sample_map_def sample_vals_def)

definition sample_uid_map :: bpf_map where
  "sample_uid_map = sample_map\<lparr>map_name := ''stats_map_A'', map_key_size := 16\<rparr>"

lemma sample_uid_guard: "batch_guard True False sample_uid_map sample_attr 2"
  by code_simp

theorem batch_hides_uids_witness:
  "bpf_batch_lookup_zero sample_bpf_env True False sample_uid_map VH_BPF_MAP_KEYED_UID sample_attr (Some 2)
     (Some (replicate 12 0 @ u32_bytes 7 @ replicate 16 0)) (\<lambda>_. False) (\<lambda>_. 0) sample_vals =
   [replicate 32 0, sample_vals ! 1]"
proof -
  let ?keys = "replicate 12 0 @ u32_bytes 7 @ replicate 16 0"
  have k: "get_u32 (batch_key sample_uid_map ?keys 0) 12 = 7" "get_u32 (batch_key sample_uid_map ?keys (Suc 0)) 12 = 0"
    by code_simp+
  have "bpf_batch_lookup_zero sample_bpf_env True False sample_uid_map VH_BPF_MAP_KEYED_UID sample_attr (Some 2)
     (Some ?keys) (\<lambda>_. False) (\<lambda>_. 0) sample_vals =
    map (\<lambda>i. if vpn_index sample_bpf_env (get_u32 (batch_key sample_uid_map ?keys i) 12) \<or>
                is_target sample_bpf_env (get_u32 (batch_key sample_uid_map ?keys i) 0)
            then copy_to_user (sample_vals ! i) (replicate (unat (map_value_size sample_uid_map)) 0) 0
            else sample_vals ! i) [0..<2]"
    using batch_hides_uids [OF sample_uid_guard, of sample_vals sample_bpf_env ?keys "\<lambda>_. False" "\<lambda>_. 0"]
    by (simp add: sample_vals_def)
  also have "\<dots> = [replicate 32 0, sample_vals ! 1]"
    by (simp add: upt_rec k) (simp add: sample_bpf_env_def is_active_vpn_ifindex_def is_target_uid_val_def
        sample_uid_map_def sample_map_def sample_vals_def)
  finally show ?thesis .
qed

definition sample_udp_sock :: udp_sock where
  "sample_udp_sock = \<lparr>us_family = AF_INET, us_daddr = 0x08080808, us_v6_daddr = (0, 0, 0, 0),
     us_sndbuf = 212992, us_dst = Some (Some 7)\<rparr>"

definition sample_udp_env :: hook_env where
  "sample_udp_env = sample_bpf_env\<lparr>global_policy := Some (sample_policy\<lparr>active_hooks_mask := 0xFFFFFFFF,
     kmod_uids := [10123], kmod_match_mode := 0, app_hook_masks := []\<rparr>)\<rparr>"

theorem udp_send_transparent_witness:
  "udp_sendmsg_ret \<lparr>ud_sk = True, ud_orig_sndbuf = 212992, ud_spoofed = True\<rparr> (sample_udp_sock\<lparr>us_sndbuf := 0\<rparr>) =
     sample_udp_sock"
proof -
  have "udp_sendmsg_entry sample_udp_env 10123 5 True (Some sample_udp_sock)
      (Some \<lparr>msg_name = False, msg_dontwait = True\<rparr>) [\<lparr>ur_uid = 10123, last_time_ns = 5, tokens = 0\<rparr>]
      \<lparr>ud_sk = False, ud_orig_sndbuf = 0, ud_spoofed = False\<rparr> =
    (0, \<lparr>ud_sk = True, ud_orig_sndbuf = 212992, ud_spoofed = True\<rparr>, Some (sample_udp_sock\<lparr>us_sndbuf := 0\<rparr>),
     [\<lparr>ur_uid = 10123, last_time_ns = 5, tokens = 0\<rparr>])"
    by code_simp
  from udp_send_transparent [OF this] show ?thesis by blast
qed

end
