(* ===== verification/Netlink_Hooks.thy ===== *)
theory Netlink_Hooks
  imports Seq_Hooks
begin

text \<open>
  The interface ioctl hooks and the netlink dump hooks of kmod/hooks_netlink.c. A socket buffer is the
  list of its bytes (None for a NULL pointer). Pointers the hooks follow into kernel objects are
  options; where the code reads them with \<^verbatim>\<open>copy_from_kernel_nofault\<close> there is one more option, whose
  None is a failed read. An entry handler returns None when it skips the return handler and
  otherwise the instance data.
\<close>

section \<open>Interface ioctls\<close>

record net_device =
  dev_ifindex :: u32
  dev_name :: string

abbreviation (input) IFNAMSIZ :: nat where "IFNAMSIZ \<equiv> 16"
abbreviation (input) IFREQ_SIZE :: nat where "IFREQ_SIZE \<equiv> 40"

text \<open>A name buffer of \<^verbatim>\<open>IFNAMSIZ\<close> bytes with its last byte overwritten by the terminator.\<close>

definition terminated :: "string \<Rightarrow> string" where
  "terminated name = (take IFNAMSIZ name)[IFNAMSIZ - 1 := NUL]"

definition dev_ioctl_entry :: "hook_env \<Rightarrow> uid_t \<Rightarrow> string option \<Rightarrow> string option option" where
  "dev_ioctl_entry env uid kifr =
     (if \<not> hook_on env HOOK_DEV_IOCTL uid then None
      else if \<not> is_target env uid then None
      else Some kifr)"

definition dev_ioctl_ret :: "hook_env \<Rightarrow> uid_t \<Rightarrow> string option \<Rightarrow> int \<Rightarrow> kstats \<Rightarrow> int \<times> kstats" where
  "dev_ioctl_ret env uid kifr retval st =
     (if retval \<noteq> 0 then (retval, st)
      else case kifr of
        None \<Rightarrow> (retval, st)
      | Some ifr_name \<Rightarrow>
          if vpn_ifname env (terminated ifr_name) then (-19, intercept uid 0 st) else (retval, st))"

datatype ioctl_cmd = SIOCGIFADDR | SIOCGIFDSTADDR | SIOCGIFBRDADDR | SIOCGIFNETMASK | SIOCGIFCONF
  | IOCTL_OTHER

definition inet_ioctl_entry :: "hook_env \<Rightarrow> uid_t \<Rightarrow> ioctl_cmd \<Rightarrow> bool \<Rightarrow> bool option" where
  "inet_ioctl_entry env uid cmd uarg =
     (if cmd \<notin> {SIOCGIFADDR, SIOCGIFDSTADDR, SIOCGIFBRDADDR, SIOCGIFNETMASK} then None
      else if \<not> hook_on env HOOK_DEV_IOCTL uid then None
      else if \<not> is_target env uid then None
      else Some uarg)"

definition inet_ioctl_ret :: "hook_env \<Rightarrow> uid_t \<Rightarrow> bool \<Rightarrow> string option \<Rightarrow> int \<Rightarrow> kstats \<Rightarrow> int \<times> kstats" where
  "inet_ioctl_ret env uid uarg user_name retval st =
     (if retval \<noteq> 0 then (retval, st)
      else if \<not> uarg then (retval, st)
      else case user_name of
        None \<Rightarrow> (retval, st)
      | Some name \<Rightarrow>
          if vpn_ifname env (terminated name) then (-19, intercept uid 0 st) else (retval, st))"

section \<open>SIOCGIFCONF\<close>

text \<open>
  The user's array of \<^verbatim>\<open>struct ifreq\<close> as bytes, 40 per entry, the name first. \<open>rd i\<close> says whether entry
  \<open>i\<close> can be copied in; \<open>wr i\<close> is the number of bytes a copy back to entry \<open>i\<close> does not write.
\<close>

definition ifreq_at :: "u8 list \<Rightarrow> nat \<Rightarrow> u8 list" where
  "ifreq_at buf i = take IFREQ_SIZE (drop (IFREQ_SIZE * i) buf)"

definition ifreq_term :: "u8 list \<Rightarrow> u8 list" where
  "ifreq_term e = e[IFNAMSIZ - 1 := 0]"

definition ifreq_name :: "u8 list \<Rightarrow> string" where
  "ifreq_name e = map (\<lambda>b. char_of (unat b)) (take IFNAMSIZ e)"

definition write_at :: "u8 list \<Rightarrow> nat \<Rightarrow> u8 list \<Rightarrow> nat \<Rightarrow> u8 list" where
  "write_at buf off new left = take off buf @ copy_to_user (drop off buf) new left"

datatype filter_ifconf_result = FILTER_IFCONF_NO_CHANGE | FILTER_IFCONF_CHANGED | FILTER_IFCONF_COPY_FAULT

function filter_ifconf_loop :: "hook_env \<Rightarrow> (nat \<Rightarrow> bool) \<Rightarrow> (nat \<Rightarrow> nat) \<Rightarrow> nat \<Rightarrow> nat \<Rightarrow> nat \<Rightarrow>
    u8 list \<Rightarrow> nat option \<times> u8 list" where
  "filter_ifconf_loop env rd wr n i dst buf =
     (if i < n then
        if \<not> rd i then (None, buf)
        else
          let tmp = ifreq_term (ifreq_at buf i) in
          if vpn_ifname env (ifreq_name tmp) then filter_ifconf_loop env rd wr n (i + 1) dst buf
          else if dst \<noteq> i then
            let buf' = write_at buf (IFREQ_SIZE * dst) tmp (wr dst) in
            if wr dst \<noteq> 0 then (None, buf')
            else filter_ifconf_loop env rd wr n (i + 1) (dst + 1) buf'
          else filter_ifconf_loop env rd wr n (i + 1) (dst + 1) buf
      else (Some dst, buf))"
  by pat_completeness auto
termination
  by (relation "measure (\<lambda>(env, rd, wr, n, i, dst, buf). n - i)") auto

declare filter_ifconf_loop.simps [simp del]

definition filter_ifconf_buf :: "hook_env \<Rightarrow> (nat \<Rightarrow> bool) \<Rightarrow> (nat \<Rightarrow> nat) \<Rightarrow> nat \<Rightarrow> int \<Rightarrow> u8 list \<Rightarrow>
    filter_ifconf_result \<times> int \<times> u8 list" where
  "filter_ifconf_buf env rd wr n out_len buf =
     (case filter_ifconf_loop env rd wr n 0 0 buf of
        (None, buf') \<Rightarrow> (FILTER_IFCONF_COPY_FAULT, out_len, buf')
      | (Some dst, buf') \<Rightarrow>
          if dst = n then (FILTER_IFCONF_NO_CHANGE, out_len, buf')
          else (FILTER_IFCONF_CHANGED, int (IFREQ_SIZE * dst), buf'))"

definition clear_ifconf_tail :: "int \<Rightarrow> int \<Rightarrow> nat \<Rightarrow> u8 list \<Rightarrow> bool \<times> u8 list" where
  "clear_ifconf_tail start_len capacity_len left buf =
     (if start_len < 0 \<or> capacity_len \<le> start_len then (True, buf)
      else
        let tail_len = nat (capacity_len - start_len) in
        (left = 0, write_at buf (nat start_len) (replicate tail_len 0) left))"

definition sock_ioctl_entry :: "hook_env \<Rightarrow> uid_t \<Rightarrow> ioctl_cmd \<Rightarrow> (int \<times> bool) option \<Rightarrow> int option" where
  "sock_ioctl_entry env uid cmd user_ifc =
     (if \<not> hook_on env HOOK_SOCK_IOCTL uid then None
      else if cmd \<noteq> SIOCGIFCONF then None
      else if \<not> is_target env uid then None
      else case user_ifc of
        None \<Rightarrow> None
      | Some (ifc_len, ifc_req) \<Rightarrow> if \<not> ifc_req \<or> ifc_len \<le> 0 then None else Some ifc_len)"

text \<open>
  The return handler on the length the user finds in the structure, the array and the statistics.
  \<open>clear_left\<close> is what \<^verbatim>\<open>clear_user\<close> could not clear, \<open>put_ok\<close> whether the new length can be written.
\<close>

definition sock_ioctl_ret :: "hook_env \<Rightarrow> uid_t \<Rightarrow> (nat \<Rightarrow> bool) \<Rightarrow> (nat \<Rightarrow> nat) \<Rightarrow> nat \<Rightarrow> bool \<Rightarrow> int \<Rightarrow>
    bool \<Rightarrow> (int \<times> bool) option \<Rightarrow> int \<Rightarrow> int \<times> u8 list \<times> kstats \<Rightarrow> int \<times> u8 list \<times> kstats" where
  "sock_ioctl_ret env uid rd wr clear_left put_ok capacity argp user_ifc retval state =
     (case state of (user_len, buf, st) \<Rightarrow>
        if retval \<noteq> 0 \<or> \<not> argp then state
        else case user_ifc of
          None \<Rightarrow> state
        | Some (ifc_len, ifc_req) \<Rightarrow>
            if \<not> ifc_req \<or> ifc_len < 0 then state
            else
              let ifc_len = (if ifc_len > capacity then capacity else ifc_len) in
              case filter_ifconf_buf env rd wr (nat (ifc_len div int IFREQ_SIZE)) ifc_len buf of
                (res, new_len, buf') \<Rightarrow>
                  if res = FILTER_IFCONF_COPY_FAULT then (user_len, buf', st)
                  else case clear_ifconf_tail new_len capacity clear_left buf' of
                    (cleared, buf'') \<Rightarrow>
                      if \<not> cleared then (user_len, buf'', st)
                      else if res = FILTER_IFCONF_CHANGED then
                        if put_ok then (new_len, buf'', intercept uid 0 st) else (user_len, buf'', st)
                      else (user_len, buf'', st))"

section \<open>Netlink dumps\<close>

type_synonym sk_buff = "u8 list option"

record fill_data =
  fd_skb :: bool
  saved_len :: nat
  should_filter :: bool

definition fill_save :: "sk_buff \<Rightarrow> fill_data" where
  "fill_save skb = \<lparr>fd_skb = (skb \<noteq> None), saved_len = (case skb of None \<Rightarrow> 0 | Some d \<Rightarrow> length d),
     should_filter = True\<rparr>"

definition skb_trim :: "sk_buff \<Rightarrow> nat \<Rightarrow> sk_buff" where
  "skb_trim skb len = map_option (\<lambda>d. if length d > len then take len d else d) skb"



text \<open>An address: NULL, without a parent device structure, without a device, or with its device.\<close>

type_synonym ifaddr = "net_device option option option"



definition inet_fill_entry :: "hook_env \<Rightarrow> uid_t \<Rightarrow> ifaddr \<Rightarrow> sk_buff \<Rightarrow> fill_data option" where
  "inet_fill_entry env uid ifa skb =
     (if \<not> hook_on env HOOK_INET_FILL uid then None
      else if \<not> is_target env uid then None
      else case ifa of
        Some (Some (Some d)) \<Rightarrow> if vpn_index env (dev_ifindex d) then Some (fill_save skb) else None
      | _ \<Rightarrow> None)"

definition inet_fill_ret :: "uid_t \<Rightarrow> fill_data \<Rightarrow> sk_buff \<Rightarrow> int \<Rightarrow> kstats \<Rightarrow> sk_buff \<times> int \<times> kstats" where
  "inet_fill_ret uid data skb retval st =
     (if \<not> should_filter data \<or> \<not> fd_skb data then (skb, retval, st)
      else (skb_trim skb (saved_len data), 0, intercept uid 1 st))"

section \<open>Routes and rules\<close>

text \<open>
  A nexthop object, as far as its first device: whether it is a group, the group with its number of
  entries and first entry, and its own information with the device. Every read may fail.
\<close>

type_synonym dev_read = "net_device option option"

datatype nexthop = Nexthop (nh_is_group: "bool option") (nh_grp: "nh_group option option")
    (nh_info: "dev_read option option")
  and nh_group = Nh_group (num_nh: "u16 option") (nh_entry0: "nexthop option option")


definition dev_or_null :: "dev_read \<Rightarrow> net_device option" where
  "dev_or_null r = (case r of None \<Rightarrow> None | Some d \<Rightarrow> d)"





record fib_rule =
  iifname :: string
  oifname :: string
  uid_start :: uid_t
  uid_end :: uid_t
  rule_table :: u32

definition fib_rule_hidden :: "hook_env \<Rightarrow> fib_rule \<Rightarrow> bool" where
  "fib_rule_hidden env rule =
     (if (c_string (iifname rule) \<noteq> [] \<and> vpn_ifname env (iifname rule)) \<or>
         (c_string (oifname rule) \<noteq> [] \<and> vpn_ifname env (oifname rule))
      then True
      else if ((uid_start rule \<ge> 10000 \<or> uid_end rule \<ge> 10000) \<or> is_target env (uid_start rule) \<or>
               is_target env (uid_end rule)) \<and> uid_end rule \<noteq> 0xFFFFFFFF
      then rule_table rule \<noteq> 254 \<and> rule_table rule \<noteq> 255 \<and> rule_table rule \<noteq> 253 \<and> rule_table rule > 100
      else False)"

definition fib_rule_fill_entry :: "hook_env \<Rightarrow> uid_t \<Rightarrow> fib_rule option \<Rightarrow> sk_buff \<Rightarrow> fill_data option" where
  "fib_rule_fill_entry env uid rule_opt skb =
     (if \<not> hook_on env HOOK_FIB_RULE_FILL uid then None
      else if \<not> is_target env uid then None
      else case rule_opt of
        None \<Rightarrow> None
      | Some rule \<Rightarrow> if \<not> fib_rule_hidden env rule then None else Some (fill_save skb))"

definition fib_rule_fill_ret :: "uid_t \<Rightarrow> fill_data \<Rightarrow> sk_buff \<Rightarrow> int \<Rightarrow> kstats \<Rightarrow> sk_buff \<times> int \<times> kstats" where
  "fib_rule_fill_ret uid data skb retval st =
     (if \<not> should_filter data \<or> \<not> fd_skb data then (skb, retval, st)
      else if retval \<ge> 0 then (skb_trim skb (saved_len data), 0, intercept uid 1 st)
      else (skb, retval, st))"



definition rt_fill_entry :: "hook_env \<Rightarrow> uid_t \<Rightarrow> dev_read option \<Rightarrow> bool \<Rightarrow> sk_buff \<Rightarrow> fill_data option" where
  "rt_fill_entry env uid rt len_readable skb =
     (if \<not> hook_on env HOOK_RT_FILL uid then None
      else if \<not> is_target env uid then None
      else
        case (case rt of None \<Rightarrow> None | Some r \<Rightarrow> dev_or_null r) of
          None \<Rightarrow> None
        | Some dev \<Rightarrow>
            if \<not> vpn_index env (dev_ifindex dev) then None
            else if skb \<noteq> None \<and> len_readable then Some (fill_save skb)
            else Some \<lparr>fd_skb = False, saved_len = 0, should_filter = True\<rparr>)"

definition rt_fill_ret :: "uid_t \<Rightarrow> fill_data \<Rightarrow> sk_buff \<Rightarrow> int \<Rightarrow> kstats \<Rightarrow> sk_buff \<times> int \<times> kstats" where
  "rt_fill_ret uid data skb retval st =
     (if \<not> should_filter data \<or> \<not> fd_skb data then (skb, retval, st)
      else if retval \<ge> 0 then (skb_trim skb (saved_len data), 0, intercept uid 1 st)
      else (skb, retval, st))"

section \<open>Queueing disciplines\<close>

text \<open>
  The message is recognised after it was written: its interface index stands 20 bytes after the
  saved end of the buffer. \<open>readable\<close> says whether the index could be read.
\<close>

definition tc_fill_qdisc_entry :: "hook_env \<Rightarrow> uid_t \<Rightarrow> sk_buff \<Rightarrow> nat option" where
  "tc_fill_qdisc_entry env uid skb =
     (if \<not> hook_on env HOOK_TC_FILL_QDISC uid then None
      else if \<not> is_target env uid then None
      else Some (case skb of None \<Rightarrow> 0 | Some d \<Rightarrow> length d))"

definition tc_fill_qdisc_ret :: "hook_env \<Rightarrow> uid_t \<Rightarrow> nat \<Rightarrow> bool \<Rightarrow> sk_buff \<Rightarrow> int \<Rightarrow> kstats \<Rightarrow>
    sk_buff \<times> int \<times> kstats" where
  "tc_fill_qdisc_ret env uid saved readable skb retval st =
     (if retval \<noteq> 0 then (skb, retval, st)
      else case skb of
        None \<Rightarrow> (skb, retval, st)
      | Some d \<Rightarrow>
          if length d < saved + (20 + 4) then (skb, retval, st)
          else if \<not> readable then (skb, retval, st)
          else
            let ifindex = get_u32 d (saved + 20) in
            if sint ifindex > 0 \<and> vpn_index env ifindex
            then (skb_trim skb saved, retval, intercept uid 1 st)
            else (skb, retval, st))"

section \<open>Dumps\<close>

text \<open>
  A dump of a list of objects into one buffer: for each object the entry handler runs, the kernel
  appends the object's message (\<open>msg\<close>) and returns \<open>rv\<close>, and the return handler runs unless skipped.
\<close>

fun netlink_dump :: "('o \<Rightarrow> sk_buff \<Rightarrow> fill_data option) \<Rightarrow>
    (fill_data \<Rightarrow> sk_buff \<Rightarrow> int \<Rightarrow> kstats \<Rightarrow> sk_buff \<times> int \<times> kstats) \<Rightarrow> ('o \<Rightarrow> u8 list) \<Rightarrow> int \<Rightarrow>
    'o list \<Rightarrow> u8 list \<Rightarrow> kstats \<Rightarrow> u8 list \<times> kstats" where
  "netlink_dump entry_h ret_h msg rv [] d st = (d, st)"
| "netlink_dump entry_h ret_h msg rv (x # xs) d st =
     (case entry_h x (Some d) of
        None \<Rightarrow> netlink_dump entry_h ret_h msg rv xs (d @ msg x) st
      | Some data \<Rightarrow>
          (case ret_h data (Some (d @ msg x)) rv st of
             (skb', _, st') \<Rightarrow> netlink_dump entry_h ret_h msg rv xs (case skb' of None \<Rightarrow> [] | Some d' \<Rightarrow> d') st'))"

text \<open>
  The contract of a pair of fill handlers: hidden objects are selected at entry with the length of
  the buffer, others are skipped, and the return handler cuts the buffer back to that length.
\<close>

locale fill_hook =
  fixes hidden :: "'o \<Rightarrow> bool"
    and entry_h :: "'o \<Rightarrow> sk_buff \<Rightarrow> fill_data option"
    and ret_h :: "fill_data \<Rightarrow> sk_buff \<Rightarrow> int \<Rightarrow> kstats \<Rightarrow> sk_buff \<times> int \<times> kstats"
    and uid :: uid_t
  assumes entry_hidden: "hidden x \<Longrightarrow> entry_h x (Some d) = Some (fill_save (Some d))"
    and entry_visible: "\<not> hidden x \<Longrightarrow> entry_h x (Some d) = None"
    and ret_cuts: "rv \<ge> 0 \<Longrightarrow> ret_h (fill_save (Some d)) (Some (d @ m)) rv st = (Some d, 0, intercept uid 1 st)"
begin

lemma dump_filters:
  "rv \<ge> 0 \<Longrightarrow> netlink_dump entry_h ret_h msg rv xs d st =
     (d @ concat (map msg (filter (\<lambda>x. \<not> hidden x) xs)), (intercept uid 1 ^^ length (filter hidden xs)) st)"
proof (induction xs arbitrary: d st)
  case (Cons x xs)
  then show ?case
    by (cases "hidden x") (simp_all add: entry_hidden entry_visible ret_cuts funpow_swap1)
qed simp

end

lemma skb_trim_append: "skb_trim (Some (d @ m)) (length d) = Some d"
  by (simp add: skb_trim_def)

definition ifaddr_dev :: "ifaddr \<Rightarrow> net_device option" where
  "ifaddr_dev ifa = (case ifa of Some (Some d) \<Rightarrow> d | _ \<Rightarrow> None)"



definition route_dev :: "dev_read option \<Rightarrow> net_device option" where
  "route_dev rt = (case rt of Some (Some d) \<Rightarrow> d | _ \<Rightarrow> None)"

definition vpn_dev :: "hook_env \<Rightarrow> net_device option \<Rightarrow> bool" where
  "vpn_dev env dev = (case dev of None \<Rightarrow> False | Some d \<Rightarrow> vpn_index env (dev_ifindex d))"

lemmas fill_defs = hidden_from_def fill_save_def skb_trim_def vpn_dev_def



interpretation addr4_fill: fill_hook "\<lambda>ifa. hidden_from env HOOK_INET_FILL uid \<and> vpn_dev env (ifaddr_dev ifa)"
    "inet_fill_entry env uid" "inet_fill_ret uid" uid for env uid
  by unfold_locales (auto simp: inet_fill_entry_def inet_fill_ret_def ifaddr_dev_def fill_defs split: option.splits)


interpretation rule_fill: fill_hook
    "\<lambda>rule. hidden_from env HOOK_FIB_RULE_FILL uid \<and> (case rule of None \<Rightarrow> False | Some r \<Rightarrow> fib_rule_hidden env r)"
    "fib_rule_fill_entry env uid" "fib_rule_fill_ret uid" uid for env uid
  by unfold_locales (auto simp: fib_rule_fill_entry_def fib_rule_fill_ret_def fill_defs split: option.splits)


interpretation route_fill: fill_hook "\<lambda>rt. hidden_from env HOOK_RT_FILL uid \<and> vpn_dev env (route_dev rt)"
    "\<lambda>rt. rt_fill_entry env uid rt True" "rt_fill_ret uid" uid for env uid
  by unfold_locales (auto simp: rt_fill_entry_def rt_fill_ret_def route_dev_def dev_or_null_def fill_defs split: option.splits)

section \<open>The interface list\<close>

definition entry_hidden :: "hook_env \<Rightarrow> u8 list \<Rightarrow> bool" where
  "entry_hidden env e \<longleftrightarrow> vpn_ifname env (ifreq_name e)"

text \<open>An array of \<open>n\<close> entries whose names are terminated, as the kernel writes them.\<close>

definition ifreqs :: "u8 list \<Rightarrow> nat \<Rightarrow> u8 list list" where
  "ifreqs buf n = map (ifreq_at buf) [0..<n]"

definition ifreqs_terminated :: "u8 list \<Rightarrow> nat \<Rightarrow> bool" where
  "ifreqs_terminated buf n \<longleftrightarrow> IFREQ_SIZE * n \<le> length buf \<and> (\<forall>i < n. ifreq_at buf i ! (IFNAMSIZ - 1) = 0)"

lemma length_ifreq_at: "IFREQ_SIZE * (i + 1) \<le> length buf \<Longrightarrow> length (ifreq_at buf i) = IFREQ_SIZE"
  by (simp add: ifreq_at_def)

lemma ifreq_term_id: "e ! (IFNAMSIZ - 1) = 0 \<Longrightarrow> ifreq_term e = e"
  by (metis ifreq_term_def list_update_id)

lemma write_at_facts:
  assumes "off + length new \<le> length buf"
  shows "length (write_at buf off new 0) = length buf"
    and "take (off + length new) (write_at buf off new 0) = take off buf @ new"
    and "off + length new \<le> k \<Longrightarrow> drop k (write_at buf off new 0) = drop k buf"
  using assms by (auto simp: write_at_def)

lemma filter_ifconf_loop_spec:
  "filter_ifconf_loop env rd wr n i dst buf = (r, buf') \<Longrightarrow> dst \<le> i \<Longrightarrow> i \<le> n \<Longrightarrow> IFREQ_SIZE * n \<le> length buf \<Longrightarrow>
   (\<forall>j < n. rd j \<and> wr j = 0) \<Longrightarrow> (\<forall>j. i \<le> j \<longrightarrow> j < n \<longrightarrow> ifreq_at buf j ! (IFNAMSIZ - 1) = 0) \<Longrightarrow>
   es = map (ifreq_at buf) [i..<n] \<Longrightarrow>
   r = Some (dst + length (filter (\<lambda>e. \<not> entry_hidden env e) es)) \<and> length buf' = length buf \<and>
   take (IFREQ_SIZE * (dst + length (filter (\<lambda>e. \<not> entry_hidden env e) es))) buf' =
     take (IFREQ_SIZE * dst) buf @ concat (filter (\<lambda>e. \<not> entry_hidden env e) es) \<and>
   drop (IFREQ_SIZE * n) buf' = drop (IFREQ_SIZE * n) buf"
proof (induction "n - i" arbitrary: i dst buf es)
  case 0
  then have "\<not> i < n" by simp
  then have "r = Some dst" "buf' = buf" "es = []"
    using "0.prems"(1,7) by (simp_all add: filter_ifconf_loop.simps [of env rd wr n i])
  then show ?case by simp
next
  case (Suc k)
  from Suc.hyps(2) have lt: "i < n" and k: "k = n - (i + 1)" by simp_all
  let ?e = "ifreq_at buf i"
  have trm: "ifreq_term ?e = ?e" using Suc.prems(6) lt by (intro ifreq_term_id) simp
  have rdi: "rd i" and wrd: "wr dst = 0" using Suc.prems(2,5) lt by auto
  have es: "es = ?e # map (ifreq_at buf) [i + 1..<n]" using Suc.prems(7) lt by (simp add: upt_conv_Cons)
  have len: "length ?e = IFREQ_SIZE" using lt Suc.prems(4) by (intro length_ifreq_at) simp
  show ?case
  proof (cases "entry_hidden env ?e")
    case hid: True
    with lt rdi trm Suc.prems(1) have "filter_ifconf_loop env rd wr n (i + 1) dst buf = (r, buf')"
      by (simp add: filter_ifconf_loop.simps [of env rd wr n i] Let_def entry_hidden_def)
    from Suc.hyps(1) [OF k this _ _ Suc.prems(4,5) _ refl] hid lt Suc.prems(2,6) es show ?thesis by simp
  next
    case vis: False
    define b where "b = (if dst \<noteq> i then write_at buf (IFREQ_SIZE * dst) ?e 0 else buf)"
    have run: "filter_ifconf_loop env rd wr n (i + 1) (dst + 1) b = (r, buf')"
      using lt rdi trm vis wrd Suc.prems(1)
      by (auto simp: filter_ifconf_loop.simps [of env rd wr n i] Let_def entry_hidden_def b_def)
    have fit: "IFREQ_SIZE * dst + length ?e \<le> length buf" using len Suc.prems(2,4) lt by simp
    note w = write_at_facts [OF fit]
    have lb: "length b = length buf" using w(1) by (simp add: b_def)
    have tb: "take (IFREQ_SIZE * (dst + 1)) b = take (IFREQ_SIZE * dst) buf @ ?e"
    proof (cases "dst = i")
      case True
      have "IFREQ_SIZE * (dst + 1) = IFREQ_SIZE * i + IFREQ_SIZE" using True by simp
      then show ?thesis using True by (simp only: take_add b_def ifreq_at_def) simp
    next
      case False
      then show ?thesis using w(2) len by (simp add: b_def add.commute)
    qed
    have db: "drop m b = drop m buf" if "IFREQ_SIZE * (i + 1) \<le> m" for m
      using that w(3) [of m] len Suc.prems(2) by (simp add: b_def)
    have at: "ifreq_at b j = ifreq_at buf j" if "i + 1 \<le> j" for j
      using db [of "IFREQ_SIZE * j"] that by (simp add: ifreq_at_def)
    have es': "map (ifreq_at b) [i + 1..<n] = map (ifreq_at buf) [i + 1..<n]" using at by simp
    have t6: "\<forall>j. i + 1 \<le> j \<longrightarrow> j < n \<longrightarrow> ifreq_at b j ! (IFNAMSIZ - 1) = 0"
      using at Suc.prems(6) by simp
    have "i + 1 \<le> n" "dst + 1 \<le> i + 1" using lt Suc.prems(2) by simp_all
    from Suc.hyps(1) [OF k run this(2,1) _ Suc.prems(5) t6 es' [symmetric]] lb Suc.prems(4)
    show ?thesis using tb es vis db [of "IFREQ_SIZE * n"] lt by simp
  qed
qed

lemma filter_ifconf_buf_spec:
  assumes t: "ifreqs_terminated buf n" and io: "\<And>i. i < n \<Longrightarrow> rd i \<and> wr i = 0"
    and vis: "vis = filter (\<lambda>e. \<not> entry_hidden env e) (ifreqs buf n)"
  shows "\<exists>buf'. filter_ifconf_buf env rd wr n out_len buf =
     (if length vis = n then FILTER_IFCONF_NO_CHANGE else FILTER_IFCONF_CHANGED,
      if length vis = n then out_len else int (IFREQ_SIZE * length vis), buf') \<and>
     length buf' = length buf \<and> take (IFREQ_SIZE * length vis) buf' = concat vis \<and> length vis \<le> n"
proof -
  obtain r buf' where l: "filter_ifconf_loop env rd wr n 0 0 buf = (r, buf')" by fastforce
  have "length vis \<le> length (ifreqs buf n)" unfolding vis by (rule length_filter_le)
  then have "length vis \<le> n" by (simp add: ifreqs_def)
  moreover have "r = Some (0 + length vis) \<and> length buf' = length buf \<and>
      take (IFREQ_SIZE * (0 + length vis)) buf' = take (IFREQ_SIZE * 0) buf @ concat vis \<and>
      drop (IFREQ_SIZE * n) buf' = drop (IFREQ_SIZE * n) buf"
    unfolding vis
    by (rule filter_ifconf_loop_spec [OF l]) (use t io in \<open>auto simp: ifreqs_terminated_def ifreqs_def\<close>)
  ultimately show ?thesis using l by (auto simp: filter_ifconf_buf_def)
qed

section \<open>Properties\<close>


text \<open>
  C17: SIOCGIFCONF hides the VPN interfaces and leaves no trace in the caller's buffer. When the copies
  succeed, the caller finds the length of the visible entries, the visible entries themselves in
  their order, and zeros from there to the capacity it had passed.
\<close>

theorem ifconf_hides_vpn:
  assumes t: "ifreqs_terminated buf n" and io: "\<And>i. i < n \<Longrightarrow> rd i \<and> wr i = 0"
    and len: "len = int (IFREQ_SIZE * n)" "len \<le> capacity" "nat capacity \<le> length buf"
    and vis: "vis = filter (\<lambda>e. \<not> entry_hidden env e) (ifreqs buf n)"
    and res: "sock_ioctl_ret env uid rd wr 0 True capacity True (Some (len, True)) 0 (len, buf, st) = (len', buf', st')"
  shows "len' = int (IFREQ_SIZE * length vis) \<and> length buf' = length buf \<and>
    take (IFREQ_SIZE * length vis) buf' = concat vis \<and>
    take (nat capacity - IFREQ_SIZE * length vis) (drop (IFREQ_SIZE * length vis) buf') =
      replicate (nat capacity - IFREQ_SIZE * length vis) 0 \<and>
    st' = (if length vis = n then st else intercept uid 0 st)"
proof -
  have n: "nat (len div int IFREQ_SIZE) = n" using len(1) by simp
  obtain b where f: "filter_ifconf_buf env rd wr n len buf =
     (if length vis = n then FILTER_IFCONF_NO_CHANGE else FILTER_IFCONF_CHANGED,
      if length vis = n then len else int (IFREQ_SIZE * length vis), b)"
    and b: "length b = length buf" "take (IFREQ_SIZE * length vis) b = concat vis" "length vis \<le> n"
    using filter_ifconf_buf_spec [where rd = rd and wr = wr, OF t _ vis] io by blast
  define new where "new = IFREQ_SIZE * length vis"
  have new: "(if length vis = n then len else int (IFREQ_SIZE * length vis)) = int new"
    using len(1) by (auto simp: new_def)
  have le: "new \<le> nat capacity" using b(3) len(1,2) by (auto simp: new_def)
  define b' where "b' = snd (clear_ifconf_tail (int new) capacity 0 b)"
  have clr: "fst (clear_ifconf_tail (int new) capacity 0 b)" by (simp add: clear_ifconf_tail_def Let_def)
  have out: "len' = int new" "buf' = b'" "st' = (if length vis = n then st else intercept uid 0 st)"
    using res clr len(1,2) n f new
    by (auto simp: sock_ioctl_ret_def Let_def b'_def new_def split: prod.splits if_splits)
  have "length b' = length b \<and> take new b' = take new b \<and>
      take (nat capacity - new) (drop new b') = replicate (nat capacity - new) 0"
  proof (cases "capacity \<le> int new")
    case True
    then show ?thesis by (simp add: b'_def clear_ifconf_tail_def)
  next
    case False
    then have fit: "new + length (replicate (nat capacity - new) 0) \<le> length b" using le len(3) b(1) by simp
    have "nat (capacity - int new) = nat capacity - new" using False by auto
    with False have b': "b' = write_at b new (replicate (nat capacity - new) 0) 0"
      by (simp add: b'_def clear_ifconf_tail_def Let_def)
    show ?thesis using write_at_facts(1) [OF fit] fit unfolding b' by (simp add: write_at_def)
  qed
  with out b(1,2) show ?thesis by (simp add: new_def)
qed

definition sample_nl_env :: hook_env where
  "sample_nl_env = sample_seq_env\<lparr>global_policy := Some (sample_policy\<lparr>active_hooks_mask := 0xFFFFFFFF,
     kmod_uids := [10123], kmod_match_mode := 0, app_hook_masks := []\<rparr>)\<rparr>"



definition sample_ifreq :: "string \<Rightarrow> u8 \<Rightarrow> u8 list" where
  "sample_ifreq name b = map (\<lambda>c. of_nat (of_char c)) name @ replicate (16 - length name) 0 @ replicate 24 b"

definition sample_ifconf :: "u8 list" where
  "sample_ifconf = sample_ifreq ''tun0'' 1 @ sample_ifreq ''wlan0'' 2 @ replicate 40 7"

lemma sample_ifconf_at:
  "ifreq_at sample_ifconf 0 = sample_ifreq ''tun0'' 1" "ifreq_at sample_ifconf (Suc 0) = sample_ifreq ''wlan0'' 2"
  by (simp_all add: ifreq_at_def sample_ifconf_def sample_ifreq_def)

theorem ifconf_hides_vpn_witness:
  "\<exists>buf'. sock_ioctl_ret sample_nl_env 10123 (\<lambda>_. True) (\<lambda>_. 0) 0 True 120 True (Some (80, True)) 0
     (80, sample_ifconf, (4, [])) = (40, buf', intercept 10123 0 (4, [])) \<and>
     take 40 buf' = sample_ifreq ''wlan0'' 2 \<and> take 80 (drop 40 buf') = replicate 80 0"
proof -
  obtain l b s where r: "sock_ioctl_ret sample_nl_env 10123 (\<lambda>_. True) (\<lambda>_. 0) 0 True 120 True (Some (80, True)) 0
     (80, sample_ifconf, (4, [])) = (l, b, s)" by (metis prod_cases3)
  have len: "length sample_ifconf = 120" by (simp add: sample_ifconf_def sample_ifreq_def)
  have t: "ifreqs_terminated sample_ifconf 2"
    by (auto simp: ifreqs_terminated_def len less_Suc_eq numeral_2_eq_2 sample_ifconf_at sample_ifreq_def nth_append)
  have h: "entry_hidden sample_nl_env (sample_ifreq ''tun0'' 1)" "\<not> entry_hidden sample_nl_env (sample_ifreq ''wlan0'' 2)"
    by code_simp+
  have vis: "filter (\<lambda>e. \<not> entry_hidden sample_nl_env e) (ifreqs sample_ifconf 2) = [sample_ifreq ''wlan0'' 2]"
    by (simp add: ifreqs_def upt_rec sample_ifconf_at h)
  have "l = int (IFREQ_SIZE * length [sample_ifreq ''wlan0'' 2]) \<and> length b = length sample_ifconf \<and>
    take (IFREQ_SIZE * length [sample_ifreq ''wlan0'' 2]) b = concat [sample_ifreq ''wlan0'' 2] \<and>
    take (nat 120 - IFREQ_SIZE * length [sample_ifreq ''wlan0'' 2]) (drop (IFREQ_SIZE * length [sample_ifreq ''wlan0'' 2]) b) =
      replicate (nat 120 - IFREQ_SIZE * length [sample_ifreq ''wlan0'' 2]) 0 \<and>
    s = (if length [sample_ifreq ''wlan0'' 2] = 2 then (4, []) else intercept 10123 0 (4, []))"
    by (rule ifconf_hides_vpn [OF t _ _ _ _ vis [symmetric] r]) (simp_all add: len)
  with r show ?thesis by simp
qed

end
