(* ===== verification/Sockopt_Hooks.thy ===== *)
theory Sockopt_Hooks
  imports Seq_Hooks
begin

text \<open>
  The socket option hooks of kmod/hooks_socket.c. The caller's option buffer is the list of its bytes;
  \<open>rd\<close> says whether the handler's copies from it succeed and \<open>left\<close> is the number of bytes its copies
  back do not write (a \<^verbatim>\<open>put_user\<close> succeeds when it is 0). Levels and options are the numbers of the
  Linux interface. A handler's instance data is a record; an entry handler also returns whether the
  return handler is skipped, and what it left of the buffer.
\<close>

abbreviation (input) SOL_SOCKET :: int where "SOL_SOCKET \<equiv> 1"
abbreviation (input) IPPROTO_IP :: int where "IPPROTO_IP \<equiv> 0"
abbreviation (input) IPPROTO_TCP :: int where "IPPROTO_TCP \<equiv> 6"
abbreviation (input) IPPROTO_IPV6 :: int where "IPPROTO_IPV6 \<equiv> 41"
abbreviation (input) SO_BINDTODEVICE :: int where "SO_BINDTODEVICE \<equiv> 25"
abbreviation (input) SO_BINDTOIFINDEX :: int where "SO_BINDTOIFINDEX \<equiv> 62"
abbreviation (input) IP_MTU_DISCOVER :: int where "IP_MTU_DISCOVER \<equiv> 10"
abbreviation (input) IP_MTU :: int where "IP_MTU \<equiv> 14"
abbreviation (input) IPV6_MTU_DISCOVER :: int where "IPV6_MTU_DISCOVER \<equiv> 23"
abbreviation (input) IPV6_MTU :: int where "IPV6_MTU \<equiv> 24"
abbreviation (input) TCP_MAXSEG :: int where "TCP_MAXSEG \<equiv> 2"
abbreviation (input) TCP_INFO :: int where "TCP_INFO \<equiv> 11"
abbreviation (input) PMTUDISC_DONT :: u32 where "PMTUDISC_DONT \<equiv> 0"
abbreviation (input) PMTUDISC_DO :: u32 where "PMTUDISC_DO \<equiv> 2"

definition bytes_string :: "u8 list \<Rightarrow> string" where
  "bytes_string bs = map (\<lambda>b. char_of (unat b)) bs"

text \<open>A four-byte integer written to the start of a buffer.\<close>

definition put_int :: "u8 list \<Rightarrow> u32 \<Rightarrow> u8 list" where
  "put_int mem w = u32_bytes w @ drop 4 mem"

section \<open>setsockopt\<close>















section \<open>getsockopt\<close>

record getsockopt_data =
  gd_level :: int
  gd_optname :: int
  gd_family :: u8

definition getsockopt_wanted :: "int \<Rightarrow> int \<Rightarrow> bool" where
  "getsockopt_wanted level optname =
     (if level \<noteq> SOL_SOCKET \<and> level \<noteq> IPPROTO_IP \<and> level \<noteq> IPPROTO_IPV6 \<and> level \<noteq> IPPROTO_TCP then False
      else if level = SOL_SOCKET \<and> optname \<noteq> SO_BINDTODEVICE \<and> optname \<noteq> SO_BINDTOIFINDEX then False
      else if level = IPPROTO_IP \<and> optname \<noteq> IP_MTU \<and> optname \<noteq> IP_MTU_DISCOVER then False
      else if level = IPPROTO_IPV6 \<and> optname \<noteq> IPV6_MTU \<and> optname \<noteq> IPV6_MTU_DISCOVER then False
      else if level = IPPROTO_TCP \<and> optname \<noteq> TCP_MAXSEG \<and> optname \<noteq> TCP_INFO then False
      else True)"

text \<open>The three entry handlers; \<open>sk\<close> is the address family of the socket behind the call, if any.\<close>

definition sock_getsockopt_entry :: "hook_env \<Rightarrow> uid_t \<Rightarrow> int \<Rightarrow> int \<Rightarrow> u8 option \<Rightarrow> getsockopt_data option" where
  "sock_getsockopt_entry env uid level optname sk =
     (if \<not> hook_on env HOOK_GETSOCKOPT uid then None
      else if \<not> getsockopt_wanted level optname then None
      else if \<not> is_target env uid then None
      else Some \<lparr>gd_level = level, gd_optname = optname, gd_family = (case sk of Some f \<Rightarrow> f | None \<Rightarrow> 0)\<rparr>)"

definition sys_getsockopt_entry :: "hook_env \<Rightarrow> uid_t \<Rightarrow> bool \<Rightarrow> (int \<times> int) option \<Rightarrow> int \<times> int \<Rightarrow> u8 option \<Rightarrow>
    getsockopt_data option" where
  "sys_getsockopt_entry env uid uses_wrapper user_regs regs sk =
     (if \<not> hook_on env HOOK_GETSOCKOPT uid then None
      else case (if uses_wrapper then user_regs else Some regs) of
        None \<Rightarrow> None
      | Some (level, optname) \<Rightarrow>
          if \<not> getsockopt_wanted level optname then None
          else if \<not> is_target env uid then None
          else Some \<lparr>gd_level = level, gd_optname = optname,
                 gd_family = (case sk of Some f \<Rightarrow> f
                   | None \<Rightarrow> if level = IPPROTO_IPV6 then AF_INET6 else AF_INET)\<rparr>)"

definition sk_getsockopt_entry :: "hook_env \<Rightarrow> uid_t \<Rightarrow> bool \<Rightarrow> int \<Rightarrow> int \<Rightarrow> u8 option \<Rightarrow> getsockopt_data option" where
  "sk_getsockopt_entry env uid is_kernel level optname sk =
     (if \<not> hook_on env HOOK_GETSOCKOPT uid then None
      else if is_kernel then None
      else if \<not> getsockopt_wanted level optname then None
      else if \<not> is_target env uid then None
      else Some \<lparr>gd_level = level, gd_optname = optname, gd_family = (case sk of Some f \<Rightarrow> f | None \<Rightarrow> 0)\<rparr>)"

definition cover_mtu4 :: "spoof_ip \<Rightarrow> u32" where
  "cover_mtu4 sip = (if ipv4_mtu sip \<noteq> 0 then ipv4_mtu sip else 1500)"

definition cover_mtu6 :: "spoof_ip \<Rightarrow> u32" where
  "cover_mtu6 sip = (if ipv6_mtu sip \<noteq> 0 then ipv6_mtu sip else 1500)"

definition cover_mss :: "spoof_ip \<Rightarrow> u8 \<Rightarrow> u32" where
  "cover_mss sip family =
     (let mtu = (if family = AF_INET6 then cover_mtu6 sip else cover_mtu4 sip);
          header_len = (if family = AF_INET6 then 60 else 40) in
      if sint mtu > sint header_len then mtu - header_len else 1460)"

text \<open>
  The caller's result: the length word (None when it cannot be read) and the buffer. The four-byte
  options replace a positive value that differs from the cover value.
\<close>

definition replace_positive :: "u32 \<Rightarrow> bool \<Rightarrow> nat \<Rightarrow> int option \<Rightarrow> u8 list \<Rightarrow> u8 list" where
  "replace_positive cover rd left len_opt mem =
     (case len_opt of
        None \<Rightarrow> mem
      | Some len \<Rightarrow>
          if len \<ge> 4 \<and> rd \<and> sint (get_u32 mem 0) > 0 \<and> get_u32 mem 0 \<noteq> cover \<and> left = 0
          then put_int mem cover else mem)"

definition get_mtu_discover :: "bool \<Rightarrow> nat \<Rightarrow> int option \<Rightarrow> u8 list \<Rightarrow> u8 list" where
  "get_mtu_discover rd left len_opt mem =
     (case len_opt of
        None \<Rightarrow> mem
      | Some len \<Rightarrow>
          if len \<ge> 4 \<and> rd \<and> get_u32 mem 0 = PMTUDISC_DONT \<and> left = 0 then put_int mem PMTUDISC_DO else mem)"

definition get_tcp_info :: "u32 \<Rightarrow> bool \<Rightarrow> nat \<Rightarrow> int option \<Rightarrow> u8 list \<Rightarrow> u8 list" where
  "get_tcp_info cover rd left len_opt mem =
     (case len_opt of
        None \<Rightarrow> mem
      | Some len \<Rightarrow>
          if len < 24 \<or> \<not> rd then mem
          else
            let snd_mss = get_u32 mem 16; rcv_mss = get_u32 mem 20;
                snd' = (if snd_mss > 0 \<and> snd_mss \<noteq> cover then cover else snd_mss);
                rcv' = (if rcv_mss > 0 \<and> rcv_mss \<noteq> cover then cover else rcv_mss) in
            if snd' \<noteq> snd_mss \<or> rcv' \<noteq> rcv_mss
            then copy_to_user mem (take 16 mem @ u32_bytes snd' @ u32_bytes rcv') left else mem)"

text \<open>
  The device option also rewrites the length: the new buffer and the new length word. The first byte
  and the length are written one after the other, and the length only when the first write succeeded.
\<close>

definition get_bindtodevice :: "hook_env \<Rightarrow> bool \<Rightarrow> bool \<Rightarrow> bool \<Rightarrow> int option \<Rightarrow> u8 list \<Rightarrow> u8 list \<times> int option" where
  "get_bindtodevice env rd put_val put_len len_opt mem =
     (case len_opt of
        None \<Rightarrow> (mem, len_opt)
      | Some len \<Rightarrow>
          if len \<le> 0 then (mem, len_opt)
          else
            let len = (if len \<ge> 16 then 15 else len) in
            if \<not> rd then (mem, len_opt)
            else if vpn_ifname env (bytes_string (take (nat len) mem @ [0])) then
              if put_val then (0 # drop 1 mem, if put_len then Some 0 else len_opt) else (mem, len_opt)
            else (mem, len_opt))"

definition get_bindtoifindex :: "hook_env \<Rightarrow> bool \<Rightarrow> nat \<Rightarrow> u8 list \<Rightarrow> u8 list" where
  "get_bindtoifindex env rd left mem =
     (if \<not> rd then mem
      else
        let ifindex = get_u32 mem 0 in
        if sint ifindex \<le> 0 then mem
        else if vpn_index env ifindex \<and> left = 0 then put_int mem 0 else mem)"

definition sock_getsockopt_ret :: "hook_env \<Rightarrow> uid_t \<Rightarrow> getsockopt_data \<Rightarrow> bool \<Rightarrow> nat \<Rightarrow> bool \<Rightarrow> int \<Rightarrow> kstats \<Rightarrow>
    int option \<Rightarrow> u8 list \<Rightarrow> u8 list \<times> int option \<times> kstats" where
  "sock_getsockopt_ret env uid data rd left put_len ret st len_opt mem =
     (if ret \<noteq> 0 then (mem, len_opt, st)
      else
        let st' = intercept uid 3 st; sip = get_spoof_ip (global_spoof_ip env);
            level = gd_level data; optname = gd_optname data in
        if level = IPPROTO_IP \<and> optname = IP_MTU
        then (replace_positive (cover_mtu4 sip) rd left len_opt mem, len_opt, st')
        else if level = IPPROTO_IPV6 \<and> optname = IPV6_MTU
        then (replace_positive (cover_mtu6 sip) rd left len_opt mem, len_opt, st')
        else if level = IPPROTO_IP \<and> optname = IP_MTU_DISCOVER
        then (get_mtu_discover rd left len_opt mem, len_opt, st')
        else if level = IPPROTO_IPV6 \<and> optname = IPV6_MTU_DISCOVER
        then (get_mtu_discover rd left len_opt mem, len_opt, st')
        else if level = IPPROTO_TCP \<and> optname = TCP_MAXSEG
        then (replace_positive (cover_mss sip (gd_family data)) rd left len_opt mem, len_opt, st')
        else if level = IPPROTO_TCP \<and> optname = TCP_INFO
        then (get_tcp_info (cover_mss sip (gd_family data)) rd left len_opt mem, len_opt, st')
        else if level \<noteq> SOL_SOCKET then (mem, len_opt, st')
        else if optname = SO_BINDTODEVICE
        then (case get_bindtodevice env rd (left = 0) put_len len_opt mem of (mem', len') \<Rightarrow> (mem', len', st'))
        else if optname = SO_BINDTOIFINDEX
        then (get_bindtoifindex env rd left mem, len_opt, st')
        else (mem, len_opt, st'))"

section \<open>Lemmas\<close>

lemma u32_bytes_of_bytes:
  "u32_bytes (ucast a OR push_bit 8 (ucast b) OR push_bit 16 (ucast c) OR push_bit 24 (ucast d)) =
     [a, b, c, d :: u8]"
proof -
  let ?w = "ucast a OR push_bit 8 (ucast b) OR push_bit 16 (ucast c) OR push_bit 24 (ucast d) :: u32"
  have "ucast ?w = a" "ucast (drop_bit 8 ?w) = b" "ucast (drop_bit 16 ?w) = c" "ucast (drop_bit 24 ?w) = d"
    by (rule bit_word_eqI, auto simp: bit_simps dest: bit_imp_le_length)+
  then show ?thesis by (simp only: u32_bytes_def)
qed

lemma u32_bytes_get: "4 \<le> length mem \<Longrightarrow> u32_bytes (get_u32 mem 0) = take 4 mem"
proof -
  assume "4 \<le> length mem"
  then obtain a m1 where 1: "mem = a # m1" "3 \<le> length m1" by (cases mem) auto
  then obtain b m2 where 2: "m1 = b # m2" "2 \<le> length m2" by (cases m1) auto
  then obtain c m3 where 3: "m2 = c # m3" "1 \<le> length m3" by (cases m2) auto
  then obtain d rest where "m3 = d # rest" by (cases m3) auto
  with 1 2 3 have mem: "mem = a # b # c # d # rest" by simp
  then have "get_u32 mem 0 = ucast a OR push_bit 8 (ucast b) OR push_bit 16 (ucast c) OR push_bit 24 (ucast d)"
    by (simp add: get_u32_def get_u8_Cons)
  then show ?thesis using mem u32_bytes_of_bytes [of a b c d] by simp
qed

lemma put_int_same: "4 \<le> length mem \<Longrightarrow> put_int mem (get_u32 mem 0) = mem"
  by (simp add: put_int_def u32_bytes_get)

lemma replace_positive_cover:
  assumes "len \<ge> 4" "4 \<le> length mem" "sint (get_u32 mem 0) > 0"
  shows "replace_positive cover True 0 (Some len) mem = put_int mem cover"
  using assms put_int_same [of mem] by (auto simp: replace_positive_def)



section \<open>Properties\<close>


text \<open>
  C21: The path MTU and the segment size of a tunnel cannot be observed. For the MTU options and the
  maximum segment size, two sockets with any two positive true values return the same buffer to a
  target UID, and it holds the cover value.
\<close>

theorem sockopt_hides_mtu:
  assumes "data \<in> {\<lparr>gd_level = IPPROTO_IP, gd_optname = IP_MTU, gd_family = f\<rparr>,
      \<lparr>gd_level = IPPROTO_IPV6, gd_optname = IPV6_MTU, gd_family = f\<rparr>,
      \<lparr>gd_level = IPPROTO_TCP, gd_optname = TCP_MAXSEG, gd_family = f\<rparr>}"
    and "len \<ge> 4" and "4 \<le> length mem1" and "4 \<le> length mem2" and "drop 4 mem1 = drop 4 mem2"
    and "sint (get_u32 mem1 0) > 0" and "sint (get_u32 mem2 0) > 0"
  shows "sock_getsockopt_ret env uid data True 0 pl 0 st (Some len) mem1 =
         sock_getsockopt_ret env uid data True 0 pl 0 st (Some len) mem2 \<and>
    get_u32 (fst (sock_getsockopt_ret env uid data True 0 pl 0 st (Some len) mem1)) 0 =
      (if gd_level data = IPPROTO_IP then cover_mtu4 (get_spoof_ip (global_spoof_ip env))
       else if gd_level data = IPPROTO_IPV6 then cover_mtu6 (get_spoof_ip (global_spoof_ip env))
       else cover_mss (get_spoof_ip (global_spoof_ip env)) f)"
proof -
  have "put_int mem1 c = put_int mem2 c" for c using assms(5) by (simp add: put_int_def)
  then have rep: "replace_positive c True 0 (Some len) mem1 = put_int mem1 c \<and>
      replace_positive c True 0 (Some len) mem2 = put_int mem1 c" for c
    using replace_positive_cover [OF assms(2,3,6)] replace_positive_cover [OF assms(2,4,7)] by simp
  have val: "get_u32 (put_int mem1 c) 0 = c" for c by (simp add: put_int_def get_u32_bytes_append)
  from assms(1) consider "data = \<lparr>gd_level = IPPROTO_IP, gd_optname = IP_MTU, gd_family = f\<rparr>"
    | "data = \<lparr>gd_level = IPPROTO_IPV6, gd_optname = IPV6_MTU, gd_family = f\<rparr>"
    | "data = \<lparr>gd_level = IPPROTO_TCP, gd_optname = TCP_MAXSEG, gd_family = f\<rparr>" by blast
  then show ?thesis by cases (simp_all add: sock_getsockopt_ret_def Let_def rep val)
qed

definition sample_opt_env :: hook_env where
  "sample_opt_env = \<lparr>global_policy = Some (sample_policy\<lparr>active_hooks_mask := 0xFFFFFFFF,
     kmod_uids := [10123], kmod_match_mode := 0, app_hook_masks := []\<rparr>),
     global_active_vpns = Some [\<lparr>vpn_ifindex = 7, vpn_name = ''tun0''\<rparr>],
     g_vpn_name_cache = None, global_spoof_ip = None, global_cover_ifindex = 3, stats_pkts_first = False\<rparr>"



theorem sockopt_hides_mtu_witness:
  "fst (sock_getsockopt_ret sample_opt_env 10123 \<lparr>gd_level = IPPROTO_IP, gd_optname = IP_MTU, gd_family = 2\<rparr> True 0 True 0
     (4, []) (Some 4) (u32_bytes 1420)) =
   fst (sock_getsockopt_ret sample_opt_env 10123 \<lparr>gd_level = IPPROTO_IP, gd_optname = IP_MTU, gd_family = 2\<rparr> True 0 True 0
     (4, []) (Some 4) (u32_bytes 1280))"
  using sockopt_hides_mtu [of "\<lparr>gd_level = IPPROTO_IP, gd_optname = IP_MTU, gd_family = 2\<rparr>" 2 4 "u32_bytes 1420"
      "u32_bytes 1280" sample_opt_env 10123 True "(4, [])"]
  by (simp add: get_u32_bytes)

end
