(* ===== verification/Name_Hooks.thy ===== *)
theory Name_Hooks
  imports Connect_Hooks Fs_Hooks Seq_Hooks
begin

text \<open>
  The hooks of kmod/hooks_socket.c on addresses: the packet information a datagram socket receives,
  link-local binds and sends, and the local socket name. A control buffer is the list of its bytes;
  \<open>rdh\<close>, \<open>rdp\<close> and \<open>left\<close> tell, by offset, whether a header and a payload can be copied in and how many
  bytes of a payload are not written back. Socket addresses are those of the connect hooks.
\<close>

section \<open>Packet information\<close>

text \<open>\<^verbatim>\<open>struct in_pktinfo\<close>: index, two addresses (12 bytes). \<^verbatim>\<open>struct in6_pktinfo\<close>: address, index (20 bytes).\<close>

definition vh_spoof_pktinfo4 :: "hook_env \<Rightarrow> uid_t \<Rightarrow> vpnhide_hook_idx \<Rightarrow> u8 list \<Rightarrow> bool \<times> u8 list" where
  "vh_spoof_pktinfo4 env uid hook info =
     (if \<not> vpn_index env (get_u32 info 0) then (False, info)
      else if \<not> hook_on env hook uid \<or> \<not> is_target env uid then (False, info)
      else if sint (global_cover_ifindex env) \<le> 0 then (False, info)
      else (True, u32_bytes (global_cover_ifindex env) @ drop 4 info))"

definition get_addr6 :: "u8 list \<Rightarrow> addr4" where
  "get_addr6 bs = (get_u32 bs 0, get_u32 bs 4, get_u32 bs 8, get_u32 bs 12)"

definition addr6_bytes :: "addr4 \<Rightarrow> u8 list" where
  "addr6_bytes a = (case a of (a0, a1, a2, a3) \<Rightarrow> u32_bytes a0 @ u32_bytes a1 @ u32_bytes a2 @ u32_bytes a3)"

definition ipv6_addr_is_multicast :: "addr4 \<Rightarrow> bool" where
  "ipv6_addr_is_multicast a \<longleftrightarrow> fst a AND 0xFF = 0xFF"

definition vh_spoof_pktinfo6 :: "hook_env \<Rightarrow> uid_t \<Rightarrow> vpnhide_hook_idx \<Rightarrow> u8 list \<Rightarrow> bool \<times> u8 list" where
  "vh_spoof_pktinfo6 env uid hook info =
     (if \<not> vpn_index env (get_u32 info 16) then (False, info)
      else if \<not> hook_on env hook uid \<or> \<not> is_target env uid then (False, info)
      else if sint (global_cover_ifindex env) \<le> 0 then (False, info)
      else
        let addr = get_addr6 info; sip = get_spoof_ip (global_spoof_ip env);
            addr' = (if ipv6_addr_linklocal addr
                     then if has_ipv6_linklocal sip \<noteq> 0 then ipv6_linklocal_addr sip else addr
                     else if \<not> ipv6_addr_is_multicast addr
                     then if has_ipv6 sip \<noteq> 0 then ipv6_addr sip else addr
                     else addr) in
        (True, addr6_bytes addr' @ u32_bytes (global_cover_ifindex env) @ drop 20 info))"

text \<open>
  The header of a control message: its length as the header holds it, level and type, the length of
  the header and the distance to the next message, which the alignment may wrap.
\<close>

definition cmsg_header :: "bool \<Rightarrow> u8 list \<Rightarrow> nat \<Rightarrow> nat \<times> nat \<times> u32 \<times> u32 \<times> nat" where
  "cmsg_header is_compat mem off =
     (if is_compat then
        let len = ucast (get_u32 mem off) :: u64 in
        (12, unat len, get_u32 mem (off + 4), get_u32 mem (off + 8), unat ((len + 3) AND NOT 3))
      else
        let len = get_u64 mem off in
        (16, unat len, get_u32 mem (off + 8), get_u32 mem (off + 12), unat ((len + 7) AND NOT 7)))"

definition cmsg_payload :: "u8 list \<Rightarrow> nat \<Rightarrow> nat \<Rightarrow> u8 list" where
  "cmsg_payload mem off n = take n (drop off mem)"

definition put_payload :: "u8 list \<Rightarrow> nat \<Rightarrow> u8 list \<Rightarrow> nat \<Rightarrow> u8 list" where
  "put_payload mem off new left = take off mem @ copy_to_user (drop off mem) new left"

text \<open>The treatment of one message whose length was checked.\<close>

definition rewrite_cmsg :: "hook_env \<Rightarrow> uid_t \<Rightarrow> vpnhide_hook_idx \<Rightarrow> (nat \<Rightarrow> bool) \<Rightarrow> (nat \<Rightarrow> nat) \<Rightarrow> nat \<Rightarrow>
    nat \<Rightarrow> nat \<Rightarrow> u32 \<Rightarrow> u32 \<Rightarrow> u8 list \<times> kstats \<Rightarrow> u8 list \<times> kstats" where
  "rewrite_cmsg env uid hook rdp left off hdr len level type ms =
     (case ms of (mem, st) \<Rightarrow>
        let p = off + hdr in
        if level = 0 \<and> type = 8 \<and> len - hdr \<ge> 12 then
          if rdp off then
            (case vh_spoof_pktinfo4 env uid hook (cmsg_payload mem p 12) of
               (done, info) \<Rightarrow>
                 if done then (put_payload mem p info (left off), if left off = 0 then intercept uid 5 st else st)
                 else (mem, st))
          else (mem, st)
        else if level = 41 \<and> type = 50 \<and> len - hdr \<ge> 20 then
          if rdp off then
            (case vh_spoof_pktinfo6 env uid hook (cmsg_payload mem p 20) of
               (done, info) \<Rightarrow>
                 if done then (put_payload mem p info (left off), if left off = 0 then intercept uid 5 st else st)
                 else (mem, st))
          else (mem, st)
        else (mem, st))"

function cmsg_loop :: "hook_env \<Rightarrow> uid_t \<Rightarrow> vpnhide_hook_idx \<Rightarrow> bool \<Rightarrow> (nat \<Rightarrow> bool) \<Rightarrow> (nat \<Rightarrow> bool) \<Rightarrow> (nat \<Rightarrow> nat) \<Rightarrow>
    nat \<Rightarrow> nat \<Rightarrow> u8 list \<times> kstats \<Rightarrow> u8 list \<times> kstats" where
  "cmsg_loop env uid hook is_compat rdh rdp left used off ms =
     (if off < used then
        case cmsg_header is_compat (fst ms) off of (hdr, len, level, type, step) \<Rightarrow>
          if used - off < hdr \<or> \<not> rdh off then ms
          else if len < hdr \<or> len > used - off \<or> step < len then ms
          else
            let ms' = rewrite_cmsg env uid hook rdp left off hdr len level type ms in
            if step = 0 \<or> step > used - off then ms'
            else cmsg_loop env uid hook is_compat rdh rdp left used (off + step) ms'
      else ms)"
  by pat_completeness auto
termination
  by (relation "measure (\<lambda>(env, uid, hook, is_compat, rdh, rdp, left, used, off, ms). used - off)") auto

declare cmsg_loop.simps [simp del]

record pktinfo_msg =
  control_is_user :: bool
  control_user :: bool
  controllen :: nat
  cmsg_compat :: bool

record pktinfo_recv_data =
  control_start :: bool
  controllen_start :: nat
  pr_uid :: uid_t
  pr_hook :: vpnhide_hook_idx

definition vh_pktinfo_recv_entry :: "hook_env \<Rightarrow> uid_t \<Rightarrow> pktinfo_msg option \<Rightarrow> vpnhide_hook_idx \<Rightarrow>
    pktinfo_recv_data option" where
  "vh_pktinfo_recv_entry env uid msg_opt hook =
     (case msg_opt of
        None \<Rightarrow> None
      | Some msg \<Rightarrow>
          if \<not> control_is_user msg \<or> \<not> control_user msg \<or> controllen msg = 0 \<or> \<not> hook_on env hook uid \<or>
             \<not> is_target env uid
          then None
          else Some \<lparr>control_start = True, controllen_start = controllen msg, pr_uid = uid, pr_hook = hook\<rparr>)"

definition ip_cmsg_recv_entry :: "hook_env \<Rightarrow> uid_t \<Rightarrow> pktinfo_msg option \<Rightarrow> pktinfo_recv_data option" where
  "ip_cmsg_recv_entry env uid msg = vh_pktinfo_recv_entry env uid msg HOOK_GETNAME_INET"

definition ip6_cmsg_recv_entry :: "hook_env \<Rightarrow> uid_t \<Rightarrow> pktinfo_msg option \<Rightarrow> pktinfo_recv_data option" where
  "ip6_cmsg_recv_entry env uid msg = vh_pktinfo_recv_entry env uid msg HOOK_GETNAME_INET6"

definition vh_rewrite_pktinfo_cmsgs :: "hook_env \<Rightarrow> (nat \<Rightarrow> bool) \<Rightarrow> (nat \<Rightarrow> bool) \<Rightarrow> (nat \<Rightarrow> nat) \<Rightarrow>
    pktinfo_recv_data \<Rightarrow> pktinfo_msg \<Rightarrow> u8 list \<times> kstats \<Rightarrow> u8 list \<times> kstats" where
  "vh_rewrite_pktinfo_cmsgs env rdh rdp left data msg ms =
     (if \<not> control_start data \<or> \<not> control_is_user msg \<or> controllen msg > controllen_start data then ms
      else cmsg_loop env (pr_uid data) (pr_hook data) (cmsg_compat msg) rdh rdp left
             (controllen_start data - controllen msg) 0 ms)"

section \<open>Link-local binds and sends\<close>

text \<open>An IPv6 socket address as the link-local hooks read it: its family, address and scope.\<close>

record sockaddr6 =
  sin6_family :: u16
  sin6_addr :: addr4
  sin6_scope_id :: u32

text \<open>The first byte is fe and the top bits of the second are 10.\<close>

definition is_ll :: "addr4 \<Rightarrow> bool" where
  "is_ll a \<longleftrightarrow> fst a AND 0xFF = 0xFE \<and> fst a AND 0xC000 = 0x8000"

record bind_ll_data =
  bl_should_deny :: bool
  bl_sock :: "sock option"
  bl_uid :: uid_t

definition inet6_bind_ll_entry :: "hook_env \<Rightarrow> uid_t \<Rightarrow> socket option \<Rightarrow> sockaddr6 option \<Rightarrow> nat \<times> bind_ll_data" where
  "inet6_bind_ll_entry env uid socket_opt addr =
     (let data = (case socket_opt of
            Some (Some sk) \<Rightarrow>
              if sk_family sk = AF_INET6 \<and> sk_type sk = SOCK_DGRAM
              then \<lparr>bl_should_deny = False, bl_sock = Some sk, bl_uid = uid\<rparr>
              else \<lparr>bl_should_deny = False, bl_sock = None, bl_uid = 0\<rparr>
          | _ \<Rightarrow> \<lparr>bl_should_deny = False, bl_sock = None, bl_uid = 0\<rparr>);
          out = (if bl_sock data \<noteq> None then 0 else 1) in
      if \<not> hook_on env HOOK_INET6_BIND_LL (bl_uid data) \<or> \<not> is_target env uid then (out, data)
      else case addr of
        None \<Rightarrow> (out, data)
      | Some sin6 \<Rightarrow>
          if sin6_family sin6 \<noteq> 10 then (out, data)
          else if \<not> is_ll (sin6_addr sin6) then (out, data)
          else if sin6_scope_id sin6 = 0 \<or> \<not> vpn_index env (sin6_scope_id sin6) then (out, data)
          else (0, data\<lparr>bl_should_deny := True\<rparr>))"

definition inet6_bind_ll_ret :: "u64 \<Rightarrow> bool \<Rightarrow> port_env \<Rightarrow> uid_t \<Rightarrow> bool \<Rightarrow> bind_ll_data \<Rightarrow> sock option \<Rightarrow> int \<Rightarrow> kstats \<Rightarrow>
    int \<times> (pending_port list list \<times> bool) \<times> kstats" where
  "inet6_bind_ll_ret hz ctx penv uid bind_uses_wrapper data sk retval st =
     (let sk = (if bl_sock data = None then None else sk) in
      if \<not> bl_should_deny data then
        (retval,
         if \<not> bind_uses_wrapper \<and> retval = 0 \<and> sk \<noteq> None
         then vpnhide_record_bound_socket hz (env_jiffies penv) (env_policy penv) ctx (bl_uid data) sk (env_pending penv)
         else (env_pending penv, False), st)
      else (-19, (env_pending penv, False), intercept uid 4 st))"

record sendmsg_ll_data =
  sl_should_deny :: bool
  sl_orig_sndbuf :: int
  sl_rl_spoofed :: bool

text \<open>\<open>name\<close> is the destination the message carries, when it is long enough and readable.\<close>

definition udpv6_sendmsg_ll_entry :: "hook_env \<Rightarrow> uid_t \<Rightarrow> u64 \<Rightarrow> bool \<Rightarrow> udp_sock option \<Rightarrow> udp_msg option \<Rightarrow>
    sockaddr6 option \<Rightarrow> udp_uid_rate list \<Rightarrow> sendmsg_ll_data \<Rightarrow>
    nat \<times> sendmsg_ll_data \<times> udp_sock option \<times> udp_uid_rate list" where
  "udpv6_sendmsg_ll_entry env uid now alloc_ok sk_opt msg_opt name rates data0 =
     (if \<not> hook_on env HOOK_UDPV6_SENDMSG uid then (1, data0, sk_opt, rates)
      else if \<not> is_target env uid then (1, data0, sk_opt, rates)
      else case (sk_opt, msg_opt) of
        (Some sk, Some msg) \<Rightarrow>
          let data = \<lparr>sl_should_deny = False, sl_orig_sndbuf = us_sndbuf sk, sl_rl_spoofed = False\<rparr>;
              deny = (case (if msg_name msg then name else None) of
                  None \<Rightarrow> False
                | Some sin6 \<Rightarrow> sin6_family sin6 = 10 \<and> is_ll (sin6_addr sin6) \<and> sin6_scope_id sin6 \<noteq> 0 \<and>
                    vpn_index env (sin6_scope_id sin6)) in
          if deny then (0, data\<lparr>sl_should_deny := True\<rparr>, Some sk, rates)
          else if msg_dontwait msg \<and> vpnhide_udp_dst_is_vpn_bound env sk (Some msg) then
            (case udp_rate_limit_exceeded now alloc_ok uid rates of (exceeded, rates') \<Rightarrow>
               if exceeded
               then (0, data\<lparr>sl_rl_spoofed := True\<rparr>, Some (sk\<lparr>us_sndbuf := 0\<rparr>), rates')
               else (0, data, Some sk, rates'))
          else (0, data, Some sk, rates)
      | _ \<Rightarrow> (1, data0, sk_opt, rates))"

definition udpv6_sendmsg_ll_ret :: "uid_t \<Rightarrow> sendmsg_ll_data \<Rightarrow> udp_sock \<Rightarrow> int \<Rightarrow> kstats \<Rightarrow> udp_sock \<times> int \<times> kstats" where
  "udpv6_sendmsg_ll_ret uid data sk retval st =
     (let sk' = (if sl_rl_spoofed data then sk\<lparr>us_sndbuf := sl_orig_sndbuf data\<rparr> else sk) in
      if \<not> sl_should_deny data then (sk', retval, st)
      else (sk', -105, intercept uid 4 st))"

section \<open>Socket names\<close>



text \<open>\<open>regs_ok\<close>: the user registers are readable; the data is whether the address pointer is set and the length.\<close>

definition sys_getsockname_entry :: "hook_env \<Rightarrow> uid_t \<Rightarrow> bool \<Rightarrow> bool \<Rightarrow> int option \<Rightarrow> (bool \<times> int) option" where
  "sys_getsockname_entry env uid regs_ok uaddr ulen =
     (if \<not> hook_on env HOOK_GETNAME_INET uid \<and> \<not> hook_on env HOOK_GETNAME_INET6 uid then None
      else if \<not> is_target env uid then None
      else if \<not> regs_ok then None
      else Some (uaddr, case ulen of Some n \<Rightarrow> n | None \<Rightarrow> 0))"




text \<open>The protocol handlers: the data is whether the kernel's address pointer is set.\<close>

definition inet_getname_entry :: "hook_env \<Rightarrow> uid_t \<Rightarrow> int \<Rightarrow> bool \<Rightarrow> bool option" where
  "inet_getname_entry env uid peer uaddr =
     (if \<not> hook_on env HOOK_GETNAME_INET uid then None
      else if peer \<noteq> 0 \<or> \<not> is_target env uid then None
      else Some uaddr)"


definition inet6_getname_entry :: "hook_env \<Rightarrow> uid_t \<Rightarrow> int \<Rightarrow> bool \<Rightarrow> bool option" where
  "inet6_getname_entry env uid peer uaddr =
     (if \<not> hook_on env HOOK_GETNAME_INET6 uid then None
      else if peer \<noteq> 0 \<or> \<not> is_target env uid then None
      else Some uaddr)"


section \<open>Bounds of the rewriting\<close>

lemma length_addr6_bytes [simp]: "length (addr6_bytes a) = 16"
  by (cases a) (simp add: addr6_bytes_def)

lemma spoof_pktinfo4_length: "vh_spoof_pktinfo4 env uid hook info = (b, info') \<Longrightarrow> length info = 12 \<Longrightarrow> length info' = 12"
  by (auto simp: vh_spoof_pktinfo4_def split: if_splits)

lemma spoof_pktinfo6_length: "vh_spoof_pktinfo6 env uid hook info = (b, info') \<Longrightarrow> length info = 20 \<Longrightarrow> length info' = 20"
proof -
  have "length info = 20 \<Longrightarrow> length (snd (vh_spoof_pktinfo6 env uid hook info)) = 20"
    by (simp add: vh_spoof_pktinfo6_def Let_def)
  then show "vh_spoof_pktinfo6 env uid hook info = (b, info') \<Longrightarrow> length info = 20 \<Longrightarrow> length info' = 20" by simp
qed

definition same_outside :: "nat \<Rightarrow> u8 list \<Rightarrow> u8 list \<Rightarrow> bool" where
  "same_outside used mem mem' \<longleftrightarrow> length mem' = length mem \<and> drop used mem' = drop used mem"

lemma put_payload_same_outside:
  assumes "p + length new \<le> used" "used \<le> length mem"
  shows "same_outside used mem (put_payload mem p new left)"
proof -
  let ?k = "length new - left"
  have k: "?k \<le> length new" by simp
  have e: "put_payload mem p new left = take p mem @ take ?k new @ drop (p + ?k) mem"
    by (simp add: put_payload_def copy_to_user_def add.commute)
  have "drop used (put_payload mem p new left) = drop (used - (p + ?k)) (drop (p + ?k) mem)"
    using assms by (simp add: e drop_append)
  moreover have "length (put_payload mem p new left) = length mem" using assms by (simp add: e)
  ultimately show ?thesis using assms k by (simp add: same_outside_def)
qed

lemma rewrite_cmsg_same_outside:
  assumes "off + len \<le> used" "hdr \<le> len" "used \<le> length mem"
  shows "same_outside used mem (fst (rewrite_cmsg env uid hook rdp left off hdr len level type (mem, st)))"
proof -
  have refl: "same_outside used mem mem" by (simp add: same_outside_def)
  obtain b4 i4 where s4: "vh_spoof_pktinfo4 env uid hook (cmsg_payload mem (off + hdr) 12) = (b4, i4)" by fastforce
  obtain b6 i6 where s6: "vh_spoof_pktinfo6 env uid hook (cmsg_payload mem (off + hdr) 20) = (b6, i6)" by fastforce
  have p4: "same_outside used mem (put_payload mem (off + hdr) i4 (left off))" if "len - hdr \<ge> 12"
    using that assms spoof_pktinfo4_length [OF s4] by (intro put_payload_same_outside) (auto simp: cmsg_payload_def)
  have p6: "same_outside used mem (put_payload mem (off + hdr) i6 (left off))" if "len - hdr \<ge> 20"
    using that assms spoof_pktinfo6_length [OF s6] by (intro put_payload_same_outside) (auto simp: cmsg_payload_def)
  show ?thesis using refl p4 p6 by (simp add: rewrite_cmsg_def Let_def s4 s6)
qed

lemma same_outside_trans: "same_outside used a b \<Longrightarrow> same_outside used b c \<Longrightarrow> same_outside used a c"
  by (simp add: same_outside_def)

lemma cmsg_loop_same_outside:
  "used \<le> length (fst ms) \<Longrightarrow>
     same_outside used (fst ms) (fst (cmsg_loop env uid hook is_compat rdh rdp left used off ms))"
proof (induction "used - off" arbitrary: off ms rule: less_induct)
  case less
  obtain mem st where ms: "ms = (mem, st)" by (cases ms)
  obtain hdr len level type step where h: "cmsg_header is_compat mem off = (hdr, len, level, type, step)"
    by (metis prod_cases5)
  let ?ms' = "rewrite_cmsg env uid hook rdp left off hdr len level type ms"
  have refl: "same_outside used mem mem" by (simp add: same_outside_def)
  show ?case
  proof (cases "off < used \<and> \<not> (used - off < hdr \<or> \<not> rdh off) \<and> \<not> (len < hdr \<or> len > used - off \<or> step < len)")
    case False
    then have "cmsg_loop env uid hook is_compat rdh rdp left used off ms = ms"
      using h ms by (auto simp: cmsg_loop.simps [of env uid hook is_compat rdh rdp left used off])
    then show ?thesis using ms refl by simp
  next
    case True
    then have "off + len \<le> used" "hdr \<le> len" "used \<le> length mem" using less.prems ms by auto
    then have so: "same_outside used mem (fst ?ms')" using rewrite_cmsg_same_outside ms by simp
    show ?thesis
    proof (cases "step = 0 \<or> step > used - off")
      case fin: True
      then have "cmsg_loop env uid hook is_compat rdh rdp left used off ms = ?ms'"
        using True h ms by (simp add: cmsg_loop.simps [of env uid hook is_compat rdh rdp left used off] Let_def)
      then show ?thesis using so ms by simp
    next
      case False
      have len': "used \<le> length (fst ?ms')" using so less.prems ms by (simp add: same_outside_def)
      have "cmsg_loop env uid hook is_compat rdh rdp left used off ms =
          cmsg_loop env uid hook is_compat rdh rdp left used (off + step) ?ms'"
        using True False h ms by (simp add: cmsg_loop.simps [of env uid hook is_compat rdh rdp left used off] Let_def)
      moreover have "same_outside used (fst ?ms') (fst (cmsg_loop env uid hook is_compat rdh rdp left used (off + step) ?ms'))"
        using False True len' by (intro less.hyps) auto
      ultimately show ?thesis using same_outside_trans [OF so] ms by simp
    qed
  qed
qed

section \<open>Rewriting a list of messages\<close>


















section \<open>Properties\<close>


definition sample_name_env :: hook_env where
  "sample_name_env = \<lparr>global_policy = Some (sample_policy\<lparr>active_hooks_mask := 0xFFFFFFFF,
     kmod_uids := [10123], kmod_match_mode := 0, app_hook_masks := []\<rparr>),
     global_active_vpns = Some [\<lparr>vpn_ifindex = 7, vpn_name = ''tun0''\<rparr>],
     g_vpn_name_cache = None, global_spoof_ip = None, global_cover_ifindex = 3, stats_pkts_first = False\<rparr>"



text \<open>
  The rewriting stays inside the control data the kernel wrote, for any bytes whatever: lengths in the
  buffer cannot make it write past the used part, whatever the copies do.
\<close>

theorem pktinfo_rewrite_bounded:
  assumes "controllen_start data - controllen msg \<le> length mem"
  shows "length (fst (vh_rewrite_pktinfo_cmsgs env rdh rdp left data msg (mem, st))) = length mem \<and>
    drop (controllen_start data - controllen msg) (fst (vh_rewrite_pktinfo_cmsgs env rdh rdp left data msg (mem, st))) =
      drop (controllen_start data - controllen msg) mem"
  using cmsg_loop_same_outside [of "controllen_start data - controllen msg" "(mem, st)" env "pr_uid data" "pr_hook data"
      "cmsg_compat msg" rdh rdp left 0] assms
  by (simp add: vh_rewrite_pktinfo_cmsgs_def same_outside_def)

theorem pktinfo_rewrite_bounded_witness:
  "length (fst (vh_rewrite_pktinfo_cmsgs sample_name_env (\<lambda>_. True) (\<lambda>_. True) (\<lambda>_. 3)
      \<lparr>control_start = True, controllen_start = 64, pr_uid = 10123, pr_hook = HOOK_GETNAME_INET\<rparr>
      \<lparr>control_is_user = True, control_user = True, controllen = 32, cmsg_compat = False\<rparr>
      (replicate 32 255, (4, [])))) = 32"
  using pktinfo_rewrite_bounded [of "\<lparr>control_start = True, controllen_start = 64, pr_uid = 10123, pr_hook = HOOK_GETNAME_INET\<rparr>"
      "\<lparr>control_is_user = True, control_user = True, controllen = 32, cmsg_compat = False\<rparr>" "replicate 32 255"
      sample_name_env "\<lambda>_. True" "\<lambda>_. True" "\<lambda>_. 3" "(4, [])"] by simp



text \<open>
  C25: The link-local bind hook looks up the hook mask of UID 0 for every socket that is not an IPv6
  datagram socket, because it takes the caller's UID only for those. With the hook off in the global
  mask and on in the application's own mask, a stream bind to a VPN link-local address is let through.
\<close>

theorem bind_ll_ignores_app_mask:
  assumes "sk_type sk \<noteq> SOCK_DGRAM" and "hook_on env HOOK_INET6_BIND_LL uid" and "is_target env uid"
    and "\<not> hook_on env HOOK_INET6_BIND_LL 0"
    and "sin6_family sin6 = 10" and "is_ll (sin6_addr sin6)" and "vpn_index env (sin6_scope_id sin6)"
  shows "fst (inet6_bind_ll_entry env uid (Some (Some sk)) (Some sin6)) = 1 \<and>
    \<not> bl_should_deny (snd (inet6_bind_ll_entry env uid (Some (Some sk)) (Some sin6)))"
  using assms by (simp add: inet6_bind_ll_entry_def Let_def)

definition sample_mask_env :: hook_env where
  "sample_mask_env = sample_name_env\<lparr>global_policy := Some (sample_policy\<lparr>active_hooks_mask := 0,
     kmod_uids := [10123], kmod_match_mode := 0, app_hook_masks :=
       [\<lparr>mask_uid = 10123, kernel_mask = 0xFFFFFFFF, java_mask = 0, has_kernel_override = 1, has_java_override = 0,
         mask_reserved = (0, 0)\<rparr>]\<rparr>)\<rparr>"

theorem bind_ll_ignores_app_mask_witness:
  "fst (inet6_bind_ll_entry sample_mask_env 10123
     (Some (Some \<lparr>sk_type = SOCK_STREAM, sk_family = AF_INET6, inet_num = 0, inet_rcv_saddr = 0, sk_v6_rcv_saddr = (0, 0, 0, 0)\<rparr>))
     (Some \<lparr>sin6_family = 10, sin6_addr = (0x80FE, 0, 0, 1), sin6_scope_id = 7\<rparr>)) = 1"
proof -
  have h: "hook_on sample_mask_env HOOK_INET6_BIND_LL 10123" "\<not> hook_on sample_mask_env HOOK_INET6_BIND_LL 0"
    "is_target sample_mask_env 10123" "is_ll (0x80FE, 0, 0, 1)" "vpn_index sample_mask_env 7"
    by code_simp+
  show ?thesis
    using bind_ll_ignores_app_mask [of "\<lparr>sk_type = SOCK_STREAM, sk_family = AF_INET6, inet_num = 0, inet_rcv_saddr = 0,
        sk_v6_rcv_saddr = (0, 0, 0, 0)\<rparr>" sample_mask_env 10123 "\<lparr>sin6_family = 10, sin6_addr = (0x80FE, 0, 0, 1), sin6_scope_id = 7\<rparr>"] h
    by simp
qed

end
