(* ===== verification/Parson_Object.thy ===== *)
theory Parson_Object
  imports Probe_Table
begin

text \<open>
  The objects of the JSON library (kmod/parson.c): a hash table with open addressing whose cells
  hold indices into the arrays of names and values, which are kept in the order of insertion. The
  arrays are represented up to their count, so that the count is their length; \<open>item_capacity\<close> is
  the number of entries they have room for. Cells are \<^verbatim>\<open>size_t\<close> values, \<^verbatim>\<open>OBJECT_INVALID_IX\<close> is
  \<open>None\<close>. Allocations of the library succeed: a failing one makes its callers fail as a syntax
  error does. The pointers to the enclosing value are not represented, nothing the program calls
  reads them.

  The lemmas show that an object is a finite map in insertion order: a look-up after any
  sequence of additions finds exactly what was added, a duplicate name is refused, the table never
  fills up, so that every addition finds a cell, and every index the operations use is in bounds.
\<close>

section \<open>The table\<close>

datatype 'v json_object =
  Json_Object (cells: "nat option list") (hashes: "u64 list") (names: "string list")
    (vals: "'v list") (cell_ixs: "nat option list") (item_capacity: nat)

definition strlen :: "string \<Rightarrow> nat" where
  "strlen s = length (c_string s)"

definition hash_string :: "string \<Rightarrow> nat \<Rightarrow> u64" where
  "hash_string s n = foldl (\<lambda>hash c. (push_bit 5 hash + hash) + of_char c) 5381 (c_string (take n s))"

definition STARTING_CAPACITY :: nat where
  "STARTING_CAPACITY = 16"

definition json_object_init :: "nat \<Rightarrow> 'v json_object" where
  "json_object_init capacity = Json_Object (replicate capacity None) [] [] [] [] (capacity * 7 div 10)"

definition json_object_make :: "'v json_object" where
  "json_object_make = json_object_init 0"

fun get_cell_from :: "'v json_object \<Rightarrow> string \<Rightarrow> nat \<Rightarrow> u64 \<Rightarrow> nat \<Rightarrow> nat \<Rightarrow> nat \<Rightarrow> nat option \<times> bool" where
  "get_cell_from ob key key_len hash cell_ix i 0 = (None, False)"
| "get_cell_from ob key key_len hash cell_ix i (Suc left) =
     (let ix = (cell_ix + i) AND (length (cells ob) - 1) in
      case cells ob ! ix of
        None \<Rightarrow> (Some ix, False)
      | Some cell \<Rightarrow>
          if hash \<noteq> hashes ob ! cell then get_cell_from ob key key_len hash cell_ix (i + 1) left
          else if strlen (names ob ! cell) = key_len \<and> strncmp_eq key_len key (names ob ! cell) then (Some ix, True)
          else get_cell_from ob key key_len hash cell_ix (i + 1) left)"

definition json_object_get_cell_ix :: "'v json_object \<Rightarrow> string \<Rightarrow> nat \<Rightarrow> u64 \<Rightarrow> nat option \<times> bool" where
  "json_object_get_cell_ix ob key key_len hash =
     get_cell_from ob key key_len hash (unat hash AND (length (cells ob) - 1)) 0 (length (cells ob))"

definition put_item :: "'v json_object \<Rightarrow> nat option \<Rightarrow> string \<Rightarrow> 'v \<Rightarrow> u64 \<Rightarrow> 'v json_object" where
  "put_item ob cell_ix name v hash =
     Json_Object (case cell_ix of None \<Rightarrow> cells ob | Some ix \<Rightarrow> (cells ob)[ix := Some (length (names ob))])
       (hashes ob @ [hash]) (names ob @ [name]) (vals ob @ [v]) (cell_ixs ob @ [cell_ix]) (item_capacity ob)"

text \<open>
  Adding an entry and rehashing call each other: a full object is rebuilt with twice the cells by
  adding its entries to a new one. The number bounds how deep the calls nest; one level is enough,
  since the new object has room for all old entries.
\<close>

fun json_object_add :: "nat \<Rightarrow> 'v json_object \<Rightarrow> string \<Rightarrow> 'v \<Rightarrow> 'v json_object option"
  and json_object_grow_and_rehash :: "nat \<Rightarrow> 'v json_object \<Rightarrow> (string \<times> 'v) list \<Rightarrow> 'v json_object option" where
  "json_object_add level ob name v =
     (let hash = hash_string name (strlen name);
          (cell_ix, found) = json_object_get_cell_ix ob name (strlen name) hash in
      if found then None
      else if item_capacity ob \<le> length (names ob) then
        (case level of
           0 \<Rightarrow> None
         | Suc below \<Rightarrow>
             (case json_object_grow_and_rehash below (json_object_init (max (length (cells ob) * 2) STARTING_CAPACITY))
                     (zip (names ob) (vals ob)) of
                None \<Rightarrow> None
              | Some ob' \<Rightarrow>
                  Some (put_item ob' (fst (json_object_get_cell_ix ob' name (strlen name) hash)) name v hash)))
      else Some (put_item ob cell_ix name v hash))"
| "json_object_grow_and_rehash level new_object [] = Some new_object"
| "json_object_grow_and_rehash level new_object ((key, v) # items) =
     (case json_object_add level new_object key v of
        None \<Rightarrow> None
      | Some ob \<Rightarrow> json_object_grow_and_rehash level ob items)"

declare json_object_add.simps [simp del]

definition json_object_getn_value :: "'v json_object \<Rightarrow> string \<Rightarrow> nat \<Rightarrow> 'v option" where
  "json_object_getn_value ob name name_len =
     (case json_object_get_cell_ix ob name name_len (hash_string name name_len) of
        (Some cell_ix, True) \<Rightarrow> (case cells ob ! cell_ix of Some item_ix \<Rightarrow> Some (vals ob ! item_ix) | None \<Rightarrow> None)
      | _ \<Rightarrow> None)"

definition json_object_get_value :: "'v json_object \<Rightarrow> string \<Rightarrow> 'v option" where
  "json_object_get_value ob name = json_object_getn_value ob name (strlen name)"

definition json_object_has_value :: "'v json_object \<Rightarrow> string \<Rightarrow> bool" where
  "json_object_has_value ob name = (json_object_get_value ob name \<noteq> None)"

definition json_object_get_count :: "'v json_object \<Rightarrow> nat" where
  "json_object_get_count ob = length (names ob)"

section \<open>The invariant of an object\<close>

fun index_of :: "'a list \<Rightarrow> 'a \<Rightarrow> nat" where
  "index_of [] x = 0"
| "index_of (y # ys) x = (if x = y then 0 else Suc (index_of ys x))"

lemma index_of_in: "x \<in> set xs \<Longrightarrow> index_of xs x < length xs \<and> xs ! index_of xs x = x"
  by (induction xs) auto

lemma index_of_nth: "distinct xs \<Longrightarrow> i < length xs \<Longrightarrow> index_of xs (xs ! i) = i"
  by (metis distinct_conv_nth index_of_in nth_mem)

definition name_cell :: "string list \<Rightarrow> nat option \<Rightarrow> string cell" where
  "name_cell ns c = (case c of None \<Rightarrow> Empty | Some i \<Rightarrow> Used (ns ! i))"

definition home_of :: "string \<Rightarrow> nat" where
  "home_of name = unat (hash_string name (strlen name))"

interpretation ob: probe_table "name_cell ns" home_of "\<lambda>_ k. Some (index_of ns k)" "\<lambda>k. k \<in> set ns" for ns
  by unfold_locales (simp add: name_cell_def index_of_in)

definition object_inv :: "'v json_object \<Rightarrow> bool" where
  "object_inv ob \<longleftrightarrow>
     (length (cells ob) = 0 \<or> (\<exists>k. 4 \<le> k \<and> length (cells ob) = 2 ^ k)) \<and>
     item_capacity ob = length (cells ob) * 7 div 10 \<and> length (names ob) \<le> item_capacity ob \<and>
     length (vals ob) = length (names ob) \<and> length (cell_ixs ob) = length (names ob) \<and>
     hashes ob = map (\<lambda>n. hash_string n (strlen n)) (names ob) \<and>
     distinct (names ob) \<and> (\<forall>n \<in> set (names ob). NUL \<notin> set n) \<and>
     (\<forall>c \<in> set (cells ob). case c of None \<Rightarrow> True | Some i \<Rightarrow> i < length (names ob)) \<and>
     (\<forall>i < length (names ob). \<exists>p < length (cells ob). cell_ixs ob ! i = Some p \<and> cells ob ! p = Some i) \<and>
     probe_inv (name_cell (names ob)) home_of (cells ob)"

lemma object_invD:
  assumes "object_inv ob"
  shows "length (cells ob) = 0 \<or> (\<exists>k. 4 \<le> k \<and> length (cells ob) = 2 ^ k)"
    and "item_capacity ob = length (cells ob) * 7 div 10" and "length (names ob) \<le> item_capacity ob"
    and "length (vals ob) = length (names ob)" and "length (cell_ixs ob) = length (names ob)"
    and "hashes ob = map (\<lambda>n. hash_string n (strlen n)) (names ob)"
    and "distinct (names ob)" and "\<And>n. n \<in> set (names ob) \<Longrightarrow> NUL \<notin> set n"
    and "\<And>p i. p < length (cells ob) \<Longrightarrow> cells ob ! p = Some i \<Longrightarrow> i < length (names ob)"
    and "\<And>i. i < length (names ob) \<Longrightarrow> \<exists>p < length (cells ob). cell_ixs ob ! i = Some p \<and> cells ob ! p = Some i"
    and "probe_inv (name_cell (names ob)) home_of (cells ob)"
  using assms by (auto simp: object_inv_def dest: nth_mem split: option.splits)

lemma nat_and_mask: "(n :: nat) AND (2 ^ k - 1) = n mod 2 ^ k"
  by (metis mask_eq_exp_minus_1 take_bit_eq_mask take_bit_eq_mod)

lemma strlen_id: "NUL \<notin> set s \<Longrightarrow> strlen s = length s"
  by (simp add: strlen_def c_string_id)

lemma name_compare:
  assumes "NUL \<notin> set key" "NUL \<notin> set name"
  shows "(strlen name = strlen key \<and> strncmp_eq (strlen key) key name) = (name = key)"
  using assms by (auto simp: strlen_id strncmp_eq_def c_string_id)

lemma get_cell_scan:
  assumes inv: "object_inv ob" and cap: "length (cells ob) = 2 ^ k" and key: "NUL \<notin> set key"
  shows "get_cell_from ob key (strlen key) (hash_string key (strlen key)) h i left =
    (case probe_scan (name_cell (names ob)) (cells ob) key ((h + i) mod 2 ^ k) left None of
       Found p \<Rightarrow> (Some p, True) | Free p \<Rightarrow> (Some p, False) | Full \<Rightarrow> (None, False))"
proof (induction left arbitrary: i)
  case (Suc left)
  let ?ix = "(h + i) mod 2 ^ k"
  have ix: "(h + i) AND (length (cells ob) - Suc 0) = ?ix" using nat_and_mask [of "h + i" k] by (simp add: cap)
  have lt: "?ix < length (cells ob)" by (simp add: cap)
  have nx: "(?ix + 1) mod 2 ^ k = (h + (i + 1)) mod 2 ^ k" by (simp add: mod_simps)
  show ?case
  proof (cases "cells ob ! ?ix")
    case None
    then show ?thesis by (simp add: ix name_cell_def Let_def)
  next
    case (Some c)
    from object_invD(9) [OF inv lt Some] have c: "c < length (names ob)" .
    then have "NUL \<notin> set (names ob ! c)" using object_invD(8) [OF inv] nth_mem by blast
    from name_compare [OF key this] have cmp:
      "(strlen (names ob ! c) = strlen key \<and> strncmp_eq (strlen key) key (names ob ! c)) = (names ob ! c = key)" .
    have h: "hashes ob ! c = hash_string (names ob ! c) (strlen (names ob ! c))"
      using c by (simp add: object_invD(6) [OF inv])
    show ?thesis
    proof (cases "names ob ! c = key")
      case True
      then show ?thesis using Some cmp h by (simp add: ix name_cell_def Let_def)
    next
      case False
      then have "get_cell_from ob key (strlen key) (hash_string key (strlen key)) h i (Suc left) =
          get_cell_from ob key (strlen key) (hash_string key (strlen key)) h (i + 1) left"
        using Some cmp by (auto simp: ix Let_def)
      then show ?thesis using Some False Suc.IH [of "i + 1"] nx by (simp add: cap name_cell_def)
    qed
  qed
qed simp

abbreviation object_scan :: "'v json_object \<Rightarrow> string \<Rightarrow> probe_result" where
  "object_scan ob key \<equiv> probe_scan (name_cell (names ob)) (cells ob) key
     (home_of key mod length (cells ob)) (length (cells ob)) None"

lemma get_cell_ix_scan:
  assumes inv: "object_inv ob" and ne: "cells ob \<noteq> []" and key: "NUL \<notin> set key"
  shows "json_object_get_cell_ix ob key (strlen key) (hash_string key (strlen key)) =
    (case object_scan ob key of
       Found p \<Rightarrow> (Some p, True) | Free p \<Rightarrow> (Some p, False) | Full \<Rightarrow> (None, False))"
proof -
  from object_invD(1) [OF inv] ne obtain k where cap: "length (cells ob) = 2 ^ k" by auto
  have "unat (hash_string key (strlen key)) AND (length (cells ob) - 1) = home_of key mod 2 ^ k"
    using nat_and_mask [of "home_of key" k] by (simp add: cap home_of_def)
  then show ?thesis
    using get_cell_scan [OF inv cap key, of "home_of key mod 2 ^ k" 0 "length (cells ob)"]
    by (simp add: json_object_get_cell_ix_def cap)
qed

lemma get_cell_ix_Nil: "cells ob = [] \<Longrightarrow> json_object_get_cell_ix ob key n h = (None, False)"
  by (simp add: json_object_get_cell_ix_def)

lemma object_keys:
  assumes inv: "object_inv ob"
  shows "cell_keys (name_cell (names ob)) (cells ob) = set (names ob)"
proof -
  have "(\<exists>q < length (cells ob). name_cell (names ob) (cells ob ! q) = Used n) \<longleftrightarrow> n \<in> set (names ob)" for n
  proof
    assume "\<exists>q < length (cells ob). name_cell (names ob) (cells ob ! q) = Used n"
    then obtain q i where "q < length (cells ob)" "cells ob ! q = Some i" "names ob ! i = n"
      by (auto simp: name_cell_def split: option.splits)
    with object_invD(9) [OF inv] show "n \<in> set (names ob)" by fastforce
  next
    assume "n \<in> set (names ob)"
    then obtain i where "i < length (names ob)" "names ob ! i = n" by (auto simp: in_set_conv_nth)
    with object_invD(10) [OF inv] show "\<exists>q < length (cells ob). name_cell (names ob) (cells ob ! q) = Used n"
      by (fastforce simp: name_cell_def)
  qed
  then show ?thesis by (auto simp: cell_keys_nth)
qed

lemma object_make_inv: "object_inv json_object_make"
  by (simp add: object_inv_def json_object_make_def json_object_init_def probe_inv_def)

lemma object_init_inv: "4 \<le> k \<Longrightarrow> object_inv (json_object_init (2 ^ k))"
  by (auto simp: object_inv_def json_object_init_def probe_inv_def name_cell_def)

lemma object_init_simps [simp]:
  "names (json_object_init n) = []" "vals (json_object_init n) = []" "names json_object_make = []" "vals json_object_make = []"
  "length (cells (json_object_init n)) = n" "item_capacity (json_object_init n) = n * 7 div 10"
  by (simp_all add: json_object_init_def json_object_make_def)

text \<open>A look-up returns what the entries map the name to.\<close>

lemma get_value_map_of:
  assumes inv: "object_inv ob" and key: "NUL \<notin> set key"
  shows "json_object_get_value ob key = map_of (zip (names ob) (vals ob)) key"
proof (cases "cells ob = []")
  case True
  then have "names ob = []" using object_invD(2,3) [OF inv] by simp
  then show ?thesis using True by (simp add: json_object_get_value_def json_object_getn_value_def get_cell_ix_Nil)
next
  case ne: False
  note scan = get_cell_ix_scan [OF inv ne key]
  note found = ob.scan_Found_iff [OF object_invD(11) [OF inv] ne, of key]
  show ?thesis
  proof (cases "object_scan ob key")
    case (Found p)
    from ob.scan_FoundD [OF ne Found] obtain i where
      p: "p < length (cells ob)" "cells ob ! p = Some i" "names ob ! i = key"
      by (auto simp: name_cell_def split: option.splits)
    from object_invD(9) [OF inv p(1,2)] have i: "i < length (names ob)" .
    have "(key, vals ob ! i) \<in> set (zip (names ob) (vals ob))"
      using i p(3) object_invD(4) [OF inv] by (auto simp: in_set_zip intro!: exI [of _ i])
    moreover have "distinct (map fst (zip (names ob) (vals ob)))"
      using object_invD(4,7) [OF inv] by simp
    ultimately have "map_of (zip (names ob) (vals ob)) key = Some (vals ob ! i)" by (simp add: map_of_is_SomeI)
    then show ?thesis using Found p scan by (simp add: json_object_get_value_def json_object_getn_value_def)
  next
    case (Free p)
    then have "key \<notin> set (names ob)" using found object_keys [OF inv] by simp
    then have "map_of (zip (names ob) (vals ob)) key = None"
      by (auto simp: map_of_eq_None_iff dest: set_zip_leftD)
    then show ?thesis using Free scan by (simp add: json_object_get_value_def json_object_getn_value_def)
  next
    case Full
    then have "key \<notin> set (names ob)" using found object_keys [OF inv] by simp
    then have "map_of (zip (names ob) (vals ob)) key = None"
      by (auto simp: map_of_eq_None_iff dest: set_zip_leftD)
    then show ?thesis using Full scan by (simp add: json_object_get_value_def json_object_getn_value_def)
  qed
qed

section \<open>Additions\<close>

lemma put_item_simps [simp]:
  "names (put_item ob c n v h) = names ob @ [n]" "vals (put_item ob c n v h) = vals ob @ [v]"
  "item_capacity (put_item ob c n v h) = item_capacity ob" "length (cells (put_item ob c n v h)) = length (cells ob)"
  by (simp_all add: put_item_def split: option.splits)

text \<open>At most seven tenths of the cells are used, so the probing always ends at a free cell.\<close>

lemma object_not_full:
  assumes inv: "object_inv ob" and ne: "cells ob \<noteq> []"
  shows "object_scan ob key \<noteq> Full"
proof
  assume full: "object_scan ob key = Full"
  let ?ix = "\<lambda>p. the (cells ob ! p)"
  have used: "\<exists>i. cells ob ! p = Some i" if "p < length (cells ob)" for p
    using ob.scan_FullD [OF ne full nth_mem [OF that]] by (auto simp: name_cell_def split: option.splits)
  have "inj_on ?ix {..<length (cells ob)}"
  proof (rule inj_onI)
    fix p q assume pq: "p \<in> {..<length (cells ob)}" "q \<in> {..<length (cells ob)}" "?ix p = ?ix q"
    then obtain i where "cells ob ! p = Some i" "cells ob ! q = Some i" using used by (metis lessThan_iff option.sel)
    with pq show "p = q"
      using ob.key_unique [OF object_invD(11) [OF inv], of p "names ob ! i" q] by (simp add: name_cell_def)
  qed
  moreover have "?ix ` {..<length (cells ob)} \<subseteq> {..<length (names ob)}"
    using used object_invD(9) [OF inv] by fastforce
  ultimately have "length (cells ob) \<le> length (names ob)"
    by (metis card_lessThan card_inj_on_le finite_lessThan)
  moreover have "length (cells ob) * 7 div 10 < length (cells ob)" using ne by (cases "cells ob") auto
  ultimately show False using object_invD(2,3) [OF inv] by simp
qed

lemma name_cell_append: "i < length ns \<Longrightarrow> name_cell (ns @ ms) (Some i) = name_cell ns (Some i)"
  by (simp add: name_cell_def nth_append)

lemma name_cells_append:
  assumes inv: "object_inv ob"
  shows "map (name_cell (names ob @ ms)) (cells ob) = map (name_cell (names ob)) (cells ob)"
proof (rule map_cong [OF refl])
  fix c assume "c \<in> set (cells ob)"
  then obtain p where "p < length (cells ob)" "cells ob ! p = c" by (auto simp: in_set_conv_nth)
  with object_invD(9) [OF inv] show "name_cell (names ob @ ms) c = name_cell (names ob) c"
    by (cases c) (auto simp: name_cell_append, simp add: name_cell_def)
qed

lemma probe_scan_map_cell:
  "map c tab = map c' tab \<Longrightarrow> tab \<noteq> [] \<Longrightarrow> pos < length tab \<Longrightarrow> probe_scan c tab k pos left tomb = probe_scan c' tab k pos left tomb"
proof (induction left arbitrary: pos tomb)
  case (Suc left)
  have "c (tab ! pos) = c' (tab ! pos)" using Suc.prems by (metis nth_map)
  moreover have "(pos + 1) mod length tab < length tab" using Suc.prems by simp
  ultimately show ?case using Suc.IH [OF Suc.prems(1,2)] by (simp split: cell.splits)
qed simp

lemma probe_inv_cell_cong:
  "map c tab = map c' tab \<Longrightarrow> probe_inv c home tab = probe_inv c' home tab"
proof -
  assume eq: "map c tab = map c' tab"
  have nth: "c (tab ! q) = c' (tab ! q)" if "q < length tab" for q using that eq by (metis nth_map)
  have "passable c tab k h d = passable c' tab k h d" if "0 < length tab" for k h d
    using that nth by (simp add: passable_def)
  then have "(\<exists>d < length tab. p = (home k + d) mod length tab \<and> passable c tab k (home k) d) \<longleftrightarrow>
      (\<exists>d < length tab. p = (home k + d) mod length tab \<and> passable c' tab k (home k) d)" for k p
    by (cases "0 < length tab") auto
  then show ?thesis by (simp add: probe_inv_def nth cong: cell.case_cong)
qed

lemma put_item_inv:
  assumes inv: "object_inv ob" and ne: "cells ob \<noteq> []" and key: "NUL \<notin> set key"
    and new: "key \<notin> set (names ob)" and room: "length (names ob) < item_capacity ob"
  shows "object_inv (put_item ob (fst (json_object_get_cell_ix ob key (strlen key) (hash_string key (strlen key))))
    key v (hash_string key (strlen key)))"
proof -
  let ?ns = "names ob @ [key]" let ?n = "length (names ob)"
  note I = object_invD [OF inv]
  have "\<not> (\<exists>p. object_scan ob key = Found p)"
    using ob.scan_Found_iff [OF I(11) ne, of key] object_keys [OF inv] new by simp
  with object_not_full [OF inv ne, of key] obtain p where free: "object_scan ob key = Free p"
    by (cases "object_scan ob key") auto
  then have ix: "fst (json_object_get_cell_ix ob key (strlen key) (hash_string key (strlen key))) = Some p"
    by (simp add: get_cell_ix_scan [OF inv ne key])
  have p: "p < length (cells ob)" "cells ob ! p = None"
    using ob.scan_FreeD [OF ne free] by (auto simp: name_cell_def split: option.splits)
  note same = name_cells_append [OF inv, of "[key]"]
  have inv': "probe_inv (name_cell ?ns) home_of (cells ob)"
    using I(11) probe_inv_cell_cong [OF same, of home_of] by simp
  have free': "probe_scan (name_cell ?ns) (cells ob) key (home_of key mod length (cells ob)) (length (cells ob)) None = Free p"
    using free probe_scan_map_cell [OF same ne] ne by simp
  have idx: "index_of ?ns key = ?n" using new index_of_nth [of ?ns ?n] I(7) by (simp add: nth_append)
  have "probe_inv (name_cell ?ns) home_of ((cells ob)[p := Some ?n])"
    using ob.inv_fill(1) [OF inv' ne free'] by (simp add: idx)
  moreover have "\<exists>q < length (cells ob). (cell_ixs ob @ [Some p]) ! i = Some q \<and> (cells ob)[p := Some ?n] ! q = Some i"
    if "i < Suc ?n" for i
  proof (cases "i = ?n")
    case True
    then show ?thesis using p I(5) by (intro exI [of _ p]) (simp add: nth_append)
  next
    case False
    with that have i: "i < ?n" by simp
    from I(10) [OF i] obtain q where q: "q < length (cells ob)" "cell_ixs ob ! i = Some q" "cells ob ! q = Some i" by auto
    with p have "q \<noteq> p" by auto
    with q i I(5) show ?thesis by (intro exI [of _ q]) (simp add: nth_append)
  qed
  moreover have "i < Suc ?n" if "Some i \<in> set ((cells ob)[p := Some ?n])" for i
  proof -
    from that obtain q where q: "q < length (cells ob)" "Some i = (cells ob)[p := Some ?n] ! q"
      by (auto simp: in_set_conv_nth)
    with I(9) [OF q(1), of i] show ?thesis by (auto simp: nth_update split: if_splits)
  qed
  ultimately show ?thesis using I(1-8) room new key
    by (auto simp: ix put_item_def object_inv_def split: option.split)
qed

definition object_entries :: "'v json_object \<Rightarrow> (string \<times> 'v) list" where
  "object_entries ob = zip (names ob) (vals ob)"

text \<open>Adding to an object that has room.\<close>

lemma add_with_room:
  assumes inv: "object_inv ob" and key: "NUL \<notin> set key" and new: "key \<notin> set (names ob)"
    and room: "length (names ob) < item_capacity ob"
  shows "\<exists>ob'. json_object_add level ob key v = Some ob' \<and> object_inv ob' \<and> names ob' = names ob @ [key] \<and>
    vals ob' = vals ob @ [v] \<and> item_capacity ob' = item_capacity ob \<and> length (cells ob') = length (cells ob)"
proof -
  have ne: "cells ob \<noteq> []" using room object_invD(2) [OF inv] by auto
  have "\<not> snd (json_object_get_cell_ix ob key (strlen key) (hash_string key (strlen key)))"
    using ob.scan_Found_iff [OF object_invD(11) [OF inv] ne, of key] object_keys [OF inv] new
    by (auto simp: get_cell_ix_scan [OF inv ne key] split: probe_result.splits)
  then show ?thesis using put_item_inv [OF inv ne key new room, of v] room
    by (auto simp: json_object_add.simps [of level] Let_def split: prod.splits)
qed

lemma rehash_entries:
  assumes "object_inv ob" "distinct (map fst items)" "\<And>n. n \<in> fst ` set items \<Longrightarrow> NUL \<notin> set n \<and> n \<notin> set (names ob)"
    and "length (names ob) + length items \<le> item_capacity ob"
  shows "\<exists>ob'. json_object_grow_and_rehash level ob items = Some ob' \<and> object_inv ob' \<and>
    names ob' = names ob @ map fst items \<and> vals ob' = vals ob @ map snd items \<and>
    item_capacity ob' = item_capacity ob \<and> length (cells ob') = length (cells ob)"
  using assms
proof (induction items arbitrary: ob)
  case (Cons kv items)
  obtain key v where kv: "kv = (key, v)" by (cases kv)
  from add_with_room [OF Cons.prems(1), of key level v] Cons.prems(3,4) obtain ob1 where
    one: "json_object_add level ob key v = Some ob1" "object_inv ob1" "names ob1 = names ob @ [key]"
      "vals ob1 = vals ob @ [v]" "item_capacity ob1 = item_capacity ob" "length (cells ob1) = length (cells ob)"
    by (force simp: kv)
  have "\<exists>ob'. json_object_grow_and_rehash level ob1 items = Some ob' \<and> object_inv ob' \<and>
    names ob' = names ob1 @ map fst items \<and> vals ob' = vals ob1 @ map snd items \<and>
    item_capacity ob' = item_capacity ob1 \<and> length (cells ob') = length (cells ob1)"
    using Cons.prems one(3,5) by (intro Cons.IH [OF one(2)]) (auto simp: kv)
  then show ?case by (auto simp: kv one)
qed auto

lemma grown_capacity:
  assumes "object_inv ob"
  shows "\<exists>k. 4 \<le> k \<and> max (length (cells ob) * 2) STARTING_CAPACITY = 2 ^ k"
    and "length (names ob) < max (length (cells ob) * 2) STARTING_CAPACITY * 7 div 10"
proof -
  consider "length (cells ob) = 0" | k where "4 \<le> k" "length (cells ob) = 2 ^ k" using object_invD(1) [OF assms] by auto
  then show "\<exists>k. 4 \<le> k \<and> max (length (cells ob) * 2) STARTING_CAPACITY = 2 ^ k"
  proof cases
    case 1
    then show ?thesis by (intro exI [of _ 4]) (simp add: STARTING_CAPACITY_def)
  next
    case (2 k)
    then have "(2 :: nat) ^ 4 \<le> 2 ^ k" by (intro power_increasing) auto
    with 2 show ?thesis by (intro exI [of _ "Suc k"]) (simp add: STARTING_CAPACITY_def)
  qed
  have "(2 :: nat) ^ 4 \<le> length (cells ob)" if "length (cells ob) \<noteq> 0"
    using that object_invD(1) [OF assms] power_increasing [of 4 _ "2 :: nat"] by auto
  then show "length (names ob) < max (length (cells ob) * 2) STARTING_CAPACITY * 7 div 10"
    using object_invD(2,3) [OF assms] by (cases "length (cells ob) = 0") (auto simp: STARTING_CAPACITY_def)
qed

text \<open>The contract of an addition: a new name is appended, a name that is there is refused.\<close>

lemma add_new:
  assumes inv: "object_inv ob" and key: "NUL \<notin> set key" and new: "key \<notin> set (names ob)"
  shows "\<exists>ob'. json_object_add (Suc level) ob key v = Some ob' \<and> object_inv ob' \<and> names ob' = names ob @ [key] \<and>
    vals ob' = vals ob @ [v]"
proof (cases "length (names ob) < item_capacity ob")
  case True
  from add_with_room [OF inv key new this, of "Suc level" v] show ?thesis by auto
next
  case False
  let ?h = "hash_string key (strlen key)"
  have notfound: "\<not> snd (json_object_get_cell_ix ob key (strlen key) ?h)"
  proof (cases "cells ob = []")
    case ne: False
    then show ?thesis
      using ob.scan_Found_iff [OF object_invD(11) [OF inv] ne, of key] object_keys [OF inv] new
      by (auto simp: get_cell_ix_scan [OF inv ne key] split: probe_result.splits)
  qed (simp add: get_cell_ix_Nil)
  let ?cap = "max (length (cells ob) * 2) STARTING_CAPACITY"
  from grown_capacity(1) [OF inv] obtain k where k: "4 \<le> k" "?cap = 2 ^ k" by auto
  have inv0: "object_inv (json_object_init ?cap)" using object_init_inv [OF k(1)] by (simp add: k(2))
  note I = object_invD [OF inv]
  have zip: "map fst (zip (names ob) (vals ob)) = names ob" "map snd (zip (names ob) (vals ob)) = vals ob"
    using I(4) by simp_all
  have keys: "fst ` set (zip (names ob) (vals ob)) = set (names ob)" by (metis zip(1) set_map)
  have "\<exists>ob'. json_object_grow_and_rehash level (json_object_init ?cap) (zip (names ob) (vals ob)) = Some ob' \<and> object_inv ob' \<and>
    names ob' = [] @ map fst (zip (names ob) (vals ob)) \<and> vals ob' = [] @ map snd (zip (names ob) (vals ob)) \<and>
    item_capacity ob' = ?cap * 7 div 10 \<and> length (cells ob') = ?cap"
    using rehash_entries [OF inv0, of "zip (names ob) (vals ob)" level] I(4,7,8) grown_capacity(2) [OF inv]
    by (auto simp: zip keys)
  then obtain ob' where ob': "json_object_grow_and_rehash level (json_object_init ?cap) (zip (names ob) (vals ob)) = Some ob'"
    "object_inv ob'" "names ob' = names ob" "vals ob' = vals ob" "item_capacity ob' = ?cap * 7 div 10" "length (cells ob') = ?cap"
    by (auto simp: zip)
  have "cells ob' \<noteq> []" using ob'(6) by (auto simp: STARTING_CAPACITY_def)
  from put_item_inv [OF ob'(2) this key, of v] new grown_capacity(2) [OF inv] ob'
  have "object_inv (put_item ob' (fst (json_object_get_cell_ix ob' key (strlen key) ?h)) key v ?h)" by simp
  then show ?thesis using False notfound ob'
    by (auto simp: json_object_add.simps [of "Suc level"] Let_def split: prod.splits)
qed

lemma add_duplicate:
  assumes inv: "object_inv ob" and key: "NUL \<notin> set key" and old: "key \<in> set (names ob)"
  shows "json_object_add level ob key v = None"
proof -
  have ne: "cells ob \<noteq> []" using old object_invD(2,3) [OF inv] by auto
  have "snd (json_object_get_cell_ix ob key (strlen key) (hash_string key (strlen key)))"
    using ob.scan_Found_iff [OF object_invD(11) [OF inv] ne, of key] object_keys [OF inv] old
    by (auto simp: get_cell_ix_scan [OF inv ne key] split: probe_result.splits)
  then show ?thesis by (auto simp: json_object_add.simps [of level] Let_def split: prod.splits)
qed

section \<open>Objects as maps in insertion order\<close>

text \<open>
  The contract the parser and the readers of a configuration rely on. \<open>add_list\<close> is a run of
  additions, as the loop of the parser makes them.
\<close>

fun add_list :: "('m \<Rightarrow> 'k \<Rightarrow> 'v \<Rightarrow> 'm option) \<Rightarrow> 'm \<Rightarrow> ('k \<times> 'v) list \<Rightarrow> 'm option" where
  "add_list add m [] = Some m"
| "add_list add m ((k, v) # kvs) = (case add m k v of None \<Rightarrow> None | Some m' \<Rightarrow> add_list add m' kvs)"

locale insertion_map =
  fixes make :: 'm
    and add :: "'m \<Rightarrow> 'k \<Rightarrow> 'v \<Rightarrow> 'm option"
    and get :: "'m \<Rightarrow> 'k \<Rightarrow> 'v option"
    and entries :: "'m \<Rightarrow> ('k \<times> 'v) list"
    and inv :: "'m \<Rightarrow> bool"
    and name_ok :: "'k \<Rightarrow> bool"
  assumes make_inv: "inv make" and entries_make: "entries make = []"
    and add_fresh: "inv m \<Longrightarrow> name_ok k \<Longrightarrow> k \<notin> fst ` set (entries m) \<Longrightarrow>
      \<exists>m'. add m k v = Some m' \<and> inv m' \<and> entries m' = entries m @ [(k, v)]"
    and add_present: "inv m \<Longrightarrow> name_ok k \<Longrightarrow> k \<in> fst ` set (entries m) \<Longrightarrow> add m k v = None"
    and get_entry: "inv m \<Longrightarrow> name_ok k \<Longrightarrow> get m k = map_of (entries m) k"
begin

lemma add_list_fresh:
  "inv m \<Longrightarrow> \<forall>k \<in> fst ` set kvs. name_ok k \<Longrightarrow> distinct (map fst (entries m @ kvs)) \<Longrightarrow>
   \<exists>m'. add_list add m kvs = Some m' \<and> inv m' \<and> entries m' = entries m @ kvs"
proof (induction kvs arbitrary: m)
  case (Cons kv kvs)
  obtain k v where kv: "kv = (k, v)" by (cases kv)
  from add_fresh [of m k v] Cons.prems obtain m1 where
    m1: "add m k v = Some m1" "inv m1" "entries m1 = entries m @ [(k, v)]" by (force simp: kv)
  from Cons.IH [OF m1(2)] Cons.prems show ?case by (auto simp: kv m1)
qed simp

lemma add_list_repeated:
  "inv m \<Longrightarrow> \<forall>k \<in> fst ` set kvs. name_ok k \<Longrightarrow> distinct (map fst (entries m)) \<Longrightarrow>
   \<not> distinct (map fst (entries m @ kvs)) \<Longrightarrow> add_list add m kvs = None"
proof (induction kvs arbitrary: m)
  case (Cons kv kvs)
  obtain k v where kv: "kv = (k, v)" by (cases kv)
  show ?case
  proof (cases "k \<in> fst ` set (entries m)")
    case True
    then show ?thesis using add_present [of m k v] Cons.prems by (simp add: kv)
  next
    case False
    from add_fresh [of m k v] Cons.prems False obtain m1 where
      m1: "add m k v = Some m1" "inv m1" "entries m1 = entries m @ [(k, v)]" by (force simp: kv)
    from Cons.IH [OF m1(2)] Cons.prems False show ?thesis by (auto simp: kv m1)
  qed
qed simp

lemma add_list_map:
  assumes "\<forall>k \<in> fst ` set kvs. name_ok k"
  shows "case add_list add make kvs of
      None \<Rightarrow> \<not> distinct (map fst kvs)
    | Some m \<Rightarrow> distinct (map fst kvs) \<and> inv m \<and> entries m = kvs \<and> (\<forall>k. name_ok k \<longrightarrow> get m k = map_of kvs k)"
proof (cases "distinct (map fst kvs)")
  case True
  then show ?thesis using add_list_fresh [OF make_inv assms] get_entry by (auto simp: entries_make)
next
  case False
  then show ?thesis using add_list_repeated [OF make_inv assms] by (simp add: entries_make)
qed

end

lemma entries_names: "object_inv ob \<Longrightarrow> fst ` set (object_entries ob) = set (names ob)"
  by (metis object_entries_def object_invD(4) map_fst_zip set_map)

interpretation json_ob: insertion_map json_object_make "json_object_add 1" json_object_get_value object_entries
  object_inv "\<lambda>k. NUL \<notin> set k"
proof
  fix m :: "'v json_object" and k :: string and v :: 'v
  show "object_inv (json_object_make :: 'v json_object)" by (rule object_make_inv)
  show "object_entries (json_object_make :: 'v json_object) = []" by (simp add: object_entries_def)
  assume m: "object_inv m" and k: "NUL \<notin> set k"
  show "json_object_get_value m k = map_of (object_entries m) k"
    using get_value_map_of [OF m k] by (simp add: object_entries_def)
  show "\<exists>m'. json_object_add 1 m k v = Some m' \<and> object_inv m' \<and> object_entries m' = object_entries m @ [(k, v)]"
    if "k \<notin> fst ` set (object_entries m)"
    using add_new [OF m k, of 0 v] that [unfolded entries_names [OF m]] object_invD(4) [OF m]
    by (auto simp: object_entries_def)
  show "json_object_add 1 m k v = None" if "k \<in> fst ` set (object_entries m)"
    using add_duplicate [OF m k] that by (simp add: entries_names [OF m])
qed

section \<open>Properties\<close>

text \<open>
  C36: The hash table of a JSON object is a map that keeps the order of insertion. Any run of additions
  to a new object, through any number of rehashings, succeeds exactly when no name repeats; then the
  entries are the added ones in their order, and a look-up returns for every name what was added
  under it, and nothing for any other name, whatever the hash values are.
\<close>

theorem object_lookup_exact:
  assumes "\<forall>k \<in> fst ` set kvs. NUL \<notin> set k"
  shows "case add_list (json_object_add 1) json_object_make kvs of
      None \<Rightarrow> \<not> distinct (map fst kvs)
    | Some ob \<Rightarrow> distinct (map fst kvs) \<and> object_entries ob = kvs \<and> json_object_get_count ob = length kvs \<and>
        (\<forall>k. NUL \<notin> set k \<longrightarrow> json_object_get_value ob k = map_of kvs k)"
proof (cases "add_list (json_object_add 1) json_object_make kvs")
  case (Some ob)
  with json_ob.add_list_map [OF assms] have ob: "object_inv ob" "object_entries ob = kvs" by auto
  then have "length (names ob) = length kvs"
    using object_invD(4) [OF ob(1)] by (metis object_entries_def length_zip min.idem)
  with Some json_ob.add_list_map [OF assms] show ?thesis by (simp add: json_object_get_count_def)
qed (use json_ob.add_list_map [OF assms] in simp)

theorem object_lookup_exact_witness:
  "\<exists>ob. add_list (json_object_add 1) json_object_make [(''uid'', 10001), (''kmod'', 1 :: nat)] = Some ob \<and>
     json_object_get_value ob ''kmod'' = Some 1 \<and> json_object_get_value ob ''lsposed'' = None"
proof -
  have ok: "\<forall>k \<in> fst ` set [(''uid'', 10001), (''kmod'', 1 :: nat)]. NUL \<notin> set k" by (simp add: NUL_def)
  show ?thesis
    using object_lookup_exact [OF ok]
    by (cases "add_list (json_object_add 1) json_object_make [(''uid'', 10001), (''kmod'', 1 :: nat)]") (auto simp: NUL_def)
qed

end
