(* ===== verification/Parson_Value.thy ===== *)
theory Parson_Value
  imports Complex_Main Parson_Object
begin

text \<open>
  The values of the JSON library (kmod/parson.c) and the readers the control program calls on them.
  A value is the tagged union of the library; the pointers of C are options, and reading through
  a null pointer, a missing name or a value of another type gives the defaults the library
  documents: \<^verbatim>\<open>JSONError\<close>, 0, -1 or no pointer. A finite \<^verbatim>\<open>double\<close> is the rational number it
  denotes. The characters of a string are kept with their length, so a string may contain NUL.

  The program converts numbers to C integers. The conversion truncates toward zero; a value the
  type cannot hold is undefined in C, and is given here the result of the conversion instruction of
  the 64-bit ARM processors the program is built for, the nearest value of the type.
\<close>

datatype json_value =
    Null
  | String string
  | Number rat
  | Object "json_value json_object"
  | Array "json_value list"
  | Boolean bool

datatype JSON_Value_Type =
  JSONError | JSONNull | JSONString | JSONNumber | JSONObject | JSONArray | JSONBoolean

definition json_value_get_type :: "json_value option \<Rightarrow> JSON_Value_Type" where
  "json_value_get_type v = (case v of
     None \<Rightarrow> JSONError
   | Some Null \<Rightarrow> JSONNull
   | Some (String _) \<Rightarrow> JSONString
   | Some (Number _) \<Rightarrow> JSONNumber
   | Some (Object _) \<Rightarrow> JSONObject
   | Some (Array _) \<Rightarrow> JSONArray
   | Some (Boolean _) \<Rightarrow> JSONBoolean)"

definition json_value_get_object :: "json_value option \<Rightarrow> json_value json_object option" where
  "json_value_get_object v = (case v of Some (Object ob) \<Rightarrow> Some ob | _ \<Rightarrow> None)"

definition json_value_get_array :: "json_value option \<Rightarrow> json_value list option" where
  "json_value_get_array v = (case v of Some (Array vs) \<Rightarrow> Some vs | _ \<Rightarrow> None)"

definition json_value_get_string :: "json_value option \<Rightarrow> string option" where
  "json_value_get_string v = (case v of Some (String s) \<Rightarrow> Some s | _ \<Rightarrow> None)"

definition json_value_get_number :: "json_value option \<Rightarrow> rat" where
  "json_value_get_number v = (case v of Some (Number r) \<Rightarrow> r | _ \<Rightarrow> 0)"

definition json_value_get_boolean :: "json_value option \<Rightarrow> int" where
  "json_value_get_boolean v = (case v of Some (Boolean b) \<Rightarrow> if b then 1 else 0 | _ \<Rightarrow> -1)"

section \<open>Reading by name and by index\<close>

type_synonym json_ob = "json_value json_object"

definition get_member :: "json_ob option \<Rightarrow> string \<Rightarrow> json_value option" where
  "get_member ob name = (case ob of None \<Rightarrow> None | Some ob \<Rightarrow> json_object_get_value ob name)"

definition json_object_get_string :: "json_ob option \<Rightarrow> string \<Rightarrow> string option" where
  "json_object_get_string ob name = json_value_get_string (get_member ob name)"

definition json_object_get_number :: "json_ob option \<Rightarrow> string \<Rightarrow> rat" where
  "json_object_get_number ob name = json_value_get_number (get_member ob name)"

definition json_object_get_object :: "json_ob option \<Rightarrow> string \<Rightarrow> json_ob option" where
  "json_object_get_object ob name = json_value_get_object (get_member ob name)"

definition json_object_get_array :: "json_ob option \<Rightarrow> string \<Rightarrow> json_value list option" where
  "json_object_get_array ob name = json_value_get_array (get_member ob name)"

definition json_object_get_boolean :: "json_ob option \<Rightarrow> string \<Rightarrow> int" where
  "json_object_get_boolean ob name = json_value_get_boolean (get_member ob name)"

definition json_array_get_count :: "json_value list option \<Rightarrow> nat" where
  "json_array_get_count vs = (case vs of None \<Rightarrow> 0 | Some vs \<Rightarrow> length vs)"

definition json_array_get_value :: "json_value list option \<Rightarrow> nat \<Rightarrow> json_value option" where
  "json_array_get_value vs i = (case vs of None \<Rightarrow> None | Some vs \<Rightarrow> if length vs \<le> i then None else Some (vs ! i))"

definition json_array_get_string :: "json_value list option \<Rightarrow> nat \<Rightarrow> string option" where
  "json_array_get_string vs i = json_value_get_string (json_array_get_value vs i)"

definition json_array_get_object :: "json_value list option \<Rightarrow> nat \<Rightarrow> json_ob option" where
  "json_array_get_object vs i = json_value_get_object (json_array_get_value vs i)"

section \<open>Numbers as C integers\<close>

definition trunc_toward_zero :: "rat \<Rightarrow> int" where
  "trunc_toward_zero r = (if 0 \<le> r then \<lfloor>r\<rfloor> else \<lceil>r\<rceil>)"

definition clamp :: "int \<Rightarrow> int \<Rightarrow> int \<Rightarrow> int" where
  "clamp low high i = max low (min high i)"

definition as_uint :: "rat \<Rightarrow> u32" where
  "as_uint r = word_of_int (clamp 0 (2 ^ 32 - 1) (trunc_toward_zero r))"

definition as_int :: "rat \<Rightarrow> int" where
  "as_int r = clamp (- (2 ^ 31)) (2 ^ 31 - 1) (trunc_toward_zero r)"

definition as_long :: "rat \<Rightarrow> int" where
  "as_long r = clamp (- (2 ^ 63)) (2 ^ 63 - 1) (trunc_toward_zero r)"

lemma as_uint_of_nat: "n < 2 ^ 32 \<Longrightarrow> as_uint (of_nat n) = of_nat n"
  by (simp add: as_uint_def trunc_toward_zero_def clamp_def)

lemma as_long_in_range: "0 \<le> as_long r \<Longrightarrow> as_long r \<le> 65535 \<Longrightarrow> as_long r = trunc_toward_zero r"
  by (simp add: as_long_def clamp_def max_def min_def split: if_splits)

lemma array_objects:
  "map (\<lambda>i. json_array_get_object (Some vs) i) [0..<length vs] = map (\<lambda>v. json_value_get_object (Some v)) vs"
  by (rule nth_equalityI) (simp_all add: json_array_get_object_def json_array_get_value_def)

section \<open>Objects written down\<close>

text \<open>The object with the given members, for the sample documents.\<close>

definition object_of :: "(string \<times> json_value) list \<Rightarrow> json_ob" where
  "object_of kvs = the (add_list (json_object_add 1) json_object_make kvs)"

lemma object_of_get:
  assumes "list_all (\<lambda>k. NUL \<notin> set k) (map fst kvs)" "distinct (map fst kvs)" "NUL \<notin> set k"
  shows "json_object_get_value (object_of kvs) k = map_of kvs k"
proof -
  have ok: "\<forall>k \<in> fst ` set kvs. NUL \<notin> set k" using assms(1) by (simp add: list_all_iff)
  show ?thesis using json_ob.add_list_map [OF ok] assms(2,3)
    by (cases "add_list (json_object_add 1) json_object_make kvs") (auto simp: object_of_def)
qed

lemmas member_simps = get_member_def json_object_get_string_def json_object_get_number_def json_object_get_object_def
  json_object_get_array_def json_object_get_boolean_def json_object_has_value_def json_value_get_string_def
  json_value_get_number_def json_value_get_object_def json_value_get_array_def json_value_get_boolean_def

end
