(* ===== verification/Ctl_Policy.thy ===== *)
theory Ctl_Policy
  imports Parson_Value Policy_Types
begin

text \<open>
  The compiler of the declarative configuration (kmod/vpnhide_policy.c): it reads the UIDs and the
  port rules of every application out of the parsed JSON document and builds the lists the
  control program packs into a policy. The growable arrays keep their capacity, \<open>realloc\<close> says
  whether a request of so many bytes succeeds, and an error is its number with the message left in
  the error buffer.

  The lemmas show that a grown array has room for the next element, that the compiled UID lists are
  exactly the eligible UIDs the document switches on, each once, and that the rules compiled
  for an application mean what the document says. In allowlist mode the kernel, which can only
  block, gets the complement of the allowed ports.
\<close>

section \<open>Growable arrays\<close>

type_synonym ctl_error = "errno \<times> string"

definition SIZE_MAX :: nat where
  "SIZE_MAX = 2 ^ 64 - 1"

text \<open>
  The doubling loop. A capacity of at least one is above \<^verbatim>\<open>SIZE_MAX / 2\<close> after 63 doublings, so that
  65 rounds are enough.
\<close>

fun double_past :: "nat \<Rightarrow> nat \<Rightarrow> nat \<Rightarrow> nat option" where
  "double_past 0 new_capacity num = None"
| "double_past (Suc rounds) new_capacity num =
     (if new_capacity \<le> num then
        (if SIZE_MAX div 2 < new_capacity then None else double_past rounds (new_capacity * 2) num)
      else Some new_capacity)"

definition grow_array :: "(nat \<Rightarrow> bool) \<Rightarrow> nat \<Rightarrow> nat \<Rightarrow> nat \<Rightarrow> errno + nat" where
  "grow_array realloc capacity num element_size =
     (if num < capacity then Inr capacity
      else case double_past 65 (if capacity = 0 then 16 else capacity) num of
        None \<Rightarrow> Inl EOVERFLOW
      | Some new_capacity \<Rightarrow>
          if SIZE_MAX div element_size < new_capacity then Inl EOVERFLOW
          else if realloc (new_capacity * element_size) then Inr new_capacity
          else Inl ENOMEM)"

record uid_vector =
  uv_items :: "uid_t list"
  uv_capacity :: nat

definition empty_uids :: uid_vector where
  "empty_uids = \<lparr>uv_items = [], uv_capacity = 0\<rparr>"

definition add_uid_distinct :: "(nat \<Rightarrow> bool) \<Rightarrow> uid_vector \<Rightarrow> uid_t \<Rightarrow> errno + uid_vector" where
  "add_uid_distinct realloc vec uid =
     (if uid = 0 then Inr vec
      else if uid \<in> set (uv_items vec) then Inr vec
      else case grow_array realloc (uv_capacity vec) (length (uv_items vec)) 4 of
        Inl e \<Rightarrow> Inl e
      | Inr capacity \<Rightarrow> Inr \<lparr>uv_items = uv_items vec @ [uid], uv_capacity = capacity\<rparr>)"

text \<open>The loop over the objects of an array, which skips all other elements.\<close>

definition each_object :: "json_value list option \<Rightarrow> (json_ob \<Rightarrow> 's \<Rightarrow> 'e + 's) \<Rightarrow> 's \<Rightarrow> 'e + 's" where
  "each_object vs f s =
     each (\<lambda>i s. case json_array_get_object vs i of None \<Rightarrow> Inr s | Some ob \<Rightarrow> f ob s) [0..<json_array_get_count vs] s"

section \<open>Port rules of one application\<close>

record ctl_port_rule =
  cr_start :: u16
  cr_end :: u16
  cr_protocol :: u8

record ctl_port_target =
  ct_uid :: uid_t
  ct_mode :: u8
  ct_rules :: "ctl_port_rule list"
  ct_capacity :: nat

definition zero_target :: ctl_port_target where
  "zero_target = \<lparr>ct_uid = 0, ct_mode = 0, ct_rules = [], ct_capacity = 0\<rparr>"

definition full_range :: ctl_port_rule where
  "full_range = \<lparr>cr_start = 0, cr_end = 65535, cr_protocol = VH_PROTO_BOTH\<rparr>"

definition protocol_of :: "string option \<Rightarrow> u8 option" where
  "protocol_of protocol = (case protocol of
     None \<Rightarrow> Some VH_PROTO_BOTH
   | Some p \<Rightarrow>
       if strcmp_eq p ''TCP'' then Some VH_PROTO_TCP
       else if strcmp_eq p ''UDP'' then Some VH_PROTO_UDP
       else if \<not> strcmp_eq p ''BOTH'' then None
       else Some VH_PROTO_BOTH)"

definition push_rule :: "(nat \<Rightarrow> bool) \<Rightarrow> string \<Rightarrow> ctl_port_rule \<Rightarrow> ctl_port_target \<Rightarrow> ctl_error + ctl_port_target" where
  "push_rule realloc message rule target =
     (case grow_array realloc (ct_capacity target) (length (ct_rules target)) 6 of
        Inl e \<Rightarrow> Inl (e, message)
      | Inr capacity \<Rightarrow> Inr (target\<lparr>ct_rules := ct_rules target @ [rule], ct_capacity := capacity\<rparr>))"

definition add_port_rule :: "(nat \<Rightarrow> bool) \<Rightarrow> json_ob \<Rightarrow> ctl_port_target \<Rightarrow> ctl_error + ctl_port_target" where
  "add_port_rule realloc rule target =
     (let start = as_long (json_object_get_number (Some rule) ''startPort'');
          stop = as_long (json_object_get_number (Some rule) ''endPort'') in
      if json_object_get_boolean (Some rule) ''enabled'' = 0 then Inr target
      else if start < 0 \<or> stop < 0 \<or> 65535 < start \<or> 65535 < stop \<or> stop < start then Inl (EINVAL, ''invalid port range'')
      else case protocol_of (json_object_get_string (Some rule) ''protocol'') of
        None \<Rightarrow> Inl (EINVAL, ''invalid port protocol'')
      | Some proto \<Rightarrow>
          push_rule realloc ''out of memory while adding port rule''
            \<lparr>cr_start = word_of_int start, cr_end = word_of_int stop, cr_protocol = proto\<rparr> target)"

definition set_full_range_port_rules :: "(nat \<Rightarrow> bool) \<Rightarrow> ctl_port_target \<Rightarrow> ctl_error + ctl_port_target" where
  "set_full_range_port_rules realloc target =
     (case grow_array realloc (ct_capacity target) 0 6 of
        Inl e \<Rightarrow> Inl (e, '''')
      | Inr capacity \<Rightarrow>
          Inr (target\<lparr>ct_rules := [full_range], ct_capacity := capacity, ct_mode := VH_PORT_POLICY_DENY_ALL\<rparr>))"

definition rule_applies :: "string option \<Rightarrow> int \<Rightarrow> uid_t \<Rightarrow> json_ob \<Rightarrow> bool" where
  "rule_applies package_name user_id package_uid rule =
     (let name = json_object_get_string (Some rule) ''packageName'';
          user = as_int (json_object_get_number (Some rule) ''userId'');
          rule_uid = as_uint (json_object_get_number (Some rule) ''uid'');
          has_user = json_object_has_value rule ''userId'' in
      rule_uid \<noteq> 0 \<and> package_uid \<noteq> 0 \<and> rule_uid = package_uid \<or>
      (case (name, package_name) of
         (Some n, Some p) \<Rightarrow> strcmp_eq n p \<and> (\<not> has_user \<or> user = user_id)
       | _ \<Rightarrow> False))"

definition resolve_named_port_rules :: "(nat \<Rightarrow> bool) \<Rightarrow> json_value list option \<Rightarrow> json_value list option \<Rightarrow> string option \<Rightarrow>
    int \<Rightarrow> uid_t \<Rightarrow> bool \<Rightarrow> ctl_port_target \<Rightarrow> ctl_error + ctl_port_target" where
  "resolve_named_port_rules realloc app_rules mass_rules package_name user_id package_uid full_range_fallback target =
     (case each_object app_rules
             (\<lambda>rule target. if rule_applies package_name user_id package_uid rule then add_port_rule realloc rule target
                else Inr target) target of
        Inl e \<Rightarrow> Inl e
      | Inr target1 \<Rightarrow>
          (case each_object mass_rules (add_port_rule realloc) target1 of
             Inl e \<Rightarrow> Inl e
           | Inr target2 \<Rightarrow>
               if full_range_fallback \<and> ct_rules target2 = [] then set_full_range_port_rules realloc target2
               else Inr target2))"

section \<open>The complement of the allowed ports\<close>

definition port_rule_allows :: "ctl_port_rule list \<Rightarrow> int \<Rightarrow> u8 \<Rightarrow> bool" where
  "port_rule_allows rules port protocol =
     list_ex (\<lambda>rule. uint (cr_start rule) \<le> port \<and> port \<le> uint (cr_end rule) \<and>
       (cr_protocol rule = VH_PROTO_BOTH \<or> cr_protocol rule = protocol)) rules"

definition blocked_protocol :: "ctl_port_rule list \<Rightarrow> int \<Rightarrow> int" where
  "blocked_protocol allowed port =
     (if port < 65536 then
        let tcp_blocked = \<not> port_rule_allows allowed port VH_PROTO_TCP;
            udp_blocked = \<not> port_rule_allows allowed port VH_PROTO_UDP in
        if tcp_blocked \<and> udp_blocked then uint VH_PROTO_BOTH
        else if tcp_blocked then uint VH_PROTO_TCP
        else if udp_blocked then uint VH_PROTO_UDP
        else -1
      else -1)"

definition complement_step :: "(nat \<Rightarrow> bool) \<Rightarrow> ctl_port_rule list \<Rightarrow> int \<Rightarrow> ctl_port_target \<times> int \<times> int
    \<Rightarrow> ctl_error + ctl_port_target \<times> int \<times> int" where
  "complement_step realloc allowed port state = (case state of (target, range_start, range_protocol) \<Rightarrow>
     let protocol = blocked_protocol allowed port in
     if protocol = range_protocol then Inr state
     else if 0 \<le> range_protocol then
       (case push_rule realloc ''out of memory while complementing port rules''
               \<lparr>cr_start = word_of_int range_start, cr_end = word_of_int (port - 1),
                cr_protocol = word_of_int range_protocol\<rparr> target of
          Inl e \<Rightarrow> Inl e
        | Inr target' \<Rightarrow> Inr (target', port, protocol))
     else Inr (target, port, protocol))"

definition all_ports :: "int list" where
  "all_ports = [0..65536]"

definition resolve_allowlist_exception_rules :: "(nat \<Rightarrow> bool) \<Rightarrow> json_value list option \<Rightarrow> json_value list option \<Rightarrow>
    string option \<Rightarrow> int \<Rightarrow> uid_t \<Rightarrow> ctl_error + ctl_port_target" where
  "resolve_allowlist_exception_rules realloc app_rules mass_rules package_name user_id package_uid =
     (case resolve_named_port_rules realloc app_rules mass_rules package_name user_id package_uid False zero_target of
        Inl e \<Rightarrow> Inl e
      | Inr allowed \<Rightarrow>
          if ct_rules allowed = [] then Inr (zero_target\<lparr>ct_mode := VH_PORT_POLICY_UNRESTRICTED\<rparr>)
          else case each (complement_step realloc (ct_rules allowed)) all_ports
                      (zero_target\<lparr>ct_mode := VH_PORT_POLICY_RULES\<rparr>, -1, -1) of
            Inl e \<Rightarrow> Inl e
          | Inr (target, range_start, range_protocol) \<Rightarrow> Inr target)"

section \<open>The two passes over the applications\<close>

datatype vpnhide_list_mode = VPNHIDE_LIST_BLACKLIST | VPNHIDE_LIST_ALLOWLIST

definition vpnhide_list_mode_name :: "vpnhide_list_mode \<Rightarrow> string" where
  "vpnhide_list_mode_name mode = (if mode = VPNHIDE_LIST_ALLOWLIST then ''ALLOWLIST'' else ''BLACKLIST'')"

definition names_allowlist :: "string option \<Rightarrow> bool" where
  "names_allowlist mode = (case mode of None \<Rightarrow> False | Some m \<Rightarrow> strcmp_eq m ''ALLOWLIST'' \<or> strcmp_eq m ''allowlist'')"

definition read_mode :: "json_ob \<Rightarrow> vpnhide_list_mode" where
  "read_mode config = (case json_object_get_object (Some config) ''globalConfig'' of
     None \<Rightarrow> VPNHIDE_LIST_BLACKLIST
   | Some global \<Rightarrow>
       if names_allowlist (json_object_get_string (Some global) ''listMode'') then VPNHIDE_LIST_ALLOWLIST
       else VPNHIDE_LIST_BLACKLIST)"

record policy_summary =
  ps_mode :: vpnhide_list_mode
  ps_configured_entries :: nat
  ps_rejected_core_uids :: nat
  ps_kmod_targets :: nat
  ps_lsposed_entries :: nat
  ps_port_targets :: nat

definition app_uid :: "json_ob \<Rightarrow> uid_t" where
  "app_uid app = as_uint (json_object_get_number (Some app) ''uid'')"

definition core_uid :: "uid_t \<Rightarrow> bool" where
  "core_uid uid \<longleftrightarrow> uid = 0 \<or> uid mod 100000 < 10000"

definition switched :: "json_ob \<Rightarrow> string \<Rightarrow> bool" where
  "switched app name \<longleftrightarrow> json_object_get_boolean (Some app) name = 1"

definition add_switched :: "(nat \<Rightarrow> bool) \<Rightarrow> string \<Rightarrow> string \<Rightarrow> json_ob \<Rightarrow> uid_vector \<Rightarrow> ctl_error + uid_vector" where
  "add_switched realloc switch message app vec =
     (if switched app switch then
        (case add_uid_distinct realloc vec (app_uid app) of Inl e \<Rightarrow> Inl (ENOMEM, message) | Inr vec' \<Rightarrow> Inr vec')
      else Inr vec)"

definition target_app :: "(nat \<Rightarrow> bool) \<Rightarrow> json_ob \<Rightarrow> uid_vector \<times> uid_vector \<times> nat
    \<Rightarrow> ctl_error + uid_vector \<times> uid_vector \<times> nat" where
  "target_app realloc app state = (case state of (kmod, lsposed, rejected) \<Rightarrow>
     if core_uid (app_uid app) then Inr (kmod, lsposed, if app_uid app \<noteq> 0 then rejected + 1 else rejected)
     else case add_switched realloc ''kmod'' ''cannot grow configured kernel UID set'' app kmod of
       Inl e \<Rightarrow> Inl e
     | Inr kmod' \<Rightarrow>
         (case add_switched realloc ''lsposed'' ''cannot grow configured framework UID set'' app lsposed of
            Inl e \<Rightarrow> Inl e
          | Inr lsposed' \<Rightarrow> Inr (kmod', lsposed', rejected)))"

definition vpnhide_resolve_targets :: "(nat \<Rightarrow> bool) \<Rightarrow> json_ob \<Rightarrow> ctl_error + uid_vector \<times> uid_vector \<times> policy_summary" where
  "vpnhide_resolve_targets realloc config =
     (let apps = json_object_get_array (Some config) ''apps''; num = json_array_get_count apps in
      case each_object apps (target_app realloc) (empty_uids, empty_uids, 0) of
        Inl e \<Rightarrow> Inl e
      | Inr (kmod, lsposed, rejected) \<Rightarrow>
          Inr (kmod, lsposed, \<lparr>ps_mode = read_mode config, ps_configured_entries = num, ps_rejected_core_uids = rejected,
            ps_kmod_targets = length (uv_items kmod), ps_lsposed_entries = length (uv_items lsposed), ps_port_targets = 0\<rparr>))"

record port_policy =
  pp_targets :: "ctl_port_target list"
  pp_capacity :: nat

definition resolve_app_ports :: "(nat \<Rightarrow> bool) \<Rightarrow> vpnhide_list_mode \<Rightarrow> json_value list option \<Rightarrow> json_value list option \<Rightarrow>
    json_ob \<Rightarrow> ctl_error + ctl_port_target" where
  "resolve_app_ports realloc mode app_rules mass_rules app =
     (let name = json_object_get_string (Some app) ''packageName'';
          user = as_int (json_object_get_number (Some app) ''userId'') in
      case (if mode = VPNHIDE_LIST_ALLOWLIST then
              resolve_allowlist_exception_rules realloc app_rules mass_rules name user (app_uid app)
            else
              (case resolve_named_port_rules realloc app_rules mass_rules name user (app_uid app) True zero_target of
                 Inl e \<Rightarrow> Inl e
               | Inr target \<Rightarrow> Inr (target\<lparr>ct_mode := VH_PORT_POLICY_RULES\<rparr>))) of
        Inl e \<Rightarrow> Inl e
      | Inr target \<Rightarrow> Inr (target\<lparr>ct_uid := app_uid app\<rparr>))"

definition port_app :: "(nat \<Rightarrow> bool) \<Rightarrow> vpnhide_list_mode \<Rightarrow> json_value list option \<Rightarrow> json_value list option \<Rightarrow>
    json_ob \<Rightarrow> port_policy \<Rightarrow> ctl_error + port_policy" where
  "port_app realloc mode app_rules mass_rules app result =
     (if \<not> switched app ''portHiding'' then Inr result
      else if core_uid (app_uid app) then Inr result
      else if app_uid app \<in> ct_uid ` set (pp_targets result) then Inr result
      else case grow_array realloc (pp_capacity result) (length (pp_targets result)) 32 of
        Inl e \<Rightarrow> Inl (e, ''cannot grow configured port set'')
      | Inr capacity \<Rightarrow>
          (case resolve_app_ports realloc mode app_rules mass_rules app of
             Inl e \<Rightarrow> Inl e
           | Inr target \<Rightarrow> Inr \<lparr>pp_targets = pp_targets result @ [target], pp_capacity = capacity\<rparr>))"

definition vpnhide_resolve_port_rules :: "(nat \<Rightarrow> bool) \<Rightarrow> json_ob \<Rightarrow> policy_summary \<Rightarrow> ctl_error + port_policy \<times> policy_summary" where
  "vpnhide_resolve_port_rules realloc config summary =
     (let apps = json_object_get_array (Some config) ''apps'';
          app_rules = json_object_get_array (Some config) ''portRules'';
          mass_rules = json_object_get_array (Some config) ''massPortRules'' in
      case each_object apps (port_app realloc (ps_mode summary) app_rules mass_rules)
             \<lparr>pp_targets = [], pp_capacity = 0\<rparr> of
        Inl e \<Rightarrow> Inl e
      | Inr result \<Rightarrow> Inr (result, summary\<lparr>ps_port_targets := length (pp_targets result)\<rparr>))"

section \<open>Growing keeps room for the next element\<close>

lemma double_past_room: "double_past rounds c num = Some c' \<Longrightarrow> num < c'"
  by (induction rounds c num rule: double_past.induct) (auto split: if_splits)

lemma double_past_total:
  "num < c * 2 ^ rounds \<Longrightarrow> num < 2 ^ 63 \<Longrightarrow>
   \<exists>c'. double_past (Suc rounds) c num = Some c' \<and> c' \<le> max c (2 * num)"
proof (induction rounds arbitrary: c)
  case (Suc rounds)
  show ?case
  proof (cases "c \<le> num")
    case True
    have "c \<le> SIZE_MAX div 2" using True Suc.prems(2) by (simp add: SIZE_MAX_def)
    with Suc.IH [of "c * 2"] Suc.prems True show ?thesis by (auto simp: not_less ac_simps)
  qed simp
qed simp

text \<open>The capacity stays within twice the number of elements, or at its first value.\<close>

definition fits :: "nat \<Rightarrow> nat \<Rightarrow> bool" where
  "fits capacity num \<longleftrightarrow> capacity \<le> max 16 (2 * num)"

lemma grow_array_room: "grow_array realloc capacity num esize = Inr c \<Longrightarrow> num < c"
  by (auto simp: grow_array_def split: if_splits option.splits dest: double_past_room)

lemma grow_array_total:
  assumes "fits capacity num" "num < 2 ^ 57" "0 < esize" "esize \<le> 32"
  shows "\<exists>c. grow_array (\<lambda>_. True) capacity num esize = Inr c \<and> fits c (Suc num)"
proof (cases "num < capacity")
  case True
  then show ?thesis using assms(1) by (simp add: grow_array_def fits_def)
next
  case False
  let ?c = "if capacity = 0 then 16 else capacity"
  have "1 * 2 ^ 64 \<le> ?c * (2 :: nat) ^ 64" by (intro mult_right_mono) auto
  then have "num < ?c * 2 ^ 64" using assms(2) by simp
  from double_past_total [OF this] assms(2) obtain c' where
    c': "double_past (Suc 64) ?c num = Some c'" "c' \<le> max ?c (2 * num)" by auto
  have le: "c' \<le> max 16 (2 * num)" using c'(2) False assms(1) by (auto simp: fits_def split: if_splits)
  then have "c' \<le> 2 ^ 58" using assms(2) by auto
  also have "(2 :: nat) ^ 58 \<le> SIZE_MAX div 32" by (simp add: SIZE_MAX_def)
  also have "\<dots> \<le> SIZE_MAX div esize" using assms(3,4) by (intro div_le_mono2) auto
  finally have "\<not> SIZE_MAX div esize < c'" by simp
  moreover have "double_past 65 ?c num = Some c'" using c'(1) by (simp del: double_past.simps)
  moreover have "fits c' (Suc num)" using le by (simp add: fits_def)
  ultimately show ?thesis using False  by (simp add: grow_array_def del: double_past.simps)
qed

section \<open>The objects of an array\<close>

definition objects_of :: "json_value list option \<Rightarrow> json_ob list" where
  "objects_of vs = (case vs of None \<Rightarrow> [] | Some vs \<Rightarrow> List.map_filter (\<lambda>v. json_value_get_object (Some v)) vs)"

lemma map_filter_id: "List.map_filter f xs = List.map_filter id (map f xs)"
  by (induction xs) (auto split: option.split)

lemma each_objects: "each_object vs f s = each f (objects_of vs) s"
proof (cases vs)
  case None
  then show ?thesis by (simp add: each_object_def objects_of_def json_array_get_count_def)
next
  case (Some xs)
  have "List.map_filter (json_array_get_object vs) [0..<length xs] = objects_of vs"
    using array_objects [of xs]
    by (simp add: Some objects_of_def map_filter_id [of "json_array_get_object (Some xs)"]
        map_filter_id [of "\<lambda>v. json_value_get_object (Some v)"])
  then show ?thesis
    using each_skips [where h = "json_array_get_object vs" and f = f and xs = "[0..<json_array_get_count vs]" and s = s]
    by (simp add: each_object_def Some json_array_get_count_def)
qed

section \<open>The compiled UID lists\<close>

definition selected_uids :: "string \<Rightarrow> json_ob list \<Rightarrow> uid_t set" where
  "selected_uids switch apps = app_uid ` {app \<in> set apps. \<not> core_uid (app_uid app) \<and> switched app switch}"

lemma selected_uids_simps [simp]:
  "selected_uids switch [] = {}"
  "selected_uids switch (app # apps) =
     (if \<not> core_uid (app_uid app) \<and> switched app switch then {app_uid app} else {}) \<union> selected_uids switch apps"
  by (auto simp: selected_uids_def)

lemma add_switched_Inr:
  assumes "add_switched realloc switch message app vec = Inr vec'" "distinct (uv_items vec)" "\<not> core_uid (app_uid app)"
  shows "distinct (uv_items vec')" "set (uv_items vec') = set (uv_items vec) \<union> (if switched app switch then {app_uid app} else {})"
  using assms by (auto simp: add_switched_def add_uid_distinct_def core_uid_def split: if_splits sum.splits)

lemma target_app_Inr:
  assumes "target_app realloc app (kmod, lsposed, rejected) = Inr (kmod', lsposed', rejected')"
    and "distinct (uv_items kmod)" "distinct (uv_items lsposed)"
  shows "distinct (uv_items kmod')" "distinct (uv_items lsposed')"
    "set (uv_items kmod') = set (uv_items kmod) \<union> selected_uids ''kmod'' [app]"
    "set (uv_items lsposed') = set (uv_items lsposed) \<union> selected_uids ''lsposed'' [app]"
    "rejected' = rejected + (if core_uid (app_uid app) \<and> app_uid app \<noteq> 0 then 1 else 0)"
  using assms by (auto simp: target_app_def add_switched_Inr split: if_splits sum.splits)

lemma targets_loop:
  "each (target_app realloc) apps (kmod, lsposed, rejected) = Inr (kmod', lsposed', rejected') \<Longrightarrow>
   distinct (uv_items kmod) \<Longrightarrow> distinct (uv_items lsposed) \<Longrightarrow>
   distinct (uv_items kmod') \<and> distinct (uv_items lsposed') \<and>
   set (uv_items kmod') = set (uv_items kmod) \<union> selected_uids ''kmod'' apps \<and>
   set (uv_items lsposed') = set (uv_items lsposed) \<union> selected_uids ''lsposed'' apps \<and>
   rejected' = rejected + length (filter (\<lambda>app. core_uid (app_uid app) \<and> app_uid app \<noteq> 0) apps)"
proof (induction apps arbitrary: kmod lsposed rejected)
  case (Cons app apps)
  from Cons.prems(1) obtain k1 l1 r1 where one: "target_app realloc app (kmod, lsposed, rejected) = Inr (k1, l1, r1)"
    "each (target_app realloc) apps (k1, l1, r1) = Inr (kmod', lsposed', rejected')"
    by (auto split: sum.splits)
  note t = target_app_Inr [OF one(1) Cons.prems(2,3)]
  from Cons.IH [OF one(2) t(1,2)] t(3-5) show ?case by auto
qed simp

lemma distinct_u32_length: "distinct (xs :: u32 list) \<Longrightarrow> length xs < 2 ^ 57"
proof -
  assume "distinct xs"
  then have "length xs = card (set xs)" by (simp add: distinct_card)
  also have "\<dots> \<le> card (UNIV :: u32 set)" by (intro card_mono) auto
  finally show ?thesis by (simp add: card_word)
qed

lemma targets_total:
  shows "\<exists>s'. each (target_app (\<lambda>_. True)) apps (empty_uids, empty_uids, 0) = Inr s'"
proof -
  let ?ok = "\<lambda>vec :: uid_vector. distinct (uv_items vec) \<and> fits (uv_capacity vec) (length (uv_items vec))"
  have add: "\<exists>vec'. add_switched (\<lambda>_. True) switch message app vec = Inr vec' \<and> ?ok vec'" if "?ok vec" for vec switch message app
    using that grow_array_total [of "uv_capacity vec" "length (uv_items vec)" 4]
      distinct_u32_length [of "uv_items vec"]
    by (auto simp: add_switched_def add_uid_distinct_def)
  have "\<exists>s'. each (target_app (\<lambda>_. True)) apps (empty_uids, empty_uids, 0) = Inr s' \<and>
      (case s' of (kmod, lsposed, rejected) \<Rightarrow> ?ok kmod \<and> ?ok lsposed)"
  proof (rule each_total)
    fix app s assume "case s of (kmod, lsposed, rejected :: nat) \<Rightarrow> ?ok kmod \<and> ?ok lsposed"
    then obtain kmod lsposed rejected where s: "s = (kmod, lsposed, rejected)" "?ok kmod" "?ok lsposed" by (cases s) auto
    from add [OF s(2), of "''kmod''" "''cannot grow configured kernel UID set''" app]
      add [OF s(3), of "''lsposed''" "''cannot grow configured framework UID set''" app]
    show "\<exists>s'. target_app (\<lambda>_. True) app s = Inr s' \<and> (case s' of (kmod, lsposed, rejected) \<Rightarrow> ?ok kmod \<and> ?ok lsposed)"
      using s by (auto simp: target_app_def)
  qed (simp add: empty_uids_def fits_def)
  then show ?thesis by blast
qed

section \<open>The rules the document gives an application\<close>

definition rule_enabled :: "json_ob \<Rightarrow> bool" where
  "rule_enabled rule \<longleftrightarrow> json_object_get_boolean (Some rule) ''enabled'' \<noteq> 0"

definition rule_valid :: "json_ob \<Rightarrow> bool" where
  "rule_valid rule \<longleftrightarrow>
     (let start = as_long (json_object_get_number (Some rule) ''startPort'');
          stop = as_long (json_object_get_number (Some rule) ''endPort'') in
      0 \<le> start \<and> start \<le> stop \<and> stop \<le> 65535) \<and>
     protocol_of (json_object_get_string (Some rule) ''protocol'') \<noteq> None"

definition rule_of :: "json_ob \<Rightarrow> ctl_port_rule" where
  "rule_of rule =
     \<lparr>cr_start = word_of_int (as_long (json_object_get_number (Some rule) ''startPort'')),
      cr_end = word_of_int (as_long (json_object_get_number (Some rule) ''endPort'')),
      cr_protocol = the (protocol_of (json_object_get_string (Some rule) ''protocol''))\<rparr>"

definition rule_in_range :: "ctl_port_rule \<Rightarrow> bool" where
  "rule_in_range r \<longleftrightarrow> cr_start r \<le> cr_end r \<and> cr_protocol r \<le> VH_PROTO_BOTH"

lemma protocol_of_le: "protocol_of p = Some q \<Longrightarrow> q \<le> 2"
  by (auto simp: protocol_of_def split: option.splits if_splits)

lemma rule_of_in_range:
  assumes "rule_valid rule"
  shows "rule_in_range (rule_of rule)"
proof -
  let ?s = "as_long (json_object_get_number (Some rule) ''startPort'')"
  let ?e = "as_long (json_object_get_number (Some rule) ''endPort'')"
  have "0 \<le> ?s" "?s \<le> ?e" "?e \<le> 65535" using assms by (simp_all add: rule_valid_def Let_def)
  then have "(word_of_int ?s :: u16) \<le> word_of_int ?e"
    by (simp add: word_le_def uint_word_of_int_eq take_bit_int_eq_self)
  then show ?thesis using assms by (auto simp: rule_in_range_def rule_of_def rule_valid_def dest: protocol_of_le)
qed

lemma push_rule_Inr:
  "push_rule realloc message rule target = Inr target' \<Longrightarrow>
   ct_rules target' = ct_rules target @ [rule] \<and> ct_mode target' = ct_mode target \<and> ct_uid target' = ct_uid target"
  by (auto simp: push_rule_def split: sum.splits)

lemma push_rule_total:
  assumes "fits (ct_capacity target) (length (ct_rules target))" "length (ct_rules target) < 2 ^ 57"
  shows "\<exists>target'. push_rule (\<lambda>_. True) message rule target = Inr target' \<and>
    fits (ct_capacity target') (length (ct_rules target'))"
  using grow_array_total [OF assms, of 6] by (auto simp: push_rule_def)

lemma add_port_rule_Inr:
  assumes "add_port_rule realloc rule target = Inr target'"
  shows "rule_enabled rule \<longrightarrow> rule_valid rule"
    "ct_rules target' = ct_rules target @ (if rule_enabled rule then [rule_of rule] else [])"
    "ct_mode target' = ct_mode target" "ct_uid target' = ct_uid target"
  using assms
  by (auto simp: add_port_rule_def rule_enabled_def rule_valid_def rule_of_def Let_def
      split: if_splits option.splits dest!: push_rule_Inr)

lemma add_port_rule_total:
  assumes "fits (ct_capacity target) (length (ct_rules target))" "length (ct_rules target) < 2 ^ 57"
    and "rule_enabled rule \<Longrightarrow> rule_valid rule"
  shows "\<exists>target'. add_port_rule (\<lambda>_. True) rule target = Inr target' \<and>
    fits (ct_capacity target') (length (ct_rules target'))"
  using assms(1,3) push_rule_total [OF assms(1,2)]
  by (cases "rule_enabled rule") (auto simp: add_port_rule_def rule_enabled_def rule_valid_def Let_def)

definition compiled_rules :: "json_ob list \<Rightarrow> ctl_port_rule list" where
  "compiled_rules obs = map rule_of (filter rule_enabled obs)"

lemma rules_loop:
  "each (\<lambda>rule target. if applies rule then add_port_rule realloc rule target else Inr target) obs target = Inr target' \<Longrightarrow>
   ct_rules target' = ct_rules target @ compiled_rules (filter applies obs) \<and> ct_mode target' = ct_mode target \<and>
   ct_uid target' = ct_uid target \<and> (\<forall>rule \<in> set obs. applies rule \<and> rule_enabled rule \<longrightarrow> rule_valid rule)"
proof (induction obs arbitrary: target)
  case (Cons rule obs)
  show ?case
  proof (cases "applies rule")
    case True
    then obtain t1 where t1: "add_port_rule realloc rule target = Inr t1"
      "each (\<lambda>rule target. if applies rule then add_port_rule realloc rule target else Inr target) obs t1 = Inr target'"
      using Cons.prems by (auto split: sum.splits)
    from Cons.IH [OF t1(2)] add_port_rule_Inr [OF t1(1)] True show ?thesis by (auto simp: compiled_rules_def)
  next
    case False
    then show ?thesis using Cons.prems Cons.IH [of target] by simp
  qed
qed (simp add: compiled_rules_def)

lemma rules_loop_total:
  assumes "\<forall>rule \<in> set obs. applies rule \<and> rule_enabled rule \<longrightarrow> rule_valid rule"
  shows "fits (ct_capacity target) (length (ct_rules target)) \<Longrightarrow> length (ct_rules target) + length obs < 2 ^ 57 \<Longrightarrow>
   \<exists>target'. each (\<lambda>rule target. if applies rule then add_port_rule (\<lambda>_. True) rule target else Inr target) obs target = Inr target' \<and>
     fits (ct_capacity target') (length (ct_rules target'))"
  using assms(1)
proof (induction obs arbitrary: target)
  case (Cons rule obs)
  show ?case
  proof (cases "applies rule")
    case True
    from add_port_rule_total [of target rule] Cons.prems True obtain t1 where
      t1: "add_port_rule (\<lambda>_. True) rule target = Inr t1" "fits (ct_capacity t1) (length (ct_rules t1))" by auto
    from add_port_rule_Inr(2) [OF t1(1)] have "length (ct_rules t1) \<le> Suc (length (ct_rules target))" by simp
    with Cons.IH [OF t1(2)] Cons.prems(2,3) t1(1) True show ?thesis by auto
  next
    case False
    then show ?thesis using Cons.prems Cons.IH [of target] by simp
  qed
qed simp

text \<open>The rules that apply to an application: those that name it, then the ones for everybody.\<close>

definition rules_for :: "json_value list option \<Rightarrow> json_value list option \<Rightarrow> string option \<Rightarrow> int \<Rightarrow> uid_t \<Rightarrow> json_ob list" where
  "rules_for app_rules mass_rules name user uid =
     filter (rule_applies name user uid) (objects_of app_rules) @ objects_of mass_rules"

lemma add_port_rule_if: "add_port_rule realloc = (\<lambda>rule target. if True then add_port_rule realloc rule target else Inr target)"
  by simp

lemma named_rules_Inr:
  assumes "resolve_named_port_rules realloc app_rules mass_rules name user uid fallback target = Inr target'"
    and "ct_rules target = []"
  defines "rules \<equiv> rules_for app_rules mass_rules name user uid"
  shows "\<forall>rule \<in> set rules. rule_enabled rule \<longrightarrow> rule_valid rule"
    "ct_rules target' = (if fallback \<and> compiled_rules rules = [] then [full_range] else compiled_rules rules)"
proof -
  from assms(1) obtain t1 t2 where
    t1: "each (\<lambda>rule target. if rule_applies name user uid rule then add_port_rule realloc rule target else Inr target)
      (objects_of app_rules) target = Inr t1"
    and t2: "each (\<lambda>rule target. if True then add_port_rule realloc rule target else Inr target) (objects_of mass_rules) t1 = Inr t2"
    and t': "(if fallback \<and> ct_rules t2 = [] then set_full_range_port_rules realloc t2 else Inr t2) = Inr target'"
    by (auto simp: resolve_named_port_rules_def each_objects split: sum.splits)
  from rules_loop [OF t1] rules_loop [OF t2] assms(2)
  have r: "ct_rules t2 = compiled_rules rules" and v: "\<forall>rule \<in> set rules. rule_enabled rule \<longrightarrow> rule_valid rule"
    by (auto simp: rules_def rules_for_def compiled_rules_def)
  show "\<forall>rule \<in> set rules. rule_enabled rule \<longrightarrow> rule_valid rule" by (rule v)
  show "ct_rules target' = (if fallback \<and> compiled_rules rules = [] then [full_range] else compiled_rules rules)"
    using t' r by (auto simp: set_full_range_port_rules_def split: if_splits sum.splits)
qed

lemma named_rules_total:
  assumes "\<forall>rule \<in> set (rules_for app_rules mass_rules name user uid). rule_enabled rule \<longrightarrow> rule_valid rule"
    and "length (objects_of app_rules) + length (objects_of mass_rules) < 2 ^ 57"
  shows "\<exists>target'. resolve_named_port_rules (\<lambda>_. True) app_rules mass_rules name user uid fallback zero_target = Inr target'"
proof -
  let ?f = "\<lambda>applies rule target. if applies rule then add_port_rule (\<lambda>_. True) rule target else Inr target"
  have "\<exists>t1. each (?f (rule_applies name user uid)) (objects_of app_rules) zero_target = Inr t1 \<and>
      fits (ct_capacity t1) (length (ct_rules t1))"
    using assms(1,2) by (intro rules_loop_total) (auto simp: rules_for_def zero_target_def fits_def)
  then obtain t1 where t1: "each (?f (rule_applies name user uid)) (objects_of app_rules) zero_target = Inr t1"
    "fits (ct_capacity t1) (length (ct_rules t1))" by blast
  have "length (ct_rules t1) \<le> length (objects_of app_rules)"
    using rules_loop [OF t1(1)]
    by (simp add: zero_target_def compiled_rules_def)
  then have "\<exists>t2. each (?f (\<lambda>_. True)) (objects_of mass_rules) t1 = Inr t2 \<and> fits (ct_capacity t2) (length (ct_rules t2))"
    using assms(1,2) t1(2) by (intro rules_loop_total) (auto simp: rules_for_def)
  then obtain t2 where t2: "each (?f (\<lambda>_. True)) (objects_of mass_rules) t1 = Inr t2"
    "fits (ct_capacity t2) (length (ct_rules t2))" by blast
  have "\<exists>target'. set_full_range_port_rules (\<lambda>_. True) t2 = Inr target'" if "ct_rules t2 = []"
    using grow_array_total [of "ct_capacity t2" 0 6] t2(2) that by (auto simp: set_full_range_port_rules_def)
  then show ?thesis using t1(1) t2(1) by (auto simp: resolve_named_port_rules_def each_objects)
qed

section \<open>The complement blocks exactly what is not allowed\<close>

definition exact_up_to :: "ctl_port_rule list \<Rightarrow> ctl_port_rule list \<Rightarrow> int \<Rightarrow> bool" where
  "exact_up_to allowed rules m \<longleftrightarrow>
     (\<forall>r \<in> set rules. rule_in_range r \<and> uint (cr_end r) < m) \<and>
     (\<forall>p proto. 0 \<le> p \<and> p < m \<and> p < 65536 \<and> (proto = VH_PROTO_TCP \<or> proto = VH_PROTO_UDP) \<longrightarrow>
        port_rule_allows rules p proto = (\<not> port_rule_allows allowed p proto))"

definition complement_inv :: "ctl_port_rule list \<Rightarrow> int \<Rightarrow> ctl_port_target \<times> int \<times> int \<Rightarrow> bool" where
  "complement_inv allowed n state \<longleftrightarrow> (case state of (target, range_start, range_protocol) \<Rightarrow>
     range_protocol = (if n = 0 then -1 else blocked_protocol allowed (n - 1)) \<and>
     (0 \<le> range_protocol \<longrightarrow> 0 \<le> range_start \<and> range_start < n \<and>
        (\<forall>p. range_start \<le> p \<and> p < n \<longrightarrow> blocked_protocol allowed p = range_protocol)) \<and>
     exact_up_to allowed (ct_rules target) (if range_protocol < 0 then n else range_start) \<and>
     int (length (ct_rules target)) \<le> n)"

lemma blocked_protocol_range: "blocked_protocol allowed p \<in> {-1, 0, 1, 2}"
  by (simp add: blocked_protocol_def Let_def)

lemma blocked_protocol_iff:
  assumes "p < 65536" "proto = VH_PROTO_TCP \<or> proto = VH_PROTO_UDP"
  shows "(blocked_protocol allowed p = 2 \<or> blocked_protocol allowed p = uint proto) = (\<not> port_rule_allows allowed p proto)"
  using assms by (auto simp: blocked_protocol_def Let_def)

lemma allows_beyond:
  "\<forall>r \<in> set rules. uint (cr_end r) < m \<Longrightarrow> m \<le> p \<Longrightarrow> \<not> port_rule_allows rules p proto"
  by (force simp: port_rule_allows_def list_ex_iff)

lemma allows_append:
  "port_rule_allows (rules @ [r]) p proto =
     (port_rule_allows rules p proto \<or> uint (cr_start r) \<le> p \<and> p \<le> uint (cr_end r) \<and> (cr_protocol r = 2 \<or> cr_protocol r = proto))"
  by (auto simp: port_rule_allows_def)

lemma exact_extend_open:
  assumes "exact_up_to allowed rules m" "blocked_protocol allowed m = -1"
  shows "exact_up_to allowed rules (m + 1)"
proof -
  have "port_rule_allows rules p proto = (\<not> port_rule_allows allowed p proto)"
    if "0 \<le> p" "p < m + 1" "p < 65536" "proto = 0 \<or> proto = 1" for p proto
  proof (cases "p = m")
    case True
    then have "port_rule_allows allowed p proto" using blocked_protocol_iff [of p proto allowed] that assms(2) by auto
    moreover have "\<not> port_rule_allows rules p proto"
      using assms(1) True by (intro allows_beyond [of _ m]) (auto simp: exact_up_to_def)
    ultimately show ?thesis by simp
  qed (use assms(1) that in \<open>simp add: exact_up_to_def\<close>)
  moreover have "uint (cr_end r) < m + 1" if "r \<in> set rules" for r
    using assms(1) that by (force simp: exact_up_to_def)
  ultimately show ?thesis using assms(1) by (simp add: exact_up_to_def)
qed

lemma exact_close_range:
  assumes ex: "exact_up_to allowed rules range_start" and rs: "0 \<le> range_start" "range_start < n" and n: "n \<le> 65536"
    and same: "\<forall>p. range_start \<le> p \<and> p < n \<longrightarrow> blocked_protocol allowed p = pr" and pr: "pr \<in> {0, 1, 2}"
  shows "exact_up_to allowed (rules @ [\<lparr>cr_start = word_of_int range_start, cr_end = word_of_int (n - 1),
    cr_protocol = word_of_int pr\<rparr>]) n"
proof -
  let ?r = "\<lparr>cr_start = word_of_int range_start, cr_end = word_of_int (n - 1), cr_protocol = word_of_int pr\<rparr> :: ctl_port_rule"
  have u: "uint (cr_start ?r) = range_start" "uint (cr_end ?r) = n - 1"
    using rs n by (simp_all add: uint_word_of_int_eq take_bit_int_eq_self del: of_int_diff)
  have "rule_in_range ?r" using u rs pr by (auto simp: rule_in_range_def word_le_def)
  moreover have "port_rule_allows (rules @ [?r]) p proto = (\<not> port_rule_allows allowed p proto)"
    if p: "0 \<le> p" "p < n" "p < 65536" and proto: "proto = 0 \<or> proto = 1" for p proto
  proof (cases "p < range_start")
    case True
    then show ?thesis using ex p proto u by (simp add: allows_append exact_up_to_def)
  next
    case False
    then have "\<not> port_rule_allows rules p proto"
      using ex by (intro allows_beyond [of _ range_start]) (auto simp: exact_up_to_def)
    moreover have "(cr_protocol ?r = 2 \<or> cr_protocol ?r = proto) = (pr = 2 \<or> pr = uint proto)" using pr proto by auto
    moreover have "blocked_protocol allowed p = pr" using same False p by simp
    ultimately show ?thesis using blocked_protocol_iff [OF p(3) proto, of allowed] False p u by (simp add: allows_append)
  qed
  moreover have "uint (cr_end r) < n" if "r \<in> set rules" for r
    using ex that rs by (force simp: exact_up_to_def)
  ultimately show ?thesis using ex u by (simp add: exact_up_to_def)
qed

lemma one_point: "n \<le> p \<and> p \<le> n \<longleftrightarrow> p = (n :: int)"
  by auto

lemma complement_step_inv:
  assumes inv: "complement_inv allowed n state" and n: "0 \<le> n" "n \<le> 65536"
    and step: "complement_step realloc allowed n state = Inr state'"
  shows "complement_inv allowed (n + 1) state'"
proof -
  obtain target rs rp where s: "state = (target, rs, rp)" by (cases state)
  let ?pr = "blocked_protocol allowed n"
  have I: "rp = (if n = 0 then -1 else blocked_protocol allowed (n - 1))"
    "0 \<le> rp \<Longrightarrow> 0 \<le> rs \<and> rs < n \<and> (\<forall>p. rs \<le> p \<and> p < n \<longrightarrow> blocked_protocol allowed p = rp)"
    "exact_up_to allowed (ct_rules target) (if rp < 0 then n else rs)" "int (length (ct_rules target)) \<le> n"
    using inv unfolding complement_inv_def s prod.case by blast+
  have rp: "rp \<in> {-1, 0, 1, 2}" using I(1) blocked_protocol_range [of allowed "n - 1"] by auto
  consider (same) "?pr = rp" | (close) "?pr \<noteq> rp" "0 \<le> rp" | (start) "?pr \<noteq> rp" "rp < 0" by linarith
  then show ?thesis
  proof cases
    case same
    then have s': "state' = (target, rs, rp)" using step by (simp add: complement_step_def s)
    show ?thesis
    proof (cases "rp < 0")
      case True
      then have "exact_up_to allowed (ct_rules target) (n + 1)" using I(3) same rp by (intro exact_extend_open) auto
      then show ?thesis using True same I(4) n by (simp add: complement_inv_def s')
    next
      case False
      then have rs: "0 \<le> rs" "rs < n" "\<And>p. rs \<le> p \<Longrightarrow> p < n \<Longrightarrow> blocked_protocol allowed p = rp" using I(2) by simp_all
      have "blocked_protocol allowed p = rp" if "rs \<le> p" "p < n + 1" for p
      proof (cases "p = n")
        case True
        with same show ?thesis by simp
      next
        case False
        with that rs(3) show ?thesis by simp
      qed
      then show ?thesis using False same rs(1,2) I(3,4) n by (simp add: complement_inv_def s')
    qed
  next
    case close
    then obtain t' where t': "push_rule realloc ''out of memory while complementing port rules''
        \<lparr>cr_start = word_of_int rs, cr_end = word_of_int (n - 1), cr_protocol = word_of_int rp\<rparr> target = Inr t'"
      "state' = (t', n, ?pr)"
      using step by (auto simp: complement_step_def s Let_def split: sum.splits)
    have "rp \<in> {0, 1, 2}" using rp close(2) by simp
    moreover have "0 \<le> rs" "rs < n" "\<forall>p. rs \<le> p \<and> p < n \<longrightarrow> blocked_protocol allowed p = rp" using I(2) [OF close(2)] by blast+
    moreover have "exact_up_to allowed (ct_rules target) rs" using I(3) close(2) by simp
    ultimately have "exact_up_to allowed (ct_rules t') n"
      using push_rule_Inr [OF t'(1)] exact_close_range [of allowed "ct_rules target" rs n rp] n(2) by (simp del: of_int_diff)
    moreover from this have "exact_up_to allowed (ct_rules t') (n + 1)" if "?pr < 0"
      using that blocked_protocol_range [of allowed n] by (intro exact_extend_open) auto
    ultimately show ?thesis using I(4) n push_rule_Inr [OF t'(1)] by (simp add: complement_inv_def t'(2) one_point)
  next
    case start
    then have s': "state' = (target, n, ?pr)" using step by (simp add: complement_step_def s Let_def)
    have "0 \<le> ?pr" using start rp blocked_protocol_range [of allowed n] by auto
    then show ?thesis using I(3,4) start n by (simp add: complement_inv_def s' one_point)
  qed
qed

lemma complement_loop:
  "m \<le> 65537 \<Longrightarrow> each (complement_step realloc allowed) [0..int m - 1] (target, -1, -1) = Inr state \<Longrightarrow>
   ct_rules target = [] \<Longrightarrow> complement_inv allowed (int m) state"
proof (induction m arbitrary: state)
  case 0
  then show ?case by (auto simp: complement_inv_def exact_up_to_def)
next
  case (Suc m)
  have "[0..int (Suc m) - 1] = [0..int m - 1] @ [int m]" using upto_rec2 [of 0 "int m"] by simp
  with Suc.prems(2) obtain s1 where
    "each (complement_step realloc allowed) [0..int m - 1] (target, -1, -1) = Inr s1"
    "complement_step realloc allowed (int m) s1 = Inr state"
    by (auto simp: each_append split: sum.splits)
  with Suc.IH [of s1] Suc.prems(1,3) complement_step_inv [of allowed "int m" s1 realloc state] show ?case by (simp add: add.commute)
qed

lemma complement_loop_total:
  "m \<le> 65537 \<Longrightarrow> ct_rules target = [] \<Longrightarrow> ct_capacity target = 0 \<Longrightarrow>
   \<exists>t rs rp. each (complement_step (\<lambda>_. True) allowed) [0..int m - 1] (target, -1, -1) = Inr (t, rs, rp) \<and>
     fits (ct_capacity t) (length (ct_rules t))"
proof (induction m)
  case (Suc m)
  have up: "[0..int (Suc m) - 1] = [0..int m - 1] @ [int m]" using upto_rec2 [of 0 "int m"] by simp
  from Suc obtain t rs rp where
    s: "each (complement_step (\<lambda>_. True) allowed) [0..int m - 1] (target, -1, -1) = Inr (t, rs, rp)"
    "fits (ct_capacity t) (length (ct_rules t))" by auto
  have "int (length (ct_rules t)) \<le> int m"
    using complement_loop [OF _ s(1)] Suc.prems by (simp add: complement_inv_def)
  then have "length (ct_rules t) < 2 ^ 57" using Suc.prems(1) by simp
  from push_rule_total [OF s(2) this, of "''out of memory while complementing port rules''"
      "\<lparr>cr_start = word_of_int rs, cr_end = word_of_int (int m - 1), cr_protocol = word_of_int rp\<rparr>"] s(2)
  have "\<exists>t' rs' rp'. complement_step (\<lambda>_. True) allowed (int m) (t, rs, rp) = Inr (t', rs', rp') \<and>
      fits (ct_capacity t') (length (ct_rules t'))"
    by (auto simp: complement_step_def Let_def simp del: of_int_diff)
  then show ?case using s(1) by (auto simp: up each_append simp del: of_nat_Suc)
qed (simp add: fits_def)

lemma all_ports_upto: "all_ports = [0..int 65537 - 1]"
  by (simp add: all_ports_def del: upto_rec_numeral)

text \<open>
  The complement as a whole: the result blocks a port for a protocol exactly when no rule allows it.
\<close>

lemma complement_exact:
  assumes "each (complement_step realloc allowed) all_ports (target, -1, -1) = Inr (target', rs, rp)" "ct_rules target = []"
    and "0 \<le> p" "p < 65536" "proto = VH_PROTO_TCP \<or> proto = VH_PROTO_UDP"
  shows "port_rule_allows (ct_rules target') p proto = (\<not> port_rule_allows allowed p proto)"
    and "list_all rule_in_range (ct_rules target')" and "length (ct_rules target') \<le> 65537"
proof -
  have "complement_inv allowed 65537 (target', rs, rp)"
    using complement_loop [of 65537 realloc allowed target "(target', rs, rp)"] assms(1,2)
    by (simp add: all_ports_upto del: upto_rec_numeral)
  then have "exact_up_to allowed (ct_rules target') 65537" "int (length (ct_rules target')) \<le> 65537"
    by (auto simp: complement_inv_def blocked_protocol_def)
  then show "port_rule_allows (ct_rules target') p proto = (\<not> port_rule_allows allowed p proto)"
    and "list_all rule_in_range (ct_rules target')" and "length (ct_rules target') \<le> 65537"
    using assms(3-5) by (auto simp: exact_up_to_def list_all_iff)
qed

section \<open>The compiled port policy\<close>

text \<open>
  What the document says of an application with the given rules, and what a compiled target blocks.
\<close>

definition app_blocks :: "vpnhide_list_mode \<Rightarrow> ctl_port_rule list \<Rightarrow> int \<Rightarrow> u8 \<Rightarrow> bool" where
  "app_blocks mode rules port proto =
     (if mode = VPNHIDE_LIST_ALLOWLIST then rules \<noteq> [] \<and> \<not> port_rule_allows rules port proto
      else rules = [] \<or> port_rule_allows rules port proto)"

definition target_blocks :: "ctl_port_target \<Rightarrow> int \<Rightarrow> u8 \<Rightarrow> bool" where
  "target_blocks t port proto \<longleftrightarrow>
     ct_mode t = VH_PORT_POLICY_DENY_ALL \<or> ct_mode t = VH_PORT_POLICY_RULES \<and> port_rule_allows (ct_rules t) port proto"

definition rules_of_app :: "json_value list option \<Rightarrow> json_value list option \<Rightarrow> json_ob \<Rightarrow> json_ob list" where
  "rules_of_app app_rules mass_rules app =
     rules_for app_rules mass_rules (json_object_get_string (Some app) ''packageName'')
       (as_int (json_object_get_number (Some app) ''userId'')) (app_uid app)"

lemma compiled_in_range:
  "\<forall>rule \<in> set rules. rule_enabled rule \<longrightarrow> rule_valid rule \<Longrightarrow> list_all rule_in_range (compiled_rules rules)"
  by (auto simp: compiled_rules_def list_all_iff intro: rule_of_in_range)

lemma full_range_allows: "0 \<le> p \<Longrightarrow> p < 65536 \<Longrightarrow> port_rule_allows [full_range] p proto"
  by (simp add: port_rule_allows_def full_range_def)

lemma allowlist_rules_Inr:
  assumes "resolve_allowlist_exception_rules realloc app_rules mass_rules name user uid = Inr t"
  defines "rules \<equiv> rules_for app_rules mass_rules name user uid"
  shows "\<forall>rule \<in> set rules. rule_enabled rule \<longrightarrow> rule_valid rule" and "ct_mode t \<le> 1"
    and "list_all rule_in_range (ct_rules t)"
    and "0 \<le> p \<Longrightarrow> p < 65536 \<Longrightarrow> proto = VH_PROTO_TCP \<or> proto = VH_PROTO_UDP \<Longrightarrow>
      target_blocks t p proto = app_blocks VPNHIDE_LIST_ALLOWLIST (compiled_rules rules) p proto"
proof -
  from assms(1) obtain allowed where
    named: "resolve_named_port_rules realloc app_rules mass_rules name user uid False zero_target = Inr allowed"
    by (auto simp: resolve_allowlist_exception_rules_def split: sum.splits)
  note N = named_rules_Inr [OF named, folded rules_def]
  have r: "ct_rules allowed = compiled_rules rules" using N(2) by (simp add: zero_target_def)
  show "\<forall>rule \<in> set rules. rule_enabled rule \<longrightarrow> rule_valid rule" using N(1) by (simp add: zero_target_def)
  show "ct_mode t \<le> 1" and "list_all rule_in_range (ct_rules t)"
    and "0 \<le> p \<Longrightarrow> p < 65536 \<Longrightarrow> proto = 0 \<or> proto = 1 \<Longrightarrow>
      target_blocks t p proto = app_blocks VPNHIDE_LIST_ALLOWLIST (compiled_rules rules) p proto"
  proof (atomize (full), cases "compiled_rules rules = []")
    case True
    then have "t = zero_target\<lparr>ct_mode := 1\<rparr>" using assms(1) named r by (simp add: resolve_allowlist_exception_rules_def)
    then show "ct_mode t \<le> 1 \<and> list_all rule_in_range (ct_rules t) \<and> (0 \<le> p \<longrightarrow> p < 65536 \<longrightarrow> proto = 0 \<or> proto = 1 \<longrightarrow>
        target_blocks t p proto = app_blocks VPNHIDE_LIST_ALLOWLIST (compiled_rules rules) p proto)"
      using True by (simp add: zero_target_def target_blocks_def app_blocks_def)
  next
    case False
    let ?t0 = "zero_target\<lparr>ct_mode := 0\<rparr>"
    from assms(1) named r False obtain rs rp where
      e: "each (complement_step realloc (compiled_rules rules)) all_ports (?t0, -1, -1) = Inr (t, rs, rp)"
      by (auto simp: resolve_allowlist_exception_rules_def split: sum.splits)
    have t0: "ct_rules ?t0 = []" by (simp add: zero_target_def)
    have "ct_mode (fst (t, rs, rp)) = ct_mode ?t0"
    proof (rule each_invariant [where I = "\<lambda>s. ct_mode (fst s) = ct_mode ?t0", OF _ _ e])
      fix port s s' assume "ct_mode (fst s) = ct_mode ?t0" "complement_step realloc (compiled_rules rules) port s = Inr s'"
      then show "ct_mode (fst s') = ct_mode ?t0"
        by (auto simp: complement_step_def Let_def split: prod.splits if_splits sum.splits dest!: push_rule_Inr)
    qed simp
    then have "ct_mode t = 0" by simp
    then show "ct_mode t \<le> 1 \<and> list_all rule_in_range (ct_rules t) \<and> (0 \<le> p \<longrightarrow> p < 65536 \<longrightarrow> proto = 0 \<or> proto = 1 \<longrightarrow>
        target_blocks t p proto = app_blocks VPNHIDE_LIST_ALLOWLIST (compiled_rules rules) p proto)"
      using complement_exact(1) [OF e t0, of p proto] complement_exact(2) [OF e t0, of 0 0] False
      by (simp add: target_blocks_def app_blocks_def)
  qed
qed

lemma allowlist_rules_total:
  assumes "\<forall>rule \<in> set (rules_for app_rules mass_rules name user uid). rule_enabled rule \<longrightarrow> rule_valid rule"
    and "length (objects_of app_rules) + length (objects_of mass_rules) < 2 ^ 57"
  shows "\<exists>t. resolve_allowlist_exception_rules (\<lambda>_. True) app_rules mass_rules name user uid = Inr t"
proof -
  from named_rules_total [OF assms, of False] obtain allowed where
    a: "resolve_named_port_rules (\<lambda>_. True) app_rules mass_rules name user uid False zero_target = Inr allowed" ..
  have "ct_rules (zero_target\<lparr>ct_mode := 0\<rparr>) = []" "ct_capacity (zero_target\<lparr>ct_mode := 0\<rparr>) = 0"
    by (simp_all add: zero_target_def)
  from complement_loop_total [OF _ this, of 65537 "ct_rules allowed", folded all_ports_upto]
  show ?thesis by (auto simp: resolve_allowlist_exception_rules_def a)
qed

lemma resolve_app_ports_Inr:
  assumes "resolve_app_ports realloc mode app_rules mass_rules app = Inr t"
  defines "rules \<equiv> rules_of_app app_rules mass_rules app"
  shows "ct_uid t = app_uid app" "ct_mode t \<le> 1" "list_all rule_in_range (ct_rules t)"
    "\<forall>rule \<in> set rules. rule_enabled rule \<longrightarrow> rule_valid rule"
    "0 \<le> p \<Longrightarrow> p < 65536 \<Longrightarrow> proto = VH_PROTO_TCP \<or> proto = VH_PROTO_UDP \<Longrightarrow>
      target_blocks t p proto = app_blocks mode (compiled_rules rules) p proto"
proof -
  let ?name = "json_object_get_string (Some app) ''packageName''"
  let ?user = "as_int (json_object_get_number (Some app) ''userId'')"
  have "ct_uid t = app_uid app \<and> ct_mode t \<le> 1 \<and> list_all rule_in_range (ct_rules t) \<and>
    (\<forall>rule \<in> set rules. rule_enabled rule \<longrightarrow> rule_valid rule) \<and>
    (0 \<le> p \<longrightarrow> p < 65536 \<longrightarrow> proto = 0 \<or> proto = 1 \<longrightarrow> target_blocks t p proto = app_blocks mode (compiled_rules rules) p proto)"
  proof (cases "mode = VPNHIDE_LIST_ALLOWLIST")
    case True
    with assms(1) obtain t1 where
      t1: "resolve_allowlist_exception_rules realloc app_rules mass_rules ?name ?user (app_uid app) = Inr t1"
      "t = t1\<lparr>ct_uid := app_uid app\<rparr>" by (auto simp: resolve_app_ports_def Let_def split: sum.splits)
    note A = allowlist_rules_Inr [OF t1(1), folded rules_of_app_def, folded rules_def]
    show ?thesis using A(1,2,3) A(4) [of p proto] True by (simp add: t1(2) target_blocks_def)
  next
    case False
    with assms(1) obtain t1 where
      t1: "resolve_named_port_rules realloc app_rules mass_rules ?name ?user (app_uid app) True zero_target = Inr t1"
      "t = t1\<lparr>ct_mode := 0, ct_uid := app_uid app\<rparr>" by (auto simp: resolve_app_ports_def Let_def split: sum.splits)
    note N = named_rules_Inr [OF t1(1), folded rules_of_app_def, folded rules_def]
    have z: "ct_rules zero_target = []" by (simp add: zero_target_def)
    have "list_all rule_in_range [full_range]" by (simp add: rule_in_range_def full_range_def)
    then show ?thesis using N(1,2) [OF z] compiled_in_range [OF N(1) [OF z]] False full_range_allows [of p proto]
      by (auto simp: t1(2) target_blocks_def app_blocks_def)
  qed
  then show "ct_uid t = app_uid app" "ct_mode t \<le> 1" "list_all rule_in_range (ct_rules t)"
    "\<forall>rule \<in> set rules. rule_enabled rule \<longrightarrow> rule_valid rule"
    "0 \<le> p \<Longrightarrow> p < 65536 \<Longrightarrow> proto = VH_PROTO_TCP \<or> proto = VH_PROTO_UDP \<Longrightarrow>
      target_blocks t p proto = app_blocks mode (compiled_rules rules) p proto" by blast+
qed

lemma resolve_app_ports_total:
  assumes "\<forall>rule \<in> set (rules_of_app app_rules mass_rules app). rule_enabled rule \<longrightarrow> rule_valid rule"
    and "length (objects_of app_rules) + length (objects_of mass_rules) < 2 ^ 57"
  shows "\<exists>t. resolve_app_ports (\<lambda>_. True) mode app_rules mass_rules app = Inr t"
  using allowlist_rules_total [OF assms(1) [unfolded rules_of_app_def] assms(2)]
    named_rules_total [OF assms(1) [unfolded rules_of_app_def] assms(2), of True]
  by (auto simp: resolve_app_ports_def Let_def)

definition port_app_eligible :: "json_ob \<Rightarrow> bool" where
  "port_app_eligible app \<longleftrightarrow> switched app ''portHiding'' \<and> \<not> core_uid (app_uid app)"

text \<open>The application whose entry decides for a UID: the first eligible one.\<close>

definition port_app_of :: "json_ob list \<Rightarrow> uid_t \<Rightarrow> json_ob option" where
  "port_app_of apps uid = find (\<lambda>app. port_app_eligible app \<and> app_uid app = uid) apps"

lemma port_app_cases:
  assumes "port_app realloc mode app_rules mass_rules app result = Inr result'"
  obtains (skip) "result' = result" "\<not> port_app_eligible app \<or> app_uid app \<in> ct_uid ` set (pp_targets result)"
  | (new) t where "port_app_eligible app" "app_uid app \<notin> ct_uid ` set (pp_targets result)"
      "resolve_app_ports realloc mode app_rules mass_rules app = Inr t" "pp_targets result' = pp_targets result @ [t]"
  using assms by (auto simp: port_app_def port_app_eligible_def split: if_splits sum.splits)

lemma ports_loop:
  assumes "each (port_app realloc mode app_rules mass_rules) apps result = Inr result'" "distinct (map ct_uid (pp_targets result))"
  shows "distinct (map ct_uid (pp_targets result')) \<and>
   ct_uid ` set (pp_targets result') = ct_uid ` set (pp_targets result) \<union> app_uid ` {app \<in> set apps. port_app_eligible app} \<and>
   (\<forall>t \<in> set (pp_targets result'). t \<in> set (pp_targets result) \<or> ct_uid t \<notin> ct_uid ` set (pp_targets result) \<and>
      (\<exists>app. port_app_of apps (ct_uid t) = Some app \<and> resolve_app_ports realloc mode app_rules mass_rules app = Inr t))"
  unfolding port_app_of_def
proof (rule each_first_wins [where items = pp_targets, OF _ _ assms])
  fix app r r' assume "port_app realloc mode app_rules mass_rules app r = Inr r'"
  then show "pp_targets r' = pp_targets r \<and> (\<not> port_app_eligible app \<or> app_uid app \<in> ct_uid ` set (pp_targets r)) \<or>
      port_app_eligible app \<and> app_uid app \<notin> ct_uid ` set (pp_targets r) \<and>
      (\<exists>t. resolve_app_ports realloc mode app_rules mass_rules app = Inr t \<and> pp_targets r' = pp_targets r @ [t])"
    by (cases rule: port_app_cases) auto
qed (rule resolve_app_ports_Inr(1))

lemma ports_total:
  assumes "\<forall>app \<in> set apps. port_app_eligible app \<longrightarrow>
      (\<forall>rule \<in> set (rules_of_app app_rules mass_rules app). rule_enabled rule \<longrightarrow> rule_valid rule)"
    and "length (objects_of app_rules) + length (objects_of mass_rules) < 2 ^ 57"
  shows "\<exists>result. each (port_app (\<lambda>_. True) mode app_rules mass_rules) apps \<lparr>pp_targets = [], pp_capacity = 0\<rparr> = Inr result"
proof -
  let ?ok = "\<lambda>r :: port_policy. distinct (map ct_uid (pp_targets r)) \<and> fits (pp_capacity r) (length (pp_targets r))"
  have "\<exists>result. each (port_app (\<lambda>_. True) mode app_rules mass_rules) apps \<lparr>pp_targets = [], pp_capacity = 0\<rparr> = Inr result \<and> ?ok result"
  proof (rule each_total)
    fix app r assume app: "app \<in> set apps" and r: "?ok r"
    have "length (pp_targets r) < 2 ^ 57" using distinct_u32_length [of "map ct_uid (pp_targets r)"] r by simp
    with grow_array_total [of "pp_capacity r" "length (pp_targets r)" 32] r obtain c where
      c: "grow_array (\<lambda>_. True) (pp_capacity r) (length (pp_targets r)) 32 = Inr c" "fits c (Suc (length (pp_targets r)))" by auto
    show "\<exists>r'. port_app (\<lambda>_. True) mode app_rules mass_rules app r = Inr r' \<and> ?ok r'"
    proof (cases "port_app_eligible app \<and> app_uid app \<notin> ct_uid ` set (pp_targets r)")
      case True
      with resolve_app_ports_total [of app_rules mass_rules app mode] assms app obtain t where
        t: "resolve_app_ports (\<lambda>_. True) mode app_rules mass_rules app = Inr t" by auto
      from resolve_app_ports_Inr(1) [OF t] True r c t show ?thesis by (simp add: port_app_def port_app_eligible_def)
    next
      case False
      then show ?thesis using r by (auto simp: port_app_def port_app_eligible_def)
    qed
  qed (simp add: fits_def)
  then show ?thesis by blast
qed

text \<open>The two passes together: what a successful compilation of a document returns.\<close>

abbreviation (input) apps_of :: "json_ob \<Rightarrow> json_ob list" where
  "apps_of config \<equiv> objects_of (json_object_get_array (Some config) ''apps'')"

definition app_rules_of :: "json_ob \<Rightarrow> json_ob \<Rightarrow> json_ob list" where
  "app_rules_of config app = rules_of_app (json_object_get_array (Some config) ''portRules'')
     (json_object_get_array (Some config) ''massPortRules'') app"

lemma resolve_targets_Inr:
  assumes "vpnhide_resolve_targets realloc config = Inr (kmod, lsposed, summary)"
  shows "distinct (uv_items kmod)" "set (uv_items kmod) = selected_uids ''kmod'' (apps_of config)"
    "distinct (uv_items lsposed)" "set (uv_items lsposed) = selected_uids ''lsposed'' (apps_of config)"
    "ps_mode summary = read_mode config"
  using assms targets_loop [of realloc "apps_of config" empty_uids empty_uids 0]
  by (auto simp: vpnhide_resolve_targets_def Let_def each_objects empty_uids_def split: sum.splits)

lemma selected_not_core: "uid \<in> selected_uids switch apps \<Longrightarrow> \<not> core_uid uid"
  by (auto simp: selected_uids_def)

lemma resolve_port_rules_Inr:
  assumes "vpnhide_resolve_port_rules realloc config summary = Inr (ports, summary')"
  shows "distinct (map ct_uid (pp_targets ports))"
    "ct_uid ` set (pp_targets ports) = app_uid ` {app \<in> set (apps_of config). port_app_eligible app}"
    "\<And>t. t \<in> set (pp_targets ports) \<Longrightarrow> \<exists>app. port_app_of (apps_of config) (ct_uid t) = Some app \<and>
      resolve_app_ports realloc (ps_mode summary) (json_object_get_array (Some config) ''portRules'')
        (json_object_get_array (Some config) ''massPortRules'') app = Inr t"
  using assms ports_loop [of realloc "ps_mode summary" "json_object_get_array (Some config) ''portRules''"
      "json_object_get_array (Some config) ''massPortRules''" "apps_of config" "\<lparr>pp_targets = [], pp_capacity = 0\<rparr>" ports]
  by (fastforce simp: vpnhide_resolve_port_rules_def Let_def each_objects split: sum.splits)+

lemma resolve_targets_total: "\<exists>r. vpnhide_resolve_targets (\<lambda>_. True) config = Inr r"
  using targets_total [of "apps_of config"]
  by (auto simp: vpnhide_resolve_targets_def Let_def each_objects)

lemma resolve_port_rules_total:
  assumes "\<forall>app \<in> set (apps_of config). port_app_eligible app \<longrightarrow>
      (\<forall>rule \<in> set (app_rules_of config app). rule_enabled rule \<longrightarrow> rule_valid rule)"
    and "length (objects_of (json_object_get_array (Some config) ''portRules'')) +
      length (objects_of (json_object_get_array (Some config) ''massPortRules'')) < 2 ^ 57"
  shows "\<exists>r. vpnhide_resolve_port_rules (\<lambda>_. True) config summary = Inr r"
  using ports_total [OF assms(1) [unfolded app_rules_of_def] assms(2), of "ps_mode summary"]
  by (auto simp: vpnhide_resolve_port_rules_def Let_def each_objects)

section \<open>Properties\<close>

definition sample_port_rules :: "json_value list" where
  "sample_port_rules =
     [Object (object_of [(''packageName'', String ''org.example''), (''startPort'', Number 440), (''endPort'', Number 450),
        (''protocol'', String ''TCP'')]),
      Object (object_of [(''uid'', Number 10050), (''startPort'', Number 8000), (''endPort'', Number 9000),
        (''enabled'', Boolean False)]),
      Number 7]"

lemma sample_rules_for:
  "rules_for (Some sample_port_rules) None (Some ''org.example'') 0 10050 =
     [object_of [(''packageName'', String ''org.example''), (''startPort'', Number 440), (''endPort'', Number 450),
        (''protocol'', String ''TCP'')],
      object_of [(''uid'', Number 10050), (''startPort'', Number 8000), (''endPort'', Number 9000), (''enabled'', Boolean False)]]"
  by (simp add: rules_for_def sample_port_rules_def objects_of_def rule_applies_def member_simps object_of_get NUL_def
      as_uint_def trunc_toward_zero_def clamp_def strcmp_eq_def Let_def)

lemma sample_rules_valid:
  "\<forall>rule \<in> set (rules_for (Some sample_port_rules) None (Some ''org.example'') 0 10050). rule_enabled rule \<longrightarrow> rule_valid rule"
  by (simp add: sample_rules_for rule_enabled_def rule_valid_def member_simps object_of_get NUL_def
      as_long_def trunc_toward_zero_def clamp_def protocol_of_def strcmp_eq_def Let_def)

lemma sample_compiled:
  "compiled_rules (rules_for (Some sample_port_rules) None (Some ''org.example'') 0 10050) =
     [\<lparr>cr_start = 440, cr_end = 450, cr_protocol = 0\<rparr>]"
  by (simp add: sample_rules_for compiled_rules_def rule_enabled_def rule_of_def member_simps object_of_get NUL_def
      as_long_def trunc_toward_zero_def clamp_def protocol_of_def strcmp_eq_def Let_def)

text \<open>
  C35: The allowlist compilation is exact. When the rules that apply to an application are valid, the
  compilation succeeds, and the target it builds blocks a port for TCP or UDP exactly when
  some rule applies and none of them allows that port and protocol: the sweep over the 65536 ports
  emits the complement, at either end of the port range as well, in well-formed rules only.
\<close>

theorem allowlist_complement_exact:
  assumes "\<forall>rule \<in> set (rules_for app_rules mass_rules name user uid). rule_enabled rule \<longrightarrow> rule_valid rule"
    and "length (objects_of app_rules) + length (objects_of mass_rules) < 2 ^ 57"
  shows "\<exists>t. resolve_allowlist_exception_rules (\<lambda>_. True) app_rules mass_rules name user uid = Inr t \<and>
    list_all rule_in_range (ct_rules t) \<and>
    (\<forall>port proto. 0 \<le> port \<and> port < 65536 \<and> (proto = VH_PROTO_TCP \<or> proto = VH_PROTO_UDP) \<longrightarrow>
       target_blocks t port proto =
         (let rules = compiled_rules (rules_for app_rules mass_rules name user uid) in
          rules \<noteq> [] \<and> \<not> port_rule_allows rules port proto))"
proof -
  from allowlist_rules_total [OF assms] obtain t where
    t: "resolve_allowlist_exception_rules (\<lambda>_. True) app_rules mass_rules name user uid = Inr t" ..
  note A = allowlist_rules_Inr [OF t]
  show ?thesis using t A(3) A(4) by (auto simp: app_blocks_def Let_def)
qed

theorem allowlist_complement_exact_witness:
  "\<exists>t. resolve_allowlist_exception_rules (\<lambda>_. True) (Some sample_port_rules) None (Some ''org.example'') 0 10050 = Inr t \<and>
     \<not> target_blocks t 443 0 \<and> target_blocks t 443 1 \<and> target_blocks t 8080 0 \<and> target_blocks t 65535 1"
proof -
  have n: "length (objects_of (Some sample_port_rules)) + length (objects_of None) < 2 ^ 57"
    by (simp add: objects_of_def sample_port_rules_def json_value_get_object_def)
  from allowlist_complement_exact [OF sample_rules_valid n] show ?thesis
    by (fastforce simp: sample_compiled port_rule_allows_def)
qed

end
