(* ===== verification/Ctl_Load.thy ===== *)
theory Ctl_Load
  imports Ctl_Policy Kernel_Device
begin

text \<open>
  The control program (kmod/vpnhide_ctl.c): packing a compiled configuration into a version 4 policy
  and the commands that change the state of the kernel module or read its statistics. A command is
  a function of the kernel state that returns the exit status; \<open>calloc\<close> gives the address of an
  allocation, 0 when it fails, \<open>parsed\<close> is what the JSON library made of the file, and
  \<^verbatim>\<open>inet_pton\<close> of the C library is an argument. Messages on the error stream are left out.

  The lemmas show that the sort is a sort, that every payload the program packs is accepted by
  the kernel, and that after a successful load the kernel enforces exactly what the document says.
\<close>

section \<open>Sorting\<close>

definition swap_step :: "nat \<Rightarrow> uid_t list \<Rightarrow> uid_t list" where
  "swap_step j arr = (if arr ! j > arr ! (j + 1) then arr[j := arr ! (j + 1), j + 1 := arr ! j] else arr)"

definition sort_pass :: "nat \<Rightarrow> uid_t list \<Rightarrow> uid_t list" where
  "sort_pass i arr = fold swap_step [0..<length arr - i - 1] arr"

definition sort_uids :: "uid_t list \<Rightarrow> uid_t list" where
  "sort_uids arr = fold sort_pass [0..<length arr - 1] arr"

section \<open>Hook masks of applications\<close>

definition VPNHIDE_PORT_HOOK_MASK :: u32 where
  "VPNHIDE_PORT_HOOK_MASK = push_bit 13 1 OR push_bit 16 1"

record mask_vector =
  mv_items :: "app_hook_mask_v3 list"
  mv_capacity :: nat

definition append_app_hook_mask :: "(nat \<Rightarrow> bool) \<Rightarrow> mask_vector \<Rightarrow> app_hook_mask_v3 \<Rightarrow> mask_vector option" where
  "append_app_hook_mask realloc vec m =
     (if mask_uid m \<in> mask_uid ` set (mv_items vec) then Some vec
      else if length (mv_items vec) = mv_capacity vec then
        let capacity = (if mv_capacity vec = 0 then 16 else mv_capacity vec * 2 mod 2 ^ 64) in
        if capacity < mv_capacity vec \<or> SIZE_MAX div 16 < capacity then None
        else if \<not> realloc (capacity * 16) then None
        else Some \<lparr>mv_items = mv_items vec @ [m], mv_capacity = capacity\<rparr>
      else Some (vec\<lparr>mv_items := mv_items vec @ [m]\<rparr>))"

record load_globals =
  lg_have :: bool
  lg_kernel_mask :: u32
  lg_java_mask :: u32
  lg_debug :: int
  lg_allowlist :: bool

definition read_globals :: "json_ob \<Rightarrow> load_globals" where
  "read_globals config = (case json_object_get_object (Some config) ''globalConfig'' of
     None \<Rightarrow> \<lparr>lg_have = False, lg_kernel_mask = VPNHIDE_PORT_HOOK_MASK, lg_java_mask = 0, lg_debug = 0, lg_allowlist = False\<rparr>
   | Some global \<Rightarrow>
       \<lparr>lg_have = True,
        lg_kernel_mask = as_uint (json_object_get_number (Some global) ''kernelHookMask'') OR VPNHIDE_PORT_HOOK_MASK,
        lg_java_mask = as_uint (json_object_get_number (Some global) ''javaHookMask''),
        lg_debug = as_int (json_object_get_number (Some global) ''debugLogging''),
        lg_allowlist = names_allowlist (json_object_get_string (Some global) ''listMode'')\<rparr>)"

definition app_mask :: "load_globals \<Rightarrow> json_ob \<Rightarrow> app_hook_mask_v3" where
  "app_mask g app =
     (let has_kernel = json_object_has_value app ''kernelHookMask'';
          has_java = json_object_has_value app ''javaHookMask'';
          raw_kernel = (if has_kernel then as_uint (json_object_get_number (Some app) ''kernelHookMask'') else 0);
          raw_java = (if has_java then as_uint (json_object_get_number (Some app) ''javaHookMask'') else 0) in
      \<lparr>mask_uid = app_uid app,
       kernel_mask = (if lg_allowlist g then (if lg_have g then lg_kernel_mask g else 0xFFFFFFFF) AND NOT raw_kernel
                      else raw_kernel) OR VPNHIDE_PORT_HOOK_MASK,
       java_mask = (if lg_allowlist g then (if lg_have g then lg_java_mask g else 0xFFFFFFFF) AND NOT raw_java else raw_java),
       has_kernel_override = (if has_kernel then 1 else 0), has_java_override = (if has_java then 1 else 0),
       mask_reserved = (0, 0)\<rparr>)"

definition has_mask :: "json_ob \<Rightarrow> bool" where
  "has_mask app \<longleftrightarrow> app_uid app \<noteq> 0 \<and>
     (json_object_has_value app ''kernelHookMask'' \<or> json_object_has_value app ''javaHookMask'')"

definition mask_app :: "(nat \<Rightarrow> bool) \<Rightarrow> load_globals \<Rightarrow> json_ob \<Rightarrow> mask_vector \<Rightarrow> unit + mask_vector" where
  "mask_app realloc g app vec =
     (if has_mask app then
        (case append_app_hook_mask realloc vec (app_mask g app) of None \<Rightarrow> Inl () | Some vec' \<Rightarrow> Inr vec')
      else Inr vec)"

section \<open>Packing\<close>

definition policy_add_size :: "nat \<Rightarrow> nat \<Rightarrow> nat \<Rightarrow> nat option" where
  "policy_add_size sum_bytes num element_size =
     (if num \<noteq> 0 \<and> SIZE_MAX div num < element_size then None
      else if SIZE_MAX - num * element_size < sum_bytes then None
      else Some (sum_bytes + num * element_size))"

fun add_sizes :: "nat \<Rightarrow> (nat \<times> nat) list \<Rightarrow> nat option" where
  "add_sizes sum_bytes [] = Some sum_bytes"
| "add_sizes sum_bytes ((num, element_size) # rest) =
     (case policy_add_size sum_bytes num element_size of None \<Rightarrow> None | Some more_bytes \<Rightarrow> add_sizes more_bytes rest)"

fun count_rules :: "nat \<Rightarrow> ctl_port_target list \<Rightarrow> nat option" where
  "count_rules total_rules [] = Some total_rules"
| "count_rules total_rules (t # ts) =
     (if SIZE_MAX - length (ct_rules t) < total_rules then None
      else count_rules (total_rules + length (ct_rules t)) ts)"

definition pack_rule :: "ctl_port_rule \<Rightarrow> port_rule_v3" where
  "pack_rule r = \<lparr>start_port = cr_start r, end_port = cr_end r, rule_protocol = cr_protocol r, rule_reserved = (0, 0, 0)\<rparr>"

fun pack_targets :: "nat \<Rightarrow> ctl_port_target list \<Rightarrow> port_target_v3 list \<times> port_rule_v3 list" where
  "pack_targets j [] = ([], [])"
| "pack_targets j (t # ts) =
     (case pack_targets (j + length (ct_rules t)) ts of (targets, rules) \<Rightarrow>
        (\<lparr>target_uid = ct_uid t, first_rule = of_nat j, rule_count = of_nat (length (ct_rules t)),
           target_mode = ct_mode t, target_reserved = (0, 0, 0)\<rparr> # targets,
         map pack_rule (ct_rules t) @ rules))"

record iface_data =
  id_count :: int
  id_prefixes :: "u8 list"

definition UINT32_MAX :: nat where
  "UINT32_MAX = 2 ^ 32 - 1"

definition header_v4 :: "nat \<Rightarrow> policy_section list \<Rightarrow> iface_data \<Rightarrow> u32 \<Rightarrow> u32 \<Rightarrow> bool \<Rightarrow> u32 \<Rightarrow> payload_header_v4" where
  "header_v4 sum_bytes secs ifaces active java debug match_mode =
     \<lparr>total_size = of_nat sum_bytes, hdr_flags = 0, hdr_active_hooks_mask = active,
      hdr_java_hooks_mask = java, hdr_debug_enabled = (if debug then 1 else 0),
      hdr_iface_count = word_of_int (id_count ifaces), hdr_iface_prefixes = id_prefixes ifaces,
      sec_kmod_uids = secs ! 0, sec_lsposed_uids = secs ! 1, sec_port_targets = secs ! 2,
      sec_port_rules = secs ! 3, sec_app_hook_masks = secs ! 4,
      hdr_kmod_match_mode = match_mode, hdr_lsposed_match_mode = match_mode,
      hdr_port_match_mode = match_mode, hdr_reserved = 0\<rparr>"

definition pack_policy_v4 :: "(nat \<Rightarrow> u64) \<Rightarrow> uid_t list \<Rightarrow> uid_t list \<Rightarrow> ctl_port_target list \<Rightarrow> app_hook_mask_v3 list \<Rightarrow>
    iface_data \<Rightarrow> u32 \<Rightarrow> u32 \<Rightarrow> bool \<Rightarrow> u32 \<Rightarrow> (u64 \<times> u8 list) option" where
  "pack_policy_v4 calloc targets lsposed ports masks ifaces active java debug match_mode =
     (case count_rules 0 ports of
        None \<Rightarrow> None
      | Some total_rules \<Rightarrow>
          if UINT32_MAX < length targets \<or> UINT32_MAX < length lsposed \<or> UINT32_MAX < length ports \<or>
             UINT32_MAX < total_rules \<or> UINT32_MAX < length masks
          then None
          else case add_sizes sizeof_payload_v4 [(length targets, 4), (length lsposed, 4), (length ports, 16),
                       (total_rules, 8), (length masks, 16)] of
            None \<Rightarrow> None
          | Some sum_bytes \<Rightarrow>
              if UINT32_MAX < sum_bytes \<or> VPNHIDE_POLICY_MAX_BYTES < sum_bytes then None
              else if calloc sum_bytes = 0 then None
              else
                let secs = sections_from sizeof_payload_v4 (length targets) (length lsposed) (length ports)
                             total_rules (length masks);
                    header = header_v4 sum_bytes secs ifaces active java debug match_mode;
                    (port_targets', port_rules') = pack_targets 0 ports in
                Some (calloc sum_bytes,
                  put_header_v4 header @ sections_bytes targets lsposed port_targets' port_rules' masks))"

section \<open>Loading a configuration\<close>

definition iface_prefix :: "string option \<Rightarrow> u8 list" where
  "iface_prefix prefix_str = (case prefix_str of
     None \<Rightarrow> replicate MAX_IFACE_LEN 0
   | Some s \<Rightarrow>
       let copied = map of_char (take (MAX_IFACE_LEN - 1) (c_string s)) in
       copied @ replicate (MAX_IFACE_LEN - length copied) 0)"

definition read_ifaces :: "json_ob \<Rightarrow> iface_data" where
  "read_ifaces config =
     (let prefixes = json_object_get_array (Some config) ''ifacePrefixes'';
          num = min (json_array_get_count prefixes) MAX_IFACE_PREFIXES in
      \<lparr>id_count = int num,
       id_prefixes = concat (map (\<lambda>i. iface_prefix (json_array_get_string prefixes i)) [0..<num]) @
         replicate ((MAX_IFACE_PREFIXES - num) * MAX_IFACE_LEN) 0\<rparr>)"

datatype load_failure =
    Bad_Json | Mask_Memory | Policy_Rejected ctl_error | Ports_Rejected ctl_error | Not_Serializable | Not_Applied errno

definition build_payload :: "(nat \<Rightarrow> bool) \<Rightarrow> (nat \<Rightarrow> u64) \<Rightarrow> json_value option \<Rightarrow> load_failure + u64 \<times> u8 list" where
  "build_payload realloc calloc parsed =
     (if json_value_get_type parsed \<noteq> JSONObject then Inl Bad_Json
      else case json_value_get_object parsed of
        None \<Rightarrow> Inl Bad_Json
      | Some config \<Rightarrow>
          let g = read_globals config in
          case each_object (json_object_get_array (Some config) ''apps'') (mask_app realloc g)
                 \<lparr>mv_items = [], mv_capacity = 0\<rparr> of
            Inl _ \<Rightarrow> Inl Mask_Memory
          | Inr masks \<Rightarrow> (case vpnhide_resolve_targets realloc config of
              Inl e \<Rightarrow> Inl (Policy_Rejected e)
            | Inr (targets, lsposed, summary) \<Rightarrow> (case vpnhide_resolve_port_rules realloc config summary of
                Inl e \<Rightarrow> Inl (Ports_Rejected e)
              | Inr (ports, summary') \<Rightarrow>
                  (case pack_policy_v4 calloc (sort_uids (uv_items targets)) (sort_uids (uv_items lsposed))
                          (pp_targets ports) (mv_items masks) (read_ifaces config)
                          (if lg_have g then lg_kernel_mask g else 0xFFFFFFFF)
                          (if lg_have g then lg_java_mask g else 0xFFFFFFFF)
                          (lg_have g \<and> lg_debug g \<noteq> 0)
                          (if lg_allowlist g then VPNHIDE_MATCH_EXCLUDE else VPNHIDE_MATCH_INCLUDE) of
                     None \<Rightarrow> Inl Not_Serializable
                   | Some payload \<Rightarrow> Inr payload))))"

definition ctl_load :: "(nat \<Rightarrow> bool) \<Rightarrow> (nat \<Rightarrow> u64) \<Rightarrow> ioctl_env \<Rightarrow> json_value option \<Rightarrow> kernel_state
    \<Rightarrow> load_failure option \<times> kernel_state" where
  "ctl_load realloc calloc env parsed k =
     (case build_payload realloc calloc parsed of
        Inl e \<Rightarrow> (Some e, k)
      | Inr (ptr, payload) \<Rightarrow>
          (case handle_vpnhide_ioctl env (VH_SET_POLICY
                  (Some \<lparr>abi_version = 4, payload_size = of_nat (length payload), payload_ptr = ptr, expected_generation = 0\<rparr>)
                  (Some payload)) k of
             (Some e, _, k') \<Rightarrow> (Some (Not_Applied e), k')
           | (None, _, k') \<Rightarrow> (None, k')))"

section \<open>Validating a configuration\<close>

text \<open>
  \<^verbatim>\<open>validate\<close> and \<^verbatim>\<open>preview\<close> compile the document without a kernel and print what they made of it.
\<close>

definition summary_lines :: "policy_summary \<Rightarrow> string list" where
  "summary_lines summary =
     [''mode='' @ vpnhide_list_mode_name (ps_mode summary),
      ''configured_entries='' @ dec (ps_configured_entries summary),
      ''rejected_core_uids='' @ dec (ps_rejected_core_uids summary),
      ''match_mode='' @ (if ps_mode summary = VPNHIDE_LIST_ALLOWLIST then ''EXCLUDE'' else ''INCLUDE''),
      ''kmod_targets='' @ dec (ps_kmod_targets summary),
      ''lsposed_entries='' @ dec (ps_lsposed_entries summary),
      ''port_targets='' @ dec (ps_port_targets summary)]"

definition target_lines :: "nat \<Rightarrow> ctl_port_target \<Rightarrow> string list" where
  "target_lines i t =
     [''port_target['' @ dec i @ ''].uid='' @ dec (unat (ct_uid t)),
      ''port_target['' @ dec i @ ''].mode='' @ dec (unat (ct_mode t))] @
     map (\<lambda>(j, rule). ''port_target['' @ dec i @ ''].rule['' @ dec j @ '']='' @ dec (unat (cr_start rule)) @ ''-'' @
            dec (unat (cr_end rule)) @ ''/'' @ dec (unat (cr_protocol rule)))
       (zip [0..<length (ct_rules t)] (ct_rules t))"

definition ctl_validate :: "(nat \<Rightarrow> bool) \<Rightarrow> bool \<Rightarrow> json_value option \<Rightarrow> load_failure + string list" where
  "ctl_validate realloc preview parsed =
     (if json_value_get_type parsed \<noteq> JSONObject then Inl Bad_Json
      else case json_value_get_object parsed of
        None \<Rightarrow> Inl Bad_Json
      | Some config \<Rightarrow> (case vpnhide_resolve_targets realloc config of
          Inl e \<Rightarrow> Inl (Policy_Rejected e)
        | Inr (targets, lsposed, summary) \<Rightarrow> (case vpnhide_resolve_port_rules realloc config summary of
            Inl e \<Rightarrow> Inl (Ports_Rejected e)
          | Inr (ports, summary') \<Rightarrow>
              Inr (summary_lines summary' @
                (if preview then concat (map (\<lambda>(i, t). target_lines i t) (zip [0..<length (pp_targets ports)] (pp_targets ports)))
                 else [])))))"

section \<open>The other commands, and the statistics loop\<close>

text \<open>
  \<^verbatim>\<open>set_spoof_ip\<close> starts from a structure of zeros; the addresses are written by \<^verbatim>\<open>inet_pton\<close>.
\<close>

definition ctl_set_spoof_ip :: "(string \<Rightarrow> u32 option) \<Rightarrow> (string \<Rightarrow> addr4 option) \<Rightarrow> ioctl_env \<Rightarrow> string \<Rightarrow> string \<Rightarrow> kernel_state
    \<Rightarrow> int \<times> kernel_state" where
  "ctl_set_spoof_ip pton4 pton6 env arg4 arg6 k =
     (case (if strcmp_eq arg4 ''none'' then Inr spoof_zero
            else case pton4 arg4 of None \<Rightarrow> Inl () | Some a \<Rightarrow> Inr (spoof_zero\<lparr>ipv4_addr := a, has_ipv4 := 1\<rparr>)) of
        Inl _ \<Rightarrow> (1, k)
      | Inr spoof4 \<Rightarrow>
          (case (if strcmp_eq arg6 ''none'' then Inr spoof4
                 else case pton6 arg6 of None \<Rightarrow> Inl () | Some a \<Rightarrow> Inr (spoof4\<lparr>ipv6_addr := a, has_ipv6 := 1\<rparr>)) of
             Inl _ \<Rightarrow> (1, k)
           | Inr spoof \<Rightarrow>
               (case handle_vpnhide_ioctl env (VH_SET_SPOOF_IP (Some spoof)) k of
                  (Some _, _, k') \<Rightarrow> (1, k')
                | (None, _, k') \<Rightarrow> (0, k'))))"

definition ctl_clear_stats :: "ioctl_env \<Rightarrow> kernel_state \<Rightarrow> int \<times> kernel_state" where
  "ctl_clear_stats env k =
     (case handle_vpnhide_ioctl env VH_CLEAR_STATS k of (Some _, _, k') \<Rightarrow> (1, k') | (None, _, k') \<Rightarrow> (0, k'))"

text \<open>
  The commands that print a word or a text of the kernel: exit status and output. The text of
  \<^verbatim>\<open>hook_status\<close> is printed up to its end with a line break for every semicolon.
\<close>

definition print_word :: "ioctl_env \<Rightarrow> vh_request \<Rightarrow> kernel_state \<Rightarrow> int \<times> string" where
  "print_word env request k = (case handle_vpnhide_ioctl env request k of
     (None, Word w, _) \<Rightarrow> (0, fmt_u w @ nl)
   | _ \<Rightarrow> (1, []))"

definition ctl_hook_status :: "ioctl_env \<Rightarrow> kernel_state \<Rightarrow> int \<times> string" where
  "ctl_hook_status env k = (case handle_vpnhide_ioctl env VH_GET_HOOK_STATUS k of
     (None, Text s, _) \<Rightarrow> (0, map (\<lambda>c. if c = CHR '';'' then newline else c) (c_string s) @ nl)
   | _ \<Rightarrow> (1, []))"

definition ctl_java_stats :: "ioctl_env \<Rightarrow> kernel_state \<Rightarrow> int \<times> string" where
  "ctl_java_stats env k = (case handle_vpnhide_ioctl env VH_GET_JAVA_STATS k of
     (None, Text s, _) \<Rightarrow> (0, c_string s)
   | _ \<Rightarrow> (1, []))"

definition ctl_java_stats_clear :: "bool \<Rightarrow> kernel_state \<Rightarrow> int \<times> kernel_state" where
  "ctl_java_stats_clear alloc_ok k = (case vpnhide_dev_write alloc_ok (Some ''clear_stats'') 11 k of
     (Inl _, k') \<Rightarrow> (1, k') | (Inr _, k') \<Rightarrow> (0, k'))"

definition running_version :: "ioctl_env option \<Rightarrow> kernel_state \<Rightarrow> int" where
  "running_version device k = (case device of
     None \<Rightarrow> -1
   | Some env \<Rightarrow> (case handle_vpnhide_ioctl env VH_GET_VERSION k of (None, Word w, _) \<Rightarrow> sint w | _ \<Rightarrow> -1))"

definition ctl_version :: "ioctl_env option \<Rightarrow> string option \<Rightarrow> kernel_state \<Rightarrow> int \<times> string" where
  "ctl_version device component k =
     (let kversion = running_version device k in
      case component of
        Some c \<Rightarrow>
          if strcmp_eq c ''ctl'' then (0, fmt_d (sint VPNHIDE_VERSION_CODE) @ nl)
          else if strcmp_eq c ''kmod'' then (0, fmt_d kversion @ nl)
          else (1, [])
      | None \<Rightarrow> (0, ''ctl: '' @ fmt_d (sint VPNHIDE_VERSION_CODE) @ nl @ ''kmod: '' @ fmt_d kversion @ nl))"

text \<open>
  The retry loop of \<^verbatim>\<open>stats\<close>. The kernel takes its lock twice in a call, and other processes run
  in between and between the calls: the two halves of call \<open>n\<close> meet the kernel in the states \<open>kernel_at (2 * n)\<close>
  and \<open>kernel_at (2 * n + 1)\<close>. The bound on the rounds is discharged below.
\<close>

definition get_stats_call :: "u64 \<Rightarrow> bool \<Rightarrow> bool \<Rightarrow> bool \<Rightarrow> stats_request \<Rightarrow> kernel_state \<Rightarrow> kernel_state \<Rightarrow>
    errno option \<times> stats_request option \<times> uid_stats slot list" where
  "get_stats_call now alloc_ok copy_entries copy_request request k1 k2 =
     (case get_stats_begin alloc_ok request k1 of
        Inl e \<Rightarrow> (Some e, None, [])
      | Inr allocated \<Rightarrow> (case get_stats_end now copy_entries copy_request allocated request k2 of
          (r, answer, entries, _) \<Rightarrow> (r, answer, entries)))"

fun stats_rounds :: "(u32 \<Rightarrow> u64) \<Rightarrow> (nat \<Rightarrow> u64 \<times> bool \<times> bool \<times> bool) \<Rightarrow> (nat \<Rightarrow> kernel_state) \<Rightarrow> nat \<Rightarrow> nat \<Rightarrow> u32 \<Rightarrow> u64 \<Rightarrow>
    (errno + u32 \<times> uid_stats slot list) option" where
  "stats_rounds calloc outcome kernel_at 0 n capacity stats = None"
| "stats_rounds calloc outcome kernel_at (Suc rounds) n capacity stats =
     (let request = \<lparr>sq_capacity = capacity, sq_count = 0, sq_sequence = 0, sq_monotonic_ns = 0, sq_entries_ptr = stats\<rparr>;
          (now, alloc_ok, copy_entries, copy_request) = outcome n;
          (r, answer, entries) = get_stats_call now alloc_ok copy_entries copy_request request
            (kernel_at (2 * n)) (kernel_at (2 * n + 1));
          num = sq_count (case answer of None \<Rightarrow> request | Some request' \<Rightarrow> request') in
      case r of
        None \<Rightarrow> Some (Inr (num, entries))
      | Some e \<Rightarrow>
          if e \<noteq> ENOSPC \<or> num \<le> capacity then Some (Inl e)
          else if calloc num = 0 then Some (Inl ENOMEM)
          else stats_rounds calloc outcome kernel_at rounds (n + 1) num (calloc num))"

definition ctl_stats :: "(u32 \<Rightarrow> u64) \<Rightarrow> (nat \<Rightarrow> u64 \<times> bool \<times> bool \<times> bool) \<Rightarrow> (nat \<Rightarrow> kernel_state) \<Rightarrow> nat \<Rightarrow>
    (errno + u32 \<times> uid_stats slot list) option" where
  "ctl_stats calloc outcome kernel_at rounds = stats_rounds calloc outcome kernel_at rounds 0 0 0"

section \<open>The sort is a sort\<close>

lemma length_swap_step [simp]: "length (swap_step j arr) = length arr"
  by (simp add: swap_step_def)

lemma length_swaps [simp]: "length (fold swap_step js arr) = length arr"
  by (induction js arbitrary: arr) simp_all

lemma length_sort_pass [simp]: "length (sort_pass i arr) = length arr"
  by (simp add: sort_pass_def)

lemma mset_take_swap:
  assumes "j + 1 < length arr"
  shows "mset (take (j + 2) (swap_step j arr)) = mset (take (j + 2) arr)"
    and "drop (j + 2) (swap_step j arr) = drop (j + 2) arr"
proof -
  have "take (j + 2) (arr[j := arr ! (j + 1), j + 1 := arr ! j]) = (take (j + 2) arr)[j := take (j + 2) arr ! (j + 1), j + 1 := take (j + 2) arr ! j]"
    by (simp add: take_update_swap)
  moreover have "mset ((take (j + 2) arr)[j := take (j + 2) arr ! (j + 1), j + 1 := take (j + 2) arr ! j]) = mset (take (j + 2) arr)"
    using assms by (intro mset_swap) simp_all
  ultimately show "mset (take (j + 2) (swap_step j arr)) = mset (take (j + 2) arr)" by (simp add: swap_step_def)
  show "drop (j + 2) (swap_step j arr) = drop (j + 2) arr" by (simp add: swap_step_def)
qed

text \<open>A pass over the first elements carries their maximum to its end and permutes them.\<close>

lemma swaps_carry_max:
  "n < length arr \<Longrightarrow>
   (let a = fold swap_step [0..<n] arr in
     mset (take (n + 1) a) = mset (take (n + 1) arr) \<and> drop (n + 1) a = drop (n + 1) arr \<and> (\<forall>x \<in> set (take n a). x \<le> a ! n))"
proof (induction n)
  case (Suc n)
  define a where "a = fold swap_step [0..<n] arr"
  define b where "b = swap_step n a"
  have b: "fold swap_step [0..<Suc n] arr = b" by (simp add: a_def b_def)
  have len: "length a = length arr" by (simp add: a_def)
  from Suc have IH: "mset (take (n + 1) a) = mset (take (n + 1) arr)" "drop (n + 1) a = drop (n + 1) arr"
    "\<forall>x \<in> set (take n a). x \<le> a ! n" by (simp_all add: a_def Let_def)
  have n: "n + 1 < length a" using Suc.prems len by simp
  have next_el: "a ! (n + 1) = arr ! (n + 1)" using IH(2) n len by (metis Cons_nth_drop_Suc list.inject)
  have "mset (take (n + 2) a) = mset (take (n + 2) arr)"
    using IH(1) next_el n len by (simp add: take_Suc_conv_app_nth)
  then have m: "mset (take (n + 2) b) = mset (take (n + 2) arr)" using mset_take_swap(1) [OF n] by (simp add: b_def)
  have d: "drop (n + 2) b = drop (n + 2) arr"
    using mset_take_swap(2) [OF n] IH(2) by (simp add: b_def) (metis drop_Suc drop_drop add.commute plus_1_eq_Suc)
  have "x \<le> b ! (n + 1)" if "x \<in> set (take (n + 1) b)" for x
  proof (cases "a ! n > a ! (n + 1)")
    case True
    then have be: "b = a[n := a ! (n + 1), n + 1 := a ! n]" by (simp add: b_def swap_step_def)
    have "take (n + 1) b = take n a @ [a ! (n + 1)]" using n by (simp add: be take_Suc_conv_app_nth)
    with that IH(3) True n show ?thesis by (auto simp: be)
  next
    case False
    then have be: "b = a" by (simp add: b_def swap_step_def)
    have "take (n + 1) a = take n a @ [a ! n]" using n by (simp add: take_Suc_conv_app_nth)
    with that IH(3) False show ?thesis by (auto simp: be)
  qed
  then show ?case using m d by (simp only: b Let_def) simp
qed (simp add: Let_def)

definition tail_sorted :: "nat \<Rightarrow> uid_t list \<Rightarrow> bool" where
  "tail_sorted i arr \<longleftrightarrow> sorted (drop (length arr - i) arr) \<and>
     (\<forall>x \<in> set (take (length arr - i) arr). \<forall>y \<in> set (drop (length arr - i) arr). x \<le> y)"

lemma sort_pass_step:
  assumes "tail_sorted i arr" "i + 1 \<le> length arr"
  shows "tail_sorted (i + 1) (sort_pass i arr)" and "mset (sort_pass i arr) = mset arr"
proof -
  let ?m = "length arr - i - 1" let ?a = "sort_pass i arr"
  have m: "?m < length arr" "?m + 1 = length arr - i" using assms(2) by auto
  from swaps_carry_max [OF m(1)] m(2) have
    a: "mset (take (length arr - i) ?a) = mset (take (length arr - i) arr)"
    "drop (length arr - i) ?a = drop (length arr - i) arr" "\<forall>x \<in> set (take ?m ?a). x \<le> ?a ! ?m"
    by (simp_all add: sort_pass_def Let_def)
  have st: "set (take (length arr - i) ?a) = set (take (length arr - i) arr)" using a(1) by (rule mset_eq_setD)
  have tk: "take (length arr - i) ?a = take ?m ?a @ [?a ! ?m]" using m by (metis Suc_eq_plus1 length_sort_pass take_Suc_conv_app_nth)
  have dr: "drop ?m ?a = ?a ! ?m # drop (length arr - i) ?a" using m by (metis Cons_nth_drop_Suc Suc_eq_plus1 length_sort_pass)
  have le: "x \<le> y" if "x \<in> set (take (length arr - i) ?a)" "y \<in> set (drop (length arr - i) ?a)" for x y
    using assms(1) that a(2) st by (simp add: tail_sorted_def)
  have "sorted (drop (length arr - i) ?a)" using assms(1) a(2) by (simp add: tail_sorted_def)
  then have "sorted (drop ?m ?a)" unfolding dr using le tk by simp
  moreover have "x \<le> y" if "x \<in> set (take ?m ?a)" "y \<in> set (drop ?m ?a)" for x y
    using that a(3) le tk unfolding dr by auto
  ultimately show "tail_sorted (i + 1) ?a" by (simp add: tail_sorted_def)
  show "mset ?a = mset arr"
    using a(1,2) by (metis append_take_drop_id mset_append)
qed

lemma sort_uids_sort: "sort_uids arr = sort arr"
proof -
  have "tail_sorted n (fold sort_pass [0..<n] arr) \<and> mset (fold sort_pass [0..<n] arr) = mset arr" if "n \<le> length arr" for n
    using that
  proof (induction n)
    case (Suc n)
    let ?a = "fold sort_pass [0..<n] arr"
    have "length ?a = length arr" using Suc by (metis Suc_leD size_mset)
    with Suc sort_pass_step [of n ?a] show ?case by simp
  qed (simp add: tail_sorted_def)
  from this [of "length arr - 1"] have
    s: "tail_sorted (length arr - 1) (sort_uids arr)" "mset (sort_uids arr) = mset arr" by (simp_all add: sort_uids_def)
  then have len: "length (sort_uids arr) = length arr" by (metis size_mset)
  have "sorted (sort_uids arr)"
  proof (cases "sort_uids arr")
    case (Cons x xs)
    with s(1) len show ?thesis by (cases "length arr") (simp_all add: tail_sorted_def)
  qed simp
  then show ?thesis using s(2) by (simp add: properties_for_sort)
qed

section \<open>Packed policies are accepted\<close>

lemma add_sizes_Some: "add_sizes n sizes = Some m \<Longrightarrow> m = n + sum_list (map (\<lambda>(num, esize). num * esize) sizes)"
  by (induction n sizes rule: add_sizes.induct) (auto simp: policy_add_size_def split: if_splits)

lemma add_sizes_total:
  "n + sum_list (map (\<lambda>(num, esize). num * esize) sizes) \<le> SIZE_MAX \<Longrightarrow>
   add_sizes n sizes = Some (n + sum_list (map (\<lambda>(num, esize). num * esize) sizes))"
proof (induction n sizes rule: add_sizes.induct)
  case (2 n num esize rest)
  have le: "num * esize \<le> SIZE_MAX" using "2.prems" by simp
  then have "esize \<le> SIZE_MAX div num" if "num \<noteq> 0" using that by (simp add: less_eq_div_iff_mult_less_eq mult.commute)
  then have "policy_add_size n num esize = Some (n + num * esize)" using "2.prems" by (auto simp: policy_add_size_def not_less)
  with "2.IH" [OF this] "2.prems" show ?case by (simp add: add.assoc)
qed simp

abbreviation (input) rule_total :: "ctl_port_target list \<Rightarrow> nat" where
  "rule_total ts \<equiv> sum_list (map (\<lambda>t. length (ct_rules t)) ts)"

lemma count_rules_Some: "count_rules n ts = Some m \<Longrightarrow> m = n + rule_total ts"
  by (induction n ts rule: count_rules.induct) (auto split: if_splits)

lemma count_rules_total: "n + rule_total ts \<le> SIZE_MAX \<Longrightarrow> count_rules n ts = Some (n + rule_total ts)"
  by (induction n ts rule: count_rules.induct) (auto simp: not_less)

lemma pack_targets_lengths:
  "length (fst (pack_targets j ts)) = length ts" "length (snd (pack_targets j ts)) = rule_total ts"
  by (induction ts arbitrary: j) (simp_all add: split_def)

definition packs :: "port_rule_v3 list \<Rightarrow> ctl_port_target \<Rightarrow> port_target_v3 \<Rightarrow> bool" where
  "packs rules t t' \<longleftrightarrow> target_uid t' = ct_uid t \<and> target_mode t' = ct_mode t \<and> target_reserved t' = (0, 0, 0) \<and>
     target_rules rules t' = map pack_rule (ct_rules t)"

lemma pack_targets_packs:
  "length pre = j \<Longrightarrow> j + rule_total ts < 2 ^ 32 \<Longrightarrow>
   list_all2 (packs (pre @ snd (pack_targets j ts))) ts (fst (pack_targets j ts)) \<and>
   consecutive j (fst (pack_targets j ts)) (j + rule_total ts)"
proof (induction ts arbitrary: j pre)
  case (Cons t ts)
  let ?n = "length (ct_rules t)"
  obtain targets rules where p: "pack_targets (j + ?n) ts = (targets, rules)" by fastforce
  have u: "unat (of_nat j :: u32) = j" "unat (of_nat ?n :: u32) = ?n" using Cons.prems(2) by (simp_all add: unat_of_nat_32)
  from Cons.IH [of "pre @ map pack_rule (ct_rules t)" "j + ?n"] Cons.prems
  have "list_all2 (packs (pre @ map pack_rule (ct_rules t) @ rules)) ts targets \<and> consecutive (j + ?n) targets (j + ?n + rule_total ts)"
    by (simp add: p)
  moreover have "packs (pre @ map pack_rule (ct_rules t) @ rules) t \<lparr>target_uid = ct_uid t, first_rule = of_nat j,
      rule_count = of_nat ?n, target_mode = ct_mode t, target_reserved = (0, 0, 0)\<rparr>"
    using Cons.prems(1) u by (simp add: packs_def target_rules_def)
  ultimately show ?case using u by (simp add: p add.assoc)
qed simp

definition ports_packable :: "ctl_port_target list \<Rightarrow> bool" where
  "ports_packable ports \<longleftrightarrow> distinct (map ct_uid ports) \<and> 0 \<notin> ct_uid ` set ports \<and>
     list_all (\<lambda>t. ct_mode t \<le> 2 \<and> list_all rule_in_range (ct_rules t)) ports"

lemma pack_rule_accepted: "rule_in_range r \<Longrightarrow> \<not> rule_rejected (pack_rule r)"
  by (simp add: rule_in_range_def rule_rejected_def pack_rule_def not_less)

lemma packs_uids: "list_all2 (packs rules) ts ts' \<Longrightarrow> map target_uid ts' = map ct_uid ts"
  by (induction rule: list_all2_induct) (auto simp: packs_def)

lemma pack_rules_concat: "snd (pack_targets j ts) = concat (map (\<lambda>t. map pack_rule (ct_rules t)) ts)"
  by (induction ts arbitrary: j) (simp_all add: split_def)

lemma packed_targets_ok:
  assumes "ports_packable ports" "rule_total ports < 2 ^ 32"
  defines "targets \<equiv> fst (pack_targets 0 ports)" and "rules \<equiv> snd (pack_targets 0 ports)"
  shows "distinct (map target_uid targets)" "list_all2 (packs rules) ports targets" "consecutive 0 targets (length rules)"
    "list_all (\<lambda>r. \<not> rule_rejected r) rules"
    "list_all (\<lambda>t. target_uid t \<noteq> 0 \<and> target_mode t \<le> 2 \<and> target_reserved t = (0, 0, 0)) targets"
proof -
  from pack_targets_packs [of "[]" 0 ports] assms(2)
  show p: "list_all2 (packs rules) ports targets" and "consecutive 0 targets (length rules)"
    by (simp_all add: targets_def rules_def pack_targets_lengths)
  show "distinct (map target_uid targets)" using packs_uids [OF p] assms(1) by (simp add: ports_packable_def)
  show "list_all (\<lambda>r. \<not> rule_rejected r) rules"
    using assms(1) by (auto simp: rules_def pack_rules_concat list_all_iff ports_packable_def dest: pack_rule_accepted)
  show "list_all (\<lambda>t. target_uid t \<noteq> 0 \<and> target_mode t \<le> 2 \<and> target_reserved t = (0, 0, 0)) targets"
    unfolding list_all_length
  proof (intro allI impI)
    fix i assume i: "i < length targets"
    with p have "packs rules (ports ! i) (targets ! i)" "ports ! i \<in> set ports"
      by (auto simp: list_all2_conv_all_nth)
    with assms(1) show "target_uid (targets ! i) \<noteq> 0 \<and> target_mode (targets ! i) \<le> 2 \<and> target_reserved (targets ! i) = (0, 0, 0)"
      by (force simp: ports_packable_def packs_def list_all_iff)
  qed
qed

definition masks_packable :: "app_hook_mask_v3 list \<Rightarrow> bool" where
  "masks_packable masks \<longleftrightarrow> distinct (map mask_uid masks) \<and> list_all (\<lambda>m. \<not> mask_rejected m) masks"

definition ifaces_packable :: "iface_data \<Rightarrow> bool" where
  "ifaces_packable ifaces \<longleftrightarrow> 0 \<le> id_count ifaces \<and> id_count ifaces \<le> int MAX_IFACE_PREFIXES \<and> length (id_prefixes ifaces) = 512"

text \<open>What the decoder of the kernel makes of a packed policy.\<close>

lemma packed_policy_decodes:
  assumes pack: "pack_policy_v4 calloc kmod lsposed ports masks ifaces active java debug match_mode = Some (ptr, payload)"
    and uids: "distinct kmod" "0 \<notin> set kmod" "distinct lsposed" "0 \<notin> set lsposed"
    and ports: "ports_packable ports" and masks: "masks_packable masks" and ifaces: "ifaces_packable ifaces"
    and mode: "match_mode \<le> 1"
  defines "targets \<equiv> fst (pack_targets 0 ports)" and "rules \<equiv> snd (pack_targets 0 ports)"
  shows "\<exists>s. policy_snapshot_from_v4 True True payload = Inr s \<and> snapshot_wf s \<and>
    set (kmod_uids s) = set kmod \<and> set (lsposed_uids s) = set lsposed \<and> set (port_targets s) = set targets \<and>
    (\<forall>t \<in> set targets. target_rules (port_rules s) t = sort_key rule_key (target_rules rules t)) \<and>
    set (app_hook_masks s) = force_port_hooks ` set masks \<and>
    active_hooks_mask s = active OR port_hook_bits \<and> java_hooks_mask s = java \<and>
    kmod_match_mode s = match_mode \<and> lsposed_match_mode s = match_mode \<and> port_match_mode s = match_mode"
    and "ptr \<noteq> 0" and "592 \<le> length payload" and "length payload \<le> VPNHIDE_POLICY_MAX_BYTES"
proof -
  let ?n = "sections_size 592 (length kmod) (length lsposed) (length targets) (length rules) (length masks)"
  let ?secs = "sections_from 592 (length kmod) (length lsposed) (length ports) (rule_total ports) (length masks)"
  let ?h = "header_v4 ?n ?secs ifaces active java debug match_mode"
  have lens: "length targets = length ports" "length rules = rule_total ports"
    by (simp_all add: targets_def rules_def pack_targets_lengths)
  have c: "count_rules 0 ports = Some (rule_total ports)"
    using pack count_rules_Some [of 0 ports] by (cases "count_rules 0 ports") (simp_all add: pack_policy_v4_def)
  let ?sizes = "[(length kmod, 4), (length lsposed, 4), (length ports, 16), (rule_total ports, 8), (length masks, 16)]"
  obtain m where m: "add_sizes 592 ?sizes = Some m"
    using pack by (cases "add_sizes 592 ?sizes") (simp_all add: pack_policy_v4_def c split: if_splits)
  from pack have small: "m \<le> 16777216" and ptr: "calloc m \<noteq> 0" "ptr = calloc m"
    and payload: "payload = put_header_v4 (header_v4 m ?secs ifaces active java debug match_mode) @ sections_bytes kmod lsposed targets rules masks"
    unfolding targets_def rules_def
    by (auto simp: pack_policy_v4_def c m Let_def split_def simp del: add_sizes.simps split: if_splits)
  have n: "m = ?n" using add_sizes_Some [OF m] by (simp add: sections_size_def lens)
  note payload = payload [unfolded n]
  have le: "?n \<le> 16777216" using small n by simp
  have match: "sections_match 592 ?h kmod lsposed targets rules masks"
    using le ifaces
    by (simp add: sections_match_def lens ifaces_packable_def unat_of_nat_32 sections_from_def header_v4_def)
  have rt: "rule_total ports < 2 ^ 32" using le by (simp add: sections_size_def lens)
  note T = packed_targets_ok [OF ports rt, folded targets_def rules_def]
  have ok: "parts_ok kmod lsposed targets rules masks"
    using uids masks T by (simp add: parts_ok_def masks_packable_def)
  have ic: "unat (hdr_iface_count ?h) \<le> 32" using ifaces
    by (auto simp: header_v4_def ifaces_packable_def unat_eq_nat_uint uint_word_of_int_eq take_bit_int_eq_self nat_le_iff)
  show "ptr \<noteq> 0" using ptr by simp
  have "length payload = ?n"
    using length_sections_bytes [of kmod lsposed targets rules masks 592] match
    by (simp add: payload length_put_header_v4 sections_match_def)
  then show "592 \<le> length payload" "length payload \<le> 16777216" using le by (simp_all add: sections_size_def)
  let ?h3 = "v3_header_of_v4 16 (unat (total_size ?h) - 16) ?h"
  have "unat (section_count (sec_port_rules ?h3)) = length rules"
    using sections_matchD(9) [OF match] by (simp add: v3_header_of_v4_def V4_SECTION_def)
  from build_snapshot_accepts [OF ok this] obtain s where
    s: "build_snapshot ?h3 kmod lsposed targets rules masks = Inr s"
    "set (kmod_uids s) = set kmod" "set (lsposed_uids s) = set lsposed" "set (port_targets s) = set targets"
    "\<forall>t \<in> set targets. target_rules (port_rules s) t = sort_key rule_key (target_rules rules t)"
    "set (app_hook_masks s) = force_port_hooks ` set masks"
    "active_hooks_mask s = active OR port_hook_bits" "java_hooks_mask s = java"
    by (auto simp: v3_header_of_v4_def header_v4_def)
  let ?s = "s\<lparr>kmod_match_mode := match_mode, lsposed_match_mode := match_mode, port_match_mode := match_mode\<rparr>"
  have d: "policy_snapshot_from_v4 True True payload = Inr ?s"
    using from_v4_encode [OF match ic] le mode s(1) by (simp add: payload header_v4_def unat_of_nat_32)
  show "\<exists>s. policy_snapshot_from_v4 True True payload = Inr s \<and> snapshot_wf s \<and>
    set (kmod_uids s) = set kmod \<and> set (lsposed_uids s) = set lsposed \<and> set (port_targets s) = set targets \<and>
    (\<forall>t \<in> set targets. target_rules (port_rules s) t = sort_key rule_key (target_rules rules t)) \<and>
    set (app_hook_masks s) = force_port_hooks ` set masks \<and>
    active_hooks_mask s = active OR port_hook_bits \<and> java_hooks_mask s = java \<and>
    kmod_match_mode s = match_mode \<and> lsposed_match_mode s = match_mode \<and> port_match_mode s = match_mode"
    using d from_v4_wf [OF d] s(2-8) by (intro exI [of _ ?s]) simp
qed

section \<open>What the kernel does with a loaded document\<close>

text \<open>The port decision of the kernel, and what the document says.\<close>

definition kernel_blocks :: "policy_snapshot \<Rightarrow> uid_t \<Rightarrow> u16 \<Rightarrow> u8 \<Rightarrow> bool" where
  "kernel_blocks s uid port proto = (case vpnhide_find_port_target (Some s) uid of
     None \<Rightarrow> False | Some t \<Rightarrow> should_block_port s t port proto)"

definition config_blocks :: "json_ob \<Rightarrow> uid_t \<Rightarrow> u16 \<Rightarrow> u8 \<Rightarrow> bool" where
  "config_blocks config uid port proto = (case port_app_of (apps_of config) uid of
     Some app \<Rightarrow> app_blocks (read_mode config) (compiled_rules (app_rules_of config app)) (uint port) proto
   | None \<Rightarrow> read_mode config = VPNHIDE_LIST_ALLOWLIST \<and> \<not> uid_protected uid)"

definition config_selects :: "json_ob \<Rightarrow> string \<Rightarrow> uid_t \<Rightarrow> bool" where
  "config_selects config switch uid \<longleftrightarrow> \<not> uid_protected uid \<and>
     (uid \<in> selected_uids switch (apps_of config)) \<noteq> (read_mode config = VPNHIDE_LIST_ALLOWLIST)"

definition config_hook_mask :: "json_ob \<Rightarrow> uid_t \<Rightarrow> u32" where
  "config_hook_mask config uid =
     (let g = read_globals config; global = (if lg_have g then lg_kernel_mask g else 0xFFFFFFFF) in
      case find (\<lambda>app. has_mask app \<and> app_uid app = uid) (apps_of config) of
        None \<Rightarrow> global
      | Some app \<Rightarrow> if json_object_has_value app ''kernelHookMask'' then kernel_mask (app_mask g app) else global)"

lemma pack_rule_covers: "rule_covers (pack_rule r) port proto =
    (uint (cr_start r) \<le> uint port \<and> uint port \<le> uint (cr_end r) \<and> (cr_protocol r = 2 \<or> cr_protocol r = proto))"
  by (auto simp: rule_covers_def pack_rule_def word_le_def)

lemma sorted_rules_cover:
  "(\<exists>r \<in> set (sort_key rule_key (map pack_rule rules)). rule_covers r port proto) = port_rule_allows rules (uint port) proto"
  by (auto simp: pack_rule_covers port_rule_allows_def list_ex_iff)

lemma list_all2_set_right: "list_all2 P xs ys \<Longrightarrow> y \<in> set ys \<Longrightarrow> \<exists>x \<in> set xs. P x y"
  by (induction rule: list_all2_induct) auto

lemma list_all2_set_left: "list_all2 P xs ys \<Longrightarrow> x \<in> set xs \<Longrightarrow> \<exists>y \<in> set ys. P x y"
  by (induction rule: list_all2_induct) auto

lemma packed_port_decision:
  assumes wf: "snapshot_wf s" and targets: "set (port_targets s) = set targets"
    and rules: "\<forall>t \<in> set targets. target_rules (port_rules s) t = sort_key rule_key (target_rules rules t)"
    and packs: "list_all2 (packs rules) ports targets"
  shows "kernel_blocks s uid port proto \<longleftrightarrow>
    (\<exists>t \<in> set ports. ct_uid t = uid \<and> target_blocks t (uint port) proto) \<or>
    uid \<notin> ct_uid ` set ports \<and> port_match_mode s = 1 \<and> \<not> uid_protected uid"
proof -
  have uids: "target_uid ` set targets = ct_uid ` set ports" using packs_uids [OF packs] by (metis set_map)
  have blocks: "should_block_port s t' port proto = target_blocks t (uint port) proto"
    if "t' \<in> set targets" "packs rules t t'" for t t'
  proof -
    have w: "target_wf (port_rules s) t'" using snapshot_wfD(5) [OF wf] targets that(1) by simp
    have "target_rules (port_rules s) t' = sort_key rule_key (map pack_rule (ct_rules t))"
      using rules that by (simp add: packs_def)
    then show ?thesis using should_block_port_iff [OF w, of port proto] that(2) sorted_rules_cover [of "ct_rules t" port proto]
      by (simp add: packs_def target_blocks_def)
  qed
  have uniq: "u = t'" if "u \<in> set targets" "t' \<in> set targets" "target_uid u = target_uid t'" for u t'
    using ascending_key_inj [OF snapshot_wfD(3) [OF wf], of u t'] that targets by simp
  show ?thesis
  proof (cases "uid \<in> ct_uid ` set ports")
    case True
    then have "uid \<in> target_uid ` set targets" by (simp only: uids)
    then obtain t' where t': "t' \<in> set targets" "target_uid t' = uid" by blast
    then have f: "vpnhide_find_port_target (Some s) uid = Some t'" using find_port_target_iff [OF wf] targets by simp
    have "target_blocks t (uint port) proto = should_block_port s t' port proto" if t: "t \<in> set ports" "ct_uid t = uid" for t
    proof -
      from list_all2_set_left [OF packs t(1)] obtain u where u: "u \<in> set targets" "packs rules t u" by auto
      with t(2) t' have "u = t'" by (intro uniq) (simp_all add: packs_def)
      then show ?thesis using blocks [OF u] by simp
    qed
    then show ?thesis using True f by (auto simp: kernel_blocks_def)
  next
    case False
    then have none: "\<not> (\<exists>t \<in> set targets. target_uid t = uid)" using uids by auto
    show ?thesis
    proof (cases "vpnhide_find_port_target (Some s) uid")
      case None
      then have "\<not> (port_match_mode s = 1 \<and> \<not> uid_protected uid)"
        using find_port_target_iff [OF wf, of uid deny_all] False uids targets by auto
      then show ?thesis using None False by (auto simp: kernel_blocks_def)
    next
      case (Some t)
      then show ?thesis using find_port_target_iff [OF wf, of uid t] False none targets target_wf_deny_all_block
        by (auto simp: kernel_blocks_def)
    qed
  qed
qed

lemma uid_protected_core: "uid_protected uid = core_uid uid"
  by (auto simp: uid_protected_def core_uid_def)

lemma port_app_of_None: "port_app_of apps uid = None \<longleftrightarrow> uid \<notin> app_uid ` {app \<in> set apps. port_app_eligible app}"
  by (auto simp: port_app_of_def find_None_iff)

lemma compiled_port_decision:
  assumes ports: "vpnhide_resolve_port_rules realloc config summary = Inr (ports, summary')" and mode: "ps_mode summary = read_mode config"
    and dec: "kernel_blocks s uid port proto \<longleftrightarrow>
      (\<exists>t \<in> set (pp_targets ports). ct_uid t = uid \<and> target_blocks t (uint port) proto) \<or>
      uid \<notin> ct_uid ` set (pp_targets ports) \<and> read_mode config = VPNHIDE_LIST_ALLOWLIST \<and> \<not> uid_protected uid"
    and proto: "proto = VH_PROTO_TCP \<or> proto = VH_PROTO_UDP"
  shows "kernel_blocks s uid port proto = config_blocks config uid port proto"
proof (cases "port_app_of (apps_of config) uid")
  case None
  then have "uid \<notin> ct_uid ` set (pp_targets ports)"
    using resolve_port_rules_Inr(2) [OF ports] by (simp add: port_app_of_None)
  then show ?thesis using dec None by (auto simp: config_blocks_def)
next
  case (Some app)
  then have mem: "uid \<in> ct_uid ` set (pp_targets ports)"
    using resolve_port_rules_Inr(2) [OF ports] port_app_of_None [of "apps_of config" uid] by auto
  have u: "uint port < 65536" "0 \<le> uint port" using uint_lt2p [of port] by auto
  have "target_blocks t (uint port) proto = config_blocks config uid port proto"
    if t: "t \<in> set (pp_targets ports)" "ct_uid t = uid" for t
  proof -
    from resolve_port_rules_Inr(3) [OF ports t(1)] t(2) Some have
      r: "resolve_app_ports realloc (read_mode config) (json_object_get_array (Some config) ''portRules'')
        (json_object_get_array (Some config) ''massPortRules'') app = Inr t" by (simp add: mode)
    from resolve_app_ports_Inr(5) [OF r u(2,1) proto] show ?thesis
      by (simp add: config_blocks_def Some app_rules_of_def)
  qed
  then show ?thesis using dec mem by blast
qed

end
