(* ===== verification/Ctl_Enforce.thy ===== *)
theory Ctl_Enforce
  imports Ctl_Load
begin

text \<open>
  What a loaded document does: the steps of \<^verbatim>\<open>load\<close> in kmod/vpnhide_ctl.c composed with the decoder,
  the publication and the readers of the kernel module. The lemmas of the first section take the parts of
  a payload apart, those of the second put the decisions of the kernel together, and the
  properties at the end state the effect of the commands of the control program.
\<close>

section \<open>The parts of a payload\<close>

abbreviation (input) mask_app_of :: "json_ob list \<Rightarrow> uid_t \<Rightarrow> json_ob option" where
  "mask_app_of apps uid \<equiv> find (\<lambda>app. has_mask app \<and> app_uid app = uid) apps"

lemma app_mask_uid [simp]: "mask_uid (app_mask g app) = app_uid app"
  by (simp add: app_mask_def Let_def)

lemma masks_loop:
  assumes "each (mask_app realloc g) apps \<lparr>mv_items = [], mv_capacity = 0\<rparr> = Inr masks"
  shows "distinct (map mask_uid (mv_items masks))"
    "mask_uid ` set (mv_items masks) = app_uid ` {app \<in> set apps. has_mask app}"
    "\<And>m. m \<in> set (mv_items masks) \<Longrightarrow> \<exists>app. mask_app_of apps (mask_uid m) = Some app \<and> m = app_mask g app"
proof -
  have "distinct (map mask_uid (mv_items masks)) \<and>
    mask_uid ` set (mv_items masks) = mask_uid ` set (mv_items \<lparr>mv_items = [], mv_capacity = 0\<rparr>) \<union> app_uid ` {app \<in> set apps. has_mask app} \<and>
    (\<forall>m \<in> set (mv_items masks). m \<in> set (mv_items \<lparr>mv_items = [], mv_capacity = 0\<rparr>) \<or>
       mask_uid m \<notin> mask_uid ` set (mv_items \<lparr>mv_items = [], mv_capacity = 0\<rparr>) \<and>
       (\<exists>app. mask_app_of apps (mask_uid m) = Some app \<and> m = app_mask g app))"
  proof (rule each_first_wins [where items = mv_items, OF _ _ assms])
    fix app s s' assume "mask_app realloc g app s = Inr s'"
    then show "mv_items s' = mv_items s \<and> (\<not> has_mask app \<or> app_uid app \<in> mask_uid ` set (mv_items s)) \<or>
        has_mask app \<and> app_uid app \<notin> mask_uid ` set (mv_items s) \<and> (\<exists>m. m = app_mask g app \<and> mv_items s' = mv_items s @ [m])"
      by (auto simp: mask_app_def append_app_hook_mask_def Let_def split: if_splits option.splits)
  qed simp_all
  then show "distinct (map mask_uid (mv_items masks))"
    "mask_uid ` set (mv_items masks) = app_uid ` {app \<in> set apps. has_mask app}"
    "\<And>m. m \<in> set (mv_items masks) \<Longrightarrow> \<exists>app. mask_app_of apps (mask_uid m) = Some app \<and> m = app_mask g app"
    by auto
qed

lemma app_mask_accepted: "has_mask app \<Longrightarrow> \<not> mask_rejected (app_mask g app)"
  by (simp add: mask_rejected_def app_mask_def has_mask_def Let_def)

lemma masks_loop_packable:
  assumes "each (mask_app realloc g) apps \<lparr>mv_items = [], mv_capacity = 0\<rparr> = Inr masks"
  shows "masks_packable (mv_items masks)"
  using masks_loop [OF assms] app_mask_accepted
  by (fastforce simp: masks_packable_def list_all_iff find_Some_iff)

lemma length_iface_prefix [simp]: "length (iface_prefix p) = MAX_IFACE_LEN"
  by (simp add: iface_prefix_def Let_def split: option.split)

lemma read_ifaces_packable: "ifaces_packable (read_ifaces config)"
proof -
  let ?n = "min (json_array_get_count (json_object_get_array (Some config) ''ifacePrefixes'')) MAX_IFACE_PREFIXES"
  have "length (concat (map (\<lambda>i. iface_prefix (f i)) [0..<n])) = n * 16" for f n by (induction n) simp_all
  then show ?thesis by (simp add: ifaces_packable_def read_ifaces_def Let_def)
qed

lemma rule_in_range_ports:
  assumes "vpnhide_resolve_port_rules realloc config summary = Inr (ports, summary')"
  shows "ports_packable (pp_targets ports)"
proof -
  have "ct_mode t \<le> 2 \<and> list_all rule_in_range (ct_rules t) \<and> ct_uid t \<noteq> 0" if "t \<in> set (pp_targets ports)" for t
  proof -
    from resolve_port_rules_Inr(3) [OF assms that] obtain app where
      app: "port_app_of (apps_of config) (ct_uid t) = Some app" and
      r: "resolve_app_ports realloc (ps_mode summary) (json_object_get_array (Some config) ''portRules'')
        (json_object_get_array (Some config) ''massPortRules'') app = Inr t" by blast
    from app have "ct_uid t \<noteq> 0" by (auto simp: port_app_of_def find_Some_iff port_app_eligible_def core_uid_def)
    moreover from resolve_app_ports_Inr(2) [OF r] have "ct_mode t \<le> 2" by (rule order_trans) simp
    ultimately show ?thesis using resolve_app_ports_Inr(3) [OF r] by simp
  qed
  then show ?thesis using resolve_port_rules_Inr(1) [OF assms] by (auto simp: ports_packable_def list_all_iff)
qed

lemma pack_rule_total:
  assumes "pack_policy_v4 calloc kmod lsposed ports masks ifaces active java debug match_mode = Some r"
  shows "rule_total ports < 2 ^ 32"
  using assms count_rules_Some [of 0 ports]
  by (cases "count_rules 0 ports") (auto simp: pack_policy_v4_def UINT32_MAX_def split: if_splits)

lemma from_v4_alloc:
  "policy_snapshot_from_v4 a b payload = Inr s \<Longrightarrow> policy_snapshot_from_v4 True True payload = Inr s"
  by (auto simp: policy_snapshot_from_v4_def policy_snapshot_from_v3_def Let_def split: if_splits sum.splits)

lemma globals_allowlist: "lg_allowlist (read_globals config) \<longleftrightarrow> read_mode config = VPNHIDE_LIST_ALLOWLIST"
  by (auto simp: read_globals_def read_mode_def split: option.split)

section \<open>The decisions of the kernel\<close>

text \<open>A snapshot enforces a document when the readers of the kernel answer what the document says.\<close>

definition enforces :: "json_ob \<Rightarrow> policy_snapshot \<Rightarrow> bool" where
  "enforces config s \<longleftrightarrow>
     (\<forall>uid. is_target_uid_val (Some s) uid = config_selects config ''kmod'' uid) \<and>
     (\<forall>uid. vpnhide_uid_matches_mode (lsposed_uids s) (lsposed_match_mode s) uid = config_selects config ''lsposed'' uid) \<and>
     (\<forall>h uid. is_hook_active (Some s) h uid = bit (config_hook_mask config uid) (hook_bit h)) \<and>
     (\<forall>uid port proto. proto = VH_PROTO_TCP \<or> proto = VH_PROTO_UDP \<longrightarrow>
        kernel_blocks s uid port proto = config_blocks config uid port proto)"

lemma port_mask_bits: "VPNHIDE_PORT_HOOK_MASK = port_hook_bits"
  by (simp add: VPNHIDE_PORT_HOOK_MASK_def port_hook_bits_def)

lemma global_mask_forced:
  "(if lg_have (read_globals config) then lg_kernel_mask (read_globals config) else 0xFFFFFFFF) OR port_hook_bits =
   (if lg_have (read_globals config) then lg_kernel_mask (read_globals config) else 0xFFFFFFFF)"
  by (auto simp: read_globals_def port_mask_bits port_hook_bits_def or.assoc split: option.split)

lemma app_mask_forced: "kernel_mask (force_port_hooks (app_mask g app)) = kernel_mask (app_mask g app)"
  by (simp add: force_port_hooks_def app_mask_def port_mask_bits or.assoc Let_def)

lemma force_port_hooks_fields [simp]:
  "mask_uid (force_port_hooks m) = mask_uid m" "has_kernel_override (force_port_hooks m) = has_kernel_override m"
  by (simp_all add: force_port_hooks_def)

lemma config_mask_decision:
  assumes wf: "snapshot_wf s" and active: "active_hooks_mask s =
      (if lg_have (read_globals config) then lg_kernel_mask (read_globals config) else 0xFFFFFFFF) OR port_hook_bits"
    and masks: "set (app_hook_masks s) = force_port_hooks ` set (mv_items masks)"
    and loop: "each (mask_app realloc (read_globals config)) (apps_of config) \<lparr>mv_items = [], mv_capacity = 0\<rparr> = Inr masks"
  shows "is_hook_active (Some s) h uid = bit (config_hook_mask config uid) (hook_bit h)"
proof -
  let ?g = "read_globals config"
  note L = masks_loop [OF loop]
  have lookup: "lookup_app_kernel_mask (Some s) uid =
    (case mask_app_of (apps_of config) uid of
       Some app \<Rightarrow> if json_object_has_value app ''kernelHookMask'' then Some (kernel_mask (app_mask ?g app)) else None
     | None \<Rightarrow> None)"
  proof -
    have "(lookup_app_kernel_mask (Some s) uid = Some k) =
      (\<exists>app. mask_app_of (apps_of config) uid = Some app \<and> json_object_has_value app ''kernelHookMask'' \<and> kernel_mask (app_mask ?g app) = k)" for k
    proof
      assume "lookup_app_kernel_mask (Some s) uid = Some k"
      then obtain m where m: "m \<in> set (mv_items masks)" "mask_uid m = uid" "has_kernel_override m \<noteq> 0" "kernel_mask (force_port_hooks m) = k"
        by (auto simp: app_kernel_mask_iff [OF wf] masks)
      from L(3) [OF m(1)] m obtain app where "mask_app_of (apps_of config) uid = Some app" "m = app_mask ?g app" by auto
      with m show "\<exists>app. mask_app_of (apps_of config) uid = Some app \<and> json_object_has_value app ''kernelHookMask'' \<and> kernel_mask (app_mask ?g app) = k"
        by (auto simp: app_mask_forced) (auto simp: app_mask_def Let_def split: if_splits)
    next
      assume "\<exists>app. mask_app_of (apps_of config) uid = Some app \<and> json_object_has_value app ''kernelHookMask'' \<and> kernel_mask (app_mask ?g app) = k"
      then obtain app where app: "mask_app_of (apps_of config) uid = Some app" "json_object_has_value app ''kernelHookMask''" "kernel_mask (app_mask ?g app) = k"
        by blast
      then have "uid \<in> mask_uid ` set (mv_items masks)" unfolding L(2) by (auto simp: find_Some_iff)
      then obtain m where m: "m \<in> set (mv_items masks)" "mask_uid m = uid" by blast
      from L(3) [OF m(1)] m(2) app(1) have "m = app_mask ?g app" by simp
      then show "lookup_app_kernel_mask (Some s) uid = Some k"
        using m app by (auto simp: app_kernel_mask_iff [OF wf] masks app_mask_forced intro!: bexI [of _ m]) (simp add: app_mask_def Let_def)
    qed
    then show ?thesis by (intro option_eqI) (simp split: option.split)
  qed
  show ?thesis
    unfolding is_hook_active_lookup lookup active global_mask_forced
    by (auto simp: config_hook_mask_def Let_def split: option.split)
qed

lemma selection_decision:
  assumes "ascending (\<lambda>u. u) uids" "set uids = selected_uids switch (apps_of config)"
    and "mode = (if read_mode config = VPNHIDE_LIST_ALLOWLIST then 1 else 0)"
  shows "vpnhide_uid_matches_mode uids mode uid = config_selects config switch uid"
  using uid_matches_mode_iff [OF assms(1), of mode uid] assms(2,3) by (auto simp: config_selects_def)

text \<open>Everything the program packs is accepted by the kernel and means what the document says.\<close>

lemma build_payload_decodes:
  assumes "build_payload realloc calloc parsed = Inr (ptr, payload)"
  obtains config s where "json_value_get_object parsed = Some config" "policy_snapshot_from_v4 True True payload = Inr s"
    "snapshot_wf s" "enforces config s" "ptr \<noteq> 0" "592 \<le> length payload" "length payload \<le> VPNHIDE_POLICY_MAX_BYTES"
proof -
  from assms obtain config masks targets lsposed summary ports summary' where
    config: "json_value_get_object parsed = Some config" and
    masks: "each (mask_app realloc (read_globals config)) (apps_of config) \<lparr>mv_items = [], mv_capacity = 0\<rparr> = Inr masks" and
    targets: "vpnhide_resolve_targets realloc config = Inr (targets, lsposed, summary)" and
    ports: "vpnhide_resolve_port_rules realloc config summary = Inr (ports, summary')" and
    pack: "pack_policy_v4 calloc (sort_uids (uv_items targets)) (sort_uids (uv_items lsposed))
      (pp_targets ports) (mv_items masks) (read_ifaces config)
      (if lg_have (read_globals config) then lg_kernel_mask (read_globals config) else 0xFFFFFFFF)
      (if lg_have (read_globals config) then lg_java_mask (read_globals config) else 0xFFFFFFFF)
      (lg_have (read_globals config) \<and> lg_debug (read_globals config) \<noteq> 0)
      (if lg_allowlist (read_globals config) then VPNHIDE_MATCH_EXCLUDE else VPNHIDE_MATCH_INCLUDE) = Some (ptr, payload)"
    by (auto simp: build_payload_def Let_def each_objects split: if_splits option.splits sum.splits)
  note T = resolve_targets_Inr [OF targets]
  have not0: "0 \<notin> selected_uids switch apps" for switch apps using selected_not_core [of 0] by (auto simp: core_uid_def)
  have d: "distinct (sort_uids (uv_items targets))" "0 \<notin> set (sort_uids (uv_items targets))"
    "distinct (sort_uids (uv_items lsposed))" "0 \<notin> set (sort_uids (uv_items lsposed))"
    using T not0 by (simp_all add: sort_uids_sort)
  have m: "(if lg_allowlist (read_globals config) then VPNHIDE_MATCH_EXCLUDE else VPNHIDE_MATCH_INCLUDE) \<le> 1" by simp
  note D = packed_policy_decodes [OF pack d rule_in_range_ports [OF ports] masks_loop_packable [OF masks] read_ifaces_packable m]
  from D(1) obtain s where s: "policy_snapshot_from_v4 True True payload = Inr s" "snapshot_wf s"
    "set (kmod_uids s) = set (uv_items targets)" "set (lsposed_uids s) = set (uv_items lsposed)"
    "set (port_targets s) = set (fst (pack_targets 0 (pp_targets ports)))"
    "\<forall>t \<in> set (fst (pack_targets 0 (pp_targets ports))).
       target_rules (port_rules s) t = sort_key rule_key (target_rules (snd (pack_targets 0 (pp_targets ports))) t)"
    "set (app_hook_masks s) = force_port_hooks ` set (mv_items masks)"
    "active_hooks_mask s = (if lg_have (read_globals config) then lg_kernel_mask (read_globals config) else 0xFFFFFFFF) OR port_hook_bits"
    "kmod_match_mode s = (if read_mode config = VPNHIDE_LIST_ALLOWLIST then 1 else 0)"
    "lsposed_match_mode s = (if read_mode config = VPNHIDE_LIST_ALLOWLIST then 1 else 0)"
    "port_match_mode s = (if read_mode config = VPNHIDE_LIST_ALLOWLIST then 1 else 0)"
    by (simp add: sort_uids_sort globals_allowlist) blast
  have "kernel_blocks s uid port proto = config_blocks config uid port proto" if "proto = VH_PROTO_TCP \<or> proto = VH_PROTO_UDP" for uid port proto
  proof (rule compiled_port_decision [OF ports T(5) _ that])
    have "rule_total (pp_targets ports) < 2 ^ 32" by (rule pack_rule_total [OF pack])
    note P = packed_targets_ok(2) [OF rule_in_range_ports [OF ports] this]
    show "kernel_blocks s uid port proto \<longleftrightarrow>
      (\<exists>t \<in> set (pp_targets ports). ct_uid t = uid \<and> target_blocks t (uint port) proto) \<or>
      uid \<notin> ct_uid ` set (pp_targets ports) \<and> read_mode config = VPNHIDE_LIST_ALLOWLIST \<and> \<not> uid_protected uid"
      using packed_port_decision [OF s(2,5,6) P, of uid port proto] by (simp add: s(11))
  qed
  moreover have "is_target_uid_val (Some s) uid = config_selects config ''kmod'' uid" for uid
    using selection_decision [OF snapshot_wfD(1) [OF s(2)], of "''kmod''" config] s(3,9) T(2) by (simp add: is_target_uid_val_def)
  moreover have "vpnhide_uid_matches_mode (lsposed_uids s) (lsposed_match_mode s) uid = config_selects config ''lsposed'' uid" for uid
    using selection_decision [OF snapshot_wfD(2) [OF s(2)], of "''lsposed''" config] s(4,10) T(4) by simp
  ultimately have "enforces config s" using config_mask_decision [OF s(2) s(8,7) masks] by (simp add: enforces_def)
  from that [OF config s(1,2) this D(2-4)] show ?thesis .
qed

lemma handle_set_policy:
  "handle_vpnhide_ioctl env (VH_SET_POLICY request user) k =
     (case (if capable_net_admin env then ioctl_set_policy (ioctl_alloc env) request user k else (Some EPERM, k)) of
        (r, k') \<Rightarrow> (r, No_answer, k'))"
  by (simp add: handle_vpnhide_ioctl_def set_answer_def split_def Let_def)

section \<open>The statistics loop\<close>





section \<open>Properties\<close>

text \<open>A small document: one application, hidden, with one port rule and a hook mask of its own.\<close>

definition sample_app :: json_ob where
  "sample_app = object_of [(''uid'', Number 10050), (''packageName'', String ''org.example''), (''kmod'', Boolean True),
     (''portHiding'', Boolean True), (''kernelHookMask'', Number 4)]"

definition sample_config :: json_ob where
  "sample_config = object_of [(''apps'', Array [Object sample_app, Null]), (''portRules'', Array sample_port_rules)]"

lemma sample_app_members:
  "json_object_get_value sample_app ''uid'' = Some (Number 10050)"
  "json_object_get_value sample_app ''packageName'' = Some (String ''org.example'')"
  "json_object_get_value sample_app ''kmod'' = Some (Boolean True)"
  "json_object_get_value sample_app ''portHiding'' = Some (Boolean True)"
  "json_object_get_value sample_app ''kernelHookMask'' = Some (Number 4)"
  "json_object_get_value sample_app ''javaHookMask'' = None"
  "json_object_get_value sample_app ''lsposed'' = None"
  "json_object_get_value sample_app ''userId'' = None"
  by (simp_all add: sample_app_def object_of_get NUL_def)

lemma sample_config_members:
  "json_object_get_value sample_config ''apps'' = Some (Array [Object sample_app, Null])"
  "json_object_get_value sample_config ''portRules'' = Some (Array sample_port_rules)"
  "json_object_get_value sample_config ''massPortRules'' = None"
  "json_object_get_value sample_config ''globalConfig'' = None"
  "json_object_get_value sample_config ''ifacePrefixes'' = None"
  by (simp_all add: sample_config_def object_of_get NUL_def)

lemma sample_apps: "apps_of sample_config = [sample_app]"
  by (simp add: objects_of_def sample_config_members member_simps)

lemmas sample_member_simps = sample_apps sample_config_members sample_app_members member_simps

lemma sample_app_uid: "app_uid sample_app = 10050"
  by (simp add: app_uid_def sample_member_simps as_uint_def trunc_toward_zero_def clamp_def)

lemma sample_mode: "read_mode sample_config = VPNHIDE_LIST_BLACKLIST"
  by (simp add: read_mode_def sample_member_simps)

lemma grow_first: "element_size \<in> {4, 8, 16, 32} \<Longrightarrow> grow_array (\<lambda>_. True) 0 0 element_size = Inr 16"
proof -
  have "double_past 65 16 0 = Some 16" using double_past.simps(2) [of 64 16 0] by simp
  then show "element_size \<in> {4, 8, 16, 32} \<Longrightarrow> grow_array (\<lambda>_. True) 0 0 element_size = Inr 16"
    by (auto simp: grow_array_def SIZE_MAX_def)
qed

lemma sample_targets:
  "\<exists>summary. vpnhide_resolve_targets (\<lambda>_. True) sample_config = Inr (\<lparr>uv_items = [10050], uv_capacity = 16\<rparr>, empty_uids, summary) \<and>
     ps_mode summary = VPNHIDE_LIST_BLACKLIST"
  unfolding vpnhide_resolve_targets_def each_objects Let_def sample_apps
  by (simp add: target_app_def add_switched_def add_uid_distinct_def switched_def sample_app_uid core_uid_def empty_uids_def
      grow_first sample_mode sample_app_members member_simps)

lemma sample_masks:
  "each_object (json_object_get_array (Some sample_config) ''apps'') (mask_app (\<lambda>_. True) (read_globals sample_config)) \<lparr>mv_items = [], mv_capacity = 0\<rparr> =
     Inr \<lparr>mv_items = [app_mask (read_globals sample_config) sample_app], mv_capacity = 16\<rparr>"
  unfolding each_objects sample_apps
  by (simp add: mask_app_def has_mask_def append_app_hook_mask_def sample_app_uid SIZE_MAX_def json_object_has_value_def sample_app_members)

lemma sample_app_rules: "app_rules_of sample_config sample_app = rules_for (Some sample_port_rules) None (Some ''org.example'') 0 10050"
  by (simp add: app_rules_of_def rules_of_app_def sample_app_uid sample_member_simps as_int_def trunc_toward_zero_def clamp_def)

lemma sample_ports:
  assumes "ps_mode summary = VPNHIDE_LIST_BLACKLIST"
  shows "\<exists>ports summary'. vpnhide_resolve_port_rules (\<lambda>_. True) sample_config summary = Inr (ports, summary') \<and>
    length (pp_targets ports) = 1 \<and> rule_total (pp_targets ports) = 1"
proof -
  have n: "length (objects_of (Some sample_port_rules)) + length (objects_of None) < 2 ^ 57"
    by (simp add: objects_of_def sample_port_rules_def json_value_get_object_def)
  have u: "as_int (json_object_get_number (Some sample_app) ''userId'') = 0"
    by (simp add: sample_member_simps as_int_def trunc_toward_zero_def clamp_def)
  from named_rules_total [OF sample_rules_valid n, of True] obtain t where
    t: "resolve_named_port_rules (\<lambda>_. True) (Some sample_port_rules) None (Some ''org.example'') 0 10050 True zero_target = Inr t" ..
  have "length (ct_rules t) = 1"
    using named_rules_Inr(2) [OF t] by (simp add: zero_target_def sample_compiled)
  moreover have "json_object_get_array (Some sample_config) ''portRules'' = Some sample_port_rules"
    "json_object_get_array (Some sample_config) ''massPortRules'' = None"
    "json_object_get_string (Some sample_app) ''packageName'' = Some ''org.example''"
    "json_object_get_boolean (Some sample_app) ''portHiding'' = 1"
    by (simp_all add: sample_member_simps)
  ultimately show ?thesis using t u assms unfolding vpnhide_resolve_port_rules_def each_objects Let_def sample_apps
    by (simp add: port_app_def resolve_app_ports_def switched_def sample_app_uid core_uid_def grow_first)
qed

lemma sample_payload: "\<exists>pp. build_payload (\<lambda>_. True) (\<lambda>_. 1) (Some (Object sample_config)) = Inr pp"
proof -
  from sample_targets obtain summary where t: "vpnhide_resolve_targets (\<lambda>_. True) sample_config =
      Inr (\<lparr>uv_items = [10050], uv_capacity = 16\<rparr>, empty_uids, summary)" "ps_mode summary = VPNHIDE_LIST_BLACKLIST" by blast
  from sample_ports [OF t(2)] obtain ports summary' where
    p: "vpnhide_resolve_port_rules (\<lambda>_. True) sample_config summary = Inr (ports, summary')"
    "length (pp_targets ports) = 1" "rule_total (pp_targets ports) = 1" by blast
  have c: "count_rules 0 (pp_targets ports) = Some 1" using count_rules_total [of 0 "pp_targets ports"] p(3) by (simp add: SIZE_MAX_def)
  show ?thesis using t p(1,2) sample_masks
    by (simp add: build_payload_def json_value_get_type_def json_value_get_object_def pack_policy_v4_def c sort_uids_sort empty_uids_def
        policy_add_size_def SIZE_MAX_def UINT32_MAX_def split_def Let_def)
qed

definition sample_ioctl_env :: ioctl_env where
  "sample_ioctl_env = \<lparr>capable_net_admin = True, ioctl_alloc = \<lambda>_. True, ioctl_copied = \<lambda>_. True, ioctl_hz = 250,
     ioctl_jiffies = 0, ioctl_ktime = 0, ioctl_eventfd = \<lambda>_. Inl EINVAL\<rparr>"

lemma sample_config_blocks:
  "config_blocks sample_config 10050 443 0" "\<not> config_blocks sample_config 10050 443 1" "\<not> config_blocks sample_config 10051 443 0"
proof -
  have "port_app_eligible sample_app"
    by (simp add: port_app_eligible_def switched_def sample_app_uid core_uid_def sample_app_members member_simps)
  then have "port_app_of [sample_app] 10050 = Some sample_app" "port_app_of [sample_app] 10051 = None"
    by (simp_all add: port_app_of_def sample_app_uid)
  then show "config_blocks sample_config 10050 443 0" "\<not> config_blocks sample_config 10050 443 1" "\<not> config_blocks sample_config 10051 443 0"
    unfolding config_blocks_def sample_apps
    by (simp_all add: sample_mode sample_app_rules sample_compiled app_blocks_def port_rule_allows_def)
qed

text \<open>
  C1: The effect of loading a document. A load that fails for any reason leaves the state of the kernel
  as it was, and the kernel never rejects a payload the program built: with the privilege and memory in the kernel, the
  only failures are the program's own. After a load that succeeds the kernel holds a snapshot that enforces
  the document: for every UID the kernel and the framework layer select it exactly when the
  applications and the list mode of the document say so, each hook is active exactly when its bit is set in the mask the document
  gives that UID, and every TCP and UDP port is blocked exactly when the rules of the document block it.
\<close>

theorem load_enforces_document:
  assumes "kernel_inv k" and "ctl_load realloc calloc env parsed k = (r, k')"
  shows "kernel_inv k' \<and>
    (case r of
       Some e \<Rightarrow> k' = k \<and> (capable_net_admin env \<and> (\<forall>i. ioctl_alloc env i) \<longrightarrow> (\<forall>e'. e \<noteq> Not_Applied e'))
     | None \<Rightarrow> \<exists>config s. parsed = Some (Object config) \<and> global_policy k' = Some s \<and> snapshot_wf s \<and> enforces config s)"
proof (cases "build_payload realloc calloc parsed")
  case (Inl e)
  with assms show ?thesis
    by (auto simp: ctl_load_def build_payload_def Let_def split: if_splits option.splits sum.splits)
next
  case (Inr pp)
  obtain ptr payload where pp: "pp = (ptr, payload)" by (cases pp)
  from build_payload_decodes [OF Inr [unfolded pp]] obtain config s where
    c: "json_value_get_object parsed = Some config" "policy_snapshot_from_v4 True True payload = Inr s" "snapshot_wf s" "enforces config s"
    and p: "ptr \<noteq> 0" "592 \<le> length payload" "length payload \<le> 16777216" .
  have parsed: "parsed = Some (Object config)"
    using c(1) by (auto simp: json_value_get_object_def split: option.splits json_value.splits)
  let ?alloc = "ioctl_alloc env"
  let ?request = "Some \<lparr>abi_version = 4, payload_size = of_nat (length payload), payload_ptr = ptr, expected_generation = 0\<rparr>"
  let ?call = "if capable_net_admin env then ioctl_set_policy ?alloc ?request (Some payload) k else (Some EPERM, k)"
  have load: "(r, k') = (case ?call of (Some e, k') \<Rightarrow> (Some (Not_Applied e), k') | (None, k') \<Rightarrow> (None, k'))"
    using assms(2) by (cases ?call) (simp add: ctl_load_def Inr pp handle_set_policy split: option.splits)
  have call: "?call = (if \<not> capable_net_admin env then (Some EPERM, k) else if \<not> ?alloc 0 then (Some ENOMEM, k)
      else vpnhide_apply_policy_v4 ?alloc payload 0 k)"
    using p by (simp add: ioctl_set_policy_def Let_def unat_of_nat_32)
  show ?thesis
  proof (cases "fst ?call")
    case None
    then have "policy_snapshot_from_v4 (?alloc 3) (?alloc 1) payload = Inr s"
      using c(2) from_v4_alloc [of "?alloc 3" "?alloc 1" payload]
      by (cases "policy_snapshot_from_v4 (?alloc 3) (?alloc 1) payload") (auto simp: call vpnhide_apply_policy_v4_def split: if_splits)
    with None have "?call = publish_policy_snapshot (?alloc 2) s 0 k" by (auto simp: call vpnhide_apply_policy_v4_def split: if_splits)
    with None load have pub: "publish_policy_snapshot (?alloc 2) s 0 k = (None, k')" "r = None" by (auto split: prod.splits option.splits)
    from pub(1) have "global_policy k' = Some s" by (cases rule: publish_cases) auto
    with parsed c pub publish_inv [OF assms(1) c(3), of "?alloc 2" 0] show ?thesis by auto
  next
    case (Some e)
    with set_policy.call_failed [of ?alloc ?request "Some payload" k] load
    have r: "r = Some (Not_Applied e)" "k' = k" by (auto split: prod.splits if_splits)
    have "\<not> (capable_net_admin env \<and> (\<forall>i. ?alloc i))"
    proof
      assume "capable_net_admin env \<and> (\<forall>i. ?alloc i)"
      then have "?call = publish_policy_snapshot True s 0 k" using c(2) unfolding call by (simp add: vpnhide_apply_policy_v4_def)
      with Some publish_succeeds [of 0 k s] show False by auto
    qed
    with r assms(1) show ?thesis by simp
  qed
qed

theorem load_enforces_document_witness:
  "\<exists>k' s. ctl_load (\<lambda>_. True) (\<lambda>_. 1) sample_ioctl_env (Some (Object sample_config)) module_zero = (None, k') \<and>
     global_policy k' = Some s \<and> is_target_uid_val (Some s) 10050 \<and> \<not> is_target_uid_val (Some s) 10051 \<and>
     is_hook_active (Some s) HOOK_CONNECT 10050 \<and>
     kernel_blocks s 10050 443 0 \<and> \<not> kernel_blocks s 10050 443 1 \<and> \<not> kernel_blocks s 10051 443 0"
proof -
  obtain r k' where load: "ctl_load (\<lambda>_. True) (\<lambda>_. 1) sample_ioctl_env (Some (Object sample_config)) module_zero = (r, k')" by fastforce
  note E = load_enforces_document [OF module_zero_inv load]
  have r: "r = None"
    using sample_payload load E by (auto simp: ctl_load_def sample_ioctl_env_def split: option.splits prod.splits)
  with E obtain s where s: "global_policy k' = Some s" "enforces sample_config s" by auto
  note e = s(2) [unfolded enforces_def]
  have sel: "selected_uids ''kmod'' [sample_app] = {10050}"
    by (auto simp: switched_def core_uid_def sample_app_uid sample_member_simps)
  have "is_target_uid_val (Some s) 10050" "\<not> is_target_uid_val (Some s) 10051"
    using e sel by (simp_all add: config_selects_def sample_apps sample_mode uid_protected_def)
  moreover have "is_hook_active (Some s) HOOK_CONNECT 10050"
    using e by (simp add: config_hook_mask_def sample_apps has_mask_def sample_app_uid json_object_has_value_def sample_app_members
        app_mask_def VPNHIDE_PORT_HOOK_MASK_def bit_simps Let_def)
  moreover have "kernel_blocks s 10050 443 0" "\<not> kernel_blocks s 10050 443 1" "\<not> kernel_blocks s 10051 443 0"
    using e sample_config_blocks by simp_all
  ultimately show ?thesis using load r s(1) by blast
qed



text \<open>
  Validation is a faithful rehearsal. \<^verbatim>\<open>validate\<close> and \<^verbatim>\<open>preview\<close> accept a document exactly when
  a load of it, under the same allocations, gets past the parsing and both compilations; what may still fail then
  is memory for the hook masks, the size limit of the payload or the kernel. When they reject it, a load has the same
  error, or runs out of memory for the masks before it gets there, and leaves the kernel unchanged.
\<close>

theorem validate_predicts_load:
  "case ctl_validate realloc preview parsed of
     Inr _ \<Rightarrow> fst (ctl_load realloc calloc env parsed k) \<in> {None, Some Mask_Memory, Some Not_Serializable} \<union> range (\<lambda>e. Some (Not_Applied e))
   | Inl e \<Rightarrow> fst (ctl_load realloc calloc env parsed k) \<in> {Some e, Some Mask_Memory} \<and> snd (ctl_load realloc calloc env parsed k) = k"
  unfolding ctl_load_def ctl_validate_def build_payload_def Let_def
  by (simp split: option.split sum.split prod.split)

text \<open>
  The exchange sort of the UID lists is the sort: for every array its two nested loops, as they
  swap in place, end with the elements of the array in ascending order.
\<close>

theorem sort_uids_sorts:
  "sort_uids arr = sort arr \<and> sorted (sort_uids arr) \<and> mset (sort_uids arr) = mset arr"
  by (simp add: sort_uids_sort)

end
