(* ===== verification/Parson_Parse.thy ===== *)
theory Parson_Parse
  imports Parson_Value
begin

unbundle bit_operations_syntax

text \<open>
  The parser of the JSON library (kmod/parson.c). A pointer into the terminated text is the rest of the text
  from there on, a string without NUL whose end is the terminator; \<open>peek\<close> is the character under
  the pointer. \<^verbatim>\<open>strtod\<close> of the C library is an argument: the number it reads, where it stops and the
  error it sets. The functions that call each other have a bound on the depth of their calls; running out
  of it is a result of its own, which the lemmas show not to occur.

  The lemmas show that the decoding of a string stays between its quotes and in its
  buffer, that escapes give valid UTF-8, that the parser returns on every text, and that what it returns
  is well-formed: every object in it satisfies the invariant of objects.
\<close>

section \<open>Characters\<close>

definition peek :: "string \<Rightarrow> char" where
  "peek s = (case s of [] \<Rightarrow> NUL | c # _ \<Rightarrow> c)"

definition isspace :: "char \<Rightarrow> bool" where
  "isspace c \<longleftrightarrow> c = CHR '' '' \<or> 9 \<le> (of_char c :: nat) \<and> (of_char c :: nat) \<le> 13"

definition skip_whitespaces :: "string \<Rightarrow> string" where
  "skip_whitespaces s = dropWhile isspace s"

abbreviation (input) quote :: char where "quote \<equiv> CHR 0x22"
abbreviation (input) backslash :: char where "backslash \<equiv> CHR 0x5C"

section \<open>UTF-8\<close>

definition hex_char_to_int :: "char \<Rightarrow> int" where
  "hex_char_to_int c =
     (let i = of_char c :: int in
      if 0x30 \<le> i \<and> i \<le> 0x39 then i - 0x30
      else if 0x61 \<le> i \<and> i \<le> 0x66 then i - 0x61 + 10
      else if 0x41 \<le> i \<and> i \<le> 0x46 then i - 0x41 + 10
      else -1)"

definition parse_utf16_hex :: "string \<Rightarrow> u32 option" where
  "parse_utf16_hex s = (case s of
     a # b # c # d # _ \<Rightarrow>
       (let x1 = hex_char_to_int a; x2 = hex_char_to_int b; x3 = hex_char_to_int c; x4 = hex_char_to_int d in
        if x1 = -1 \<or> x2 = -1 \<or> x3 = -1 \<or> x4 = -1 then None
        else Some (push_bit 12 (word_of_int x1) OR push_bit 8 (word_of_int x2) OR push_bit 4 (word_of_int x3) OR word_of_int x4))
   | _ \<Rightarrow> None)"

definition IS_CONT :: "char \<Rightarrow> bool" where
  "IS_CONT c \<longleftrightarrow> (of_char c :: u32) AND 0xC0 = 0x80"

definition num_bytes_in_utf8_sequence :: "char \<Rightarrow> nat" where
  "num_bytes_in_utf8_sequence ch =
     (let c = of_char ch :: u32 in
      if c = 0xC0 \<or> c = 0xC1 \<or> c > 0xF4 \<or> IS_CONT ch then 0
      else if c AND 0x80 = 0 then 1
      else if c AND 0xE0 = 0xC0 then 2
      else if c AND 0xF0 = 0xE0 then 3
      else if c AND 0xF8 = 0xF0 then 4
      else 0)"

text \<open>The number of bytes of the sequence at the pointer, None when it is not valid.\<close>

definition utf8_code_point :: "nat \<Rightarrow> string \<Rightarrow> u32 option" where
  "utf8_code_point len s =
     (let b = (\<lambda>i. peek (drop i s)); w = (\<lambda>i. of_char (b i) :: u32);
          more = (\<lambda>cp i. push_bit 6 cp OR (w i AND 0x3F)) in
      if len = 1 then Some (w 0)
      else if len = 2 \<and> IS_CONT (b 1) then Some (more (w 0 AND 0x1F) 1)
      else if len = 3 \<and> IS_CONT (b 1) \<and> IS_CONT (b 2) then Some (more (more (w 0 AND 0xF) 1) 2)
      else if len = 4 \<and> IS_CONT (b 1) \<and> IS_CONT (b 2) \<and> IS_CONT (b 3) then Some (more (more (more (w 0 AND 0x7) 1) 2) 3)
      else None)"

definition verify_utf8_sequence :: "string \<Rightarrow> nat option" where
  "verify_utf8_sequence s =
     (let len = num_bytes_in_utf8_sequence (peek s) in
      case utf8_code_point len s of
        None \<Rightarrow> None
      | Some cp \<Rightarrow>
          if cp < 0x80 \<and> len > 1 \<or> cp < 0x800 \<and> len > 2 \<or> cp < 0x10000 \<and> len > 3 then None
          else if cp > 0x10FFFF then None
          else if cp \<ge> 0xD800 \<and> cp \<le> 0xDFFF then None
          else Some len)"

text \<open>\<open>left\<close> is the number of bytes up to the end of the string.\<close>

function is_valid_utf8 :: "string \<Rightarrow> nat \<Rightarrow> bool" where
  "is_valid_utf8 s left =
     (if left = 0 then True
      else case verify_utf8_sequence s of
        None \<Rightarrow> False
      | Some len \<Rightarrow> if len = 0 then False else is_valid_utf8 (drop len s) (left - len))"
  by pat_completeness auto
termination by (relation "measure snd") auto

declare is_valid_utf8.simps [simp del]

section \<open>Strings\<close>

fun skip_to_quote :: "string \<Rightarrow> string option" where
  "skip_to_quote [] = None"
| "skip_to_quote (c # s) =
     (if c = quote then Some s
      else if c = backslash then (case s of [] \<Rightarrow> None | _ # s' \<Rightarrow> skip_to_quote s')
      else skip_to_quote s)"

definition skip_quotes :: "string \<Rightarrow> string option" where
  "skip_quotes s = (if peek s \<noteq> quote then None else skip_to_quote (tl s))"

definition byte :: "u32 \<Rightarrow> char" where
  "byte w = char_of (unat w)"

text \<open>
  \<open>s\<close> starts at the letter u of the escape. The result is what is written and the text from the last
  digit read.
\<close>

definition parse_utf16 :: "string \<Rightarrow> (string \<times> string) option" where
  "parse_utf16 s =
     (let s1 = tl s in
      case parse_utf16_hex s1 of
        None \<Rightarrow> None
      | Some cp \<Rightarrow>
          if cp < 0x80 then Some ([byte cp], drop 3 s1)
          else if cp < 0x800 then
            Some ([byte ((drop_bit 6 cp AND 0x1F) OR 0xC0), byte ((cp AND 0x3F) OR 0x80)], drop 3 s1)
          else if cp < 0xD800 \<or> cp > 0xDFFF then
            Some ([byte ((drop_bit 12 cp AND 0x0F) OR 0xE0), byte ((drop_bit 6 cp AND 0x3F) OR 0x80),
                   byte ((cp AND 0x3F) OR 0x80)], drop 3 s1)
          else if cp \<ge> 0xD800 \<and> cp \<le> 0xDBFF then
            let s2 = drop 4 s1 in
            if peek s2 \<noteq> backslash \<or> peek (tl s2) \<noteq> CHR ''u'' then None
            else (case parse_utf16_hex (drop 2 s2) of
                None \<Rightarrow> None
              | Some trail \<Rightarrow>
                  if trail < 0xDC00 \<or> trail > 0xDFFF then None
                  else
                    let cp = (push_bit 10 ((cp - 0xD800) AND 0x3FF) OR ((trail - 0xDC00) AND 0x3FF)) + 0x010000 in
                    Some ([byte ((drop_bit 18 cp AND 0x07) OR 0xF0), byte ((drop_bit 12 cp AND 0x3F) OR 0x80),
                           byte ((drop_bit 6 cp AND 0x3F) OR 0x80), byte ((cp AND 0x3F) OR 0x80)], drop 5 s2))
          else None)"

definition simple_escape :: "char \<Rightarrow> char option" where
  "simple_escape c =
     (if c = quote then Some quote
      else if c = backslash then Some backslash
      else if c = CHR ''/'' then Some (CHR ''/'')
      else if c = CHR ''b'' then Some (CHR 0x08)
      else if c = CHR ''f'' then Some (CHR 0x0C)
      else if c = CHR ''n'' then Some (CHR 0x0A)
      else if c = CHR ''r'' then Some (CHR 0x0D)
      else if c = CHR ''t'' then Some (CHR 0x09)
      else None)"

text \<open>
  The loop of \<^verbatim>\<open>process_string\<close>: \<open>left\<close> is \<^verbatim>\<open>input_len - (input_ptr - input)\<close>, and 0 once the pointer is past that
  length.
\<close>

function process_from :: "nat \<Rightarrow> string \<Rightarrow> string option" where
  "process_from left s =
     (if s = [] \<or> left = 0 then Some []
      else if hd s = backslash then
        (if peek (tl s) = CHR ''u'' then
           (case parse_utf16 (tl s) of
              None \<Rightarrow> None
            | Some (bytes, s') \<Rightarrow>
                map_option (append bytes) (process_from (left - Suc (length s - length s')) (tl s')))
         else (case simple_escape (peek (tl s)) of
              None \<Rightarrow> None
            | Some c \<Rightarrow> map_option (Cons c) (process_from (left - 2) (drop 2 s))))
      else if (of_char (hd s) :: nat) < 0x20 then None
      else map_option (Cons (hd s)) (process_from (left - 1) (tl s)))"
  by pat_completeness auto
termination by (relation "measure fst") auto

declare process_from.simps [simp del]

definition process_string :: "string \<Rightarrow> nat \<Rightarrow> string option" where
  "process_string input input_len = process_from input_len input"

definition get_quoted_string :: "string \<Rightarrow> (string \<times> string) option" where
  "get_quoted_string s = (case skip_quotes s of
     None \<Rightarrow> None
   | Some s' \<Rightarrow> map_option (\<lambda>out. (out, s')) (process_string (tl s) (length s - length s' - 2)))"

section \<open>Numbers\<close>

datatype double = Finite rat | Infinite bool | NaN

datatype strtod_errno = No_Error | Range_Error | Other_Error

record strtod_result =
  sd_number :: double
  sd_end :: nat
  sd_errno :: strtod_errno

definition is_decimal :: "string \<Rightarrow> nat \<Rightarrow> bool" where
  "is_decimal s n \<longleftrightarrow>
     \<not> (n > 1 \<and> peek s = CHR ''0'' \<and> peek (drop 1 s) \<noteq> CHR ''.'') \<and>
     \<not> (n > 2 \<and> peek s = CHR ''-'' \<and> peek (drop 1 s) = CHR ''0'' \<and> peek (drop 2 s) \<noteq> CHR ''.'') \<and>
     list_all (\<lambda>c. c \<noteq> CHR ''x'' \<and> c \<noteq> CHR ''X'') (take n s)"

section \<open>Values\<close>

datatype parsed = Parsed json_value string | Failed | Out_Of_Bound

definition MAX_NESTING :: nat where
  "MAX_NESTING = 2048"

definition json_value_init_number :: "double \<Rightarrow> json_value option" where
  "json_value_init_number d = (case d of Finite r \<Rightarrow> Some (Number r) | _ \<Rightarrow> None)"

definition parse_string_value :: "string \<Rightarrow> parsed" where
  "parse_string_value s = (case get_quoted_string s of None \<Rightarrow> Failed | Some (out, s') \<Rightarrow> Parsed (String out) s')"

definition parse_boolean_value :: "string \<Rightarrow> parsed" where
  "parse_boolean_value s =
     (if take 4 s = ''true'' then Parsed (Boolean True) (drop 4 s)
      else if take 5 s = ''false'' then Parsed (Boolean False) (drop 5 s)
      else Failed)"

definition parse_number_value :: "(string \<Rightarrow> strtod_result) \<Rightarrow> string \<Rightarrow> parsed" where
  "parse_number_value strtod s =
     (let r = strtod s in
      if sd_errno r = Range_Error \<and> (case sd_number r of Infinite _ \<Rightarrow> True | _ \<Rightarrow> False) then Failed
      else if sd_errno r = Other_Error \<or> \<not> is_decimal s (sd_end r) then Failed
      else case json_value_init_number (sd_number r) of None \<Rightarrow> Failed | Some v \<Rightarrow> Parsed v (drop (sd_end r) s))"

definition parse_null_value :: "string \<Rightarrow> parsed" where
  "parse_null_value s = (if take 4 s = ''null'' then Parsed Null (drop 4 s) else Failed)"

definition json_array_resize :: "json_value list \<Rightarrow> nat \<Rightarrow> json_value list option" where
  "json_array_resize items new_capacity = (if new_capacity = 0 then None else Some items)"

definition close_object :: "json_ob \<Rightarrow> string \<Rightarrow> parsed" where
  "close_object ob s =
     (let s' = skip_whitespaces s in if peek s' \<noteq> CHR ''}'' then Failed else Parsed (Object ob) (tl s'))"

definition close_array :: "json_value list \<Rightarrow> string \<Rightarrow> parsed" where
  "close_array items s =
     (let s' = skip_whitespaces s in
      if peek s' \<noteq> CHR '']'' then Failed
      else case json_array_resize items (length items) of None \<Rightarrow> Failed | Some items' \<Rightarrow> Parsed (Array items') (tl s'))"

definition is_number_start :: "char \<Rightarrow> bool" where
  "is_number_start c \<longleftrightarrow> c = CHR ''-'' \<or> 0x30 \<le> (of_char c :: nat) \<and> (of_char c :: nat) \<le> 0x39"

text \<open>
  The loops of objects and arrays call \<open>parse\<close> for a member; it is \<^verbatim>\<open>parse_value\<close> at their nesting. The number bounds
  the rounds of a loop and the depth of the calls.
\<close>

fun parse_members :: "(string \<Rightarrow> parsed) \<Rightarrow> nat \<Rightarrow> json_ob \<Rightarrow> string \<Rightarrow> parsed" where
  "parse_members parse 0 ob s = Out_Of_Bound"
| "parse_members parse (Suc n) ob s =
     (if s = [] then close_object ob s
      else case get_quoted_string s of
        None \<Rightarrow> Failed
      | Some (new_key, s1) \<Rightarrow>
          if length new_key \<noteq> strlen new_key then Failed
          else if peek (skip_whitespaces s1) \<noteq> CHR '':'' then Failed
          else (case parse (tl (skip_whitespaces s1)) of
              Failed \<Rightarrow> Failed
            | Out_Of_Bound \<Rightarrow> Out_Of_Bound
            | Parsed new_value s2 \<Rightarrow>
                (case json_object_add 1 ob new_key new_value of
                   None \<Rightarrow> Failed
                 | Some ob' \<Rightarrow>
                     if peek (skip_whitespaces s2) \<noteq> CHR '','' then close_object ob' (skip_whitespaces s2)
                     else
                       let s3 = skip_whitespaces (tl (skip_whitespaces s2)) in
                       if peek s3 = CHR ''}'' then close_object ob' s3
                       else parse_members parse n ob' s3)))"

definition parse_object_value :: "(string \<Rightarrow> parsed) \<Rightarrow> nat \<Rightarrow> string \<Rightarrow> parsed" where
  "parse_object_value parse n s =
     (if peek s \<noteq> CHR ''{'' then Failed
      else
        let s' = skip_whitespaces (tl s) in
        if peek s' = CHR ''}'' then Parsed (Object json_object_make) (tl s')
        else parse_members parse n json_object_make s')"

fun parse_elements :: "(string \<Rightarrow> parsed) \<Rightarrow> nat \<Rightarrow> json_value list \<Rightarrow> string \<Rightarrow> parsed" where
  "parse_elements parse 0 items s = Out_Of_Bound"
| "parse_elements parse (Suc n) items s =
     (if s = [] then close_array items s
      else (case parse s of
          Failed \<Rightarrow> Failed
        | Out_Of_Bound \<Rightarrow> Out_Of_Bound
        | Parsed new_value s1 \<Rightarrow>
            if peek (skip_whitespaces s1) \<noteq> CHR '','' then close_array (items @ [new_value]) (skip_whitespaces s1)
            else
              let s2 = skip_whitespaces (tl (skip_whitespaces s1)) in
              if peek s2 = CHR '']'' then close_array (items @ [new_value]) s2
              else parse_elements parse n (items @ [new_value]) s2))"

definition parse_array_value :: "(string \<Rightarrow> parsed) \<Rightarrow> nat \<Rightarrow> string \<Rightarrow> parsed" where
  "parse_array_value parse n s =
     (if peek s \<noteq> CHR ''['' then Failed
      else
        let s' = skip_whitespaces (tl s) in
        if peek s' = CHR '']'' then Parsed (Array []) (tl s')
        else parse_elements parse n [] s')"

primrec parse_value :: "(string \<Rightarrow> strtod_result) \<Rightarrow> nat \<Rightarrow> nat \<Rightarrow> string \<Rightarrow> parsed" where
  "parse_value strtod 0 = (\<lambda>nesting s. Out_Of_Bound)"
| "parse_value strtod (Suc n) = (\<lambda>nesting s.
     if nesting > MAX_NESTING then Failed
     else
       let s' = skip_whitespaces s; c = peek s' in
       if c = CHR ''{'' then parse_object_value (parse_value strtod n (nesting + 1)) n s'
       else if c = CHR ''['' then parse_array_value (parse_value strtod n (nesting + 1)) n s'
       else if c = quote then parse_string_value s'
       else if c = CHR ''f'' \<or> c = CHR ''t'' then parse_boolean_value s'
       else if is_number_start c then parse_number_value strtod s'
       else if c = CHR ''n'' then parse_null_value s'
       else Failed)"

text \<open>The depth that is proved enough for every text.\<close>

definition call_bound :: "string \<Rightarrow> nat" where
  "call_bound s = length s + 2"

definition parsed_value :: "parsed \<Rightarrow> json_value option" where
  "parsed_value r = (case r of Parsed v _ \<Rightarrow> Some v | _ \<Rightarrow> None)"

definition json_parse_string :: "(string \<Rightarrow> strtod_result) \<Rightarrow> string option \<Rightarrow> json_value option" where
  "json_parse_string strtod text = (case text of
     None \<Rightarrow> None
   | Some s \<Rightarrow>
       let s' = (if take 3 s = [CHR 0xEF, CHR 0xBB, CHR 0xBF] then drop 3 s else s) in
       parsed_value (parse_value strtod (call_bound s') 0 s'))"

text \<open>\<open>file\<close> is what can be read of the file; the text ends at its first NUL.\<close>

definition json_parse_file :: "(string \<Rightarrow> strtod_result) \<Rightarrow> string option \<Rightarrow> json_value option" where
  "json_parse_file strtod file = (case file of
     None \<Rightarrow> None
   | Some contents \<Rightarrow> if contents = [] then None else json_parse_string strtod (Some (c_string contents)))"

section \<open>Comments\<close>

fun strstr :: "string \<Rightarrow> string \<Rightarrow> nat option" where
  "strstr s token = (if take (length token) s = token then Some 0
     else case s of [] \<Rightarrow> None | _ # s' \<Rightarrow> map_option Suc (strstr s' token))"

declare strstr.simps [simp del]

function remove_comments_from :: "string \<Rightarrow> string \<Rightarrow> bool \<Rightarrow> bool \<Rightarrow> string \<Rightarrow> string" where
  "remove_comments_from start_token end_token in_string escaped [] = []"
| "remove_comments_from start_token end_token in_string escaped (c # s) =
     (if c = backslash \<and> \<not> escaped then c # remove_comments_from start_token end_token in_string True s
      else if c = quote \<and> \<not> escaped then c # remove_comments_from start_token end_token (\<not> in_string) False s
      else if \<not> in_string \<and> start_token \<noteq> [] \<and> take (length start_token) (c # s) = start_token then
        let s' = drop (length start_token) (c # s) in
        replicate (length start_token) (CHR '' '') @
          (case strstr s' end_token of
             None \<Rightarrow> s'
           | Some i \<Rightarrow> replicate (i + length end_token) (CHR '' '') @
               remove_comments_from start_token end_token in_string False (drop (i + length end_token) s'))
      else c # remove_comments_from start_token end_token in_string False s)"
  by pat_completeness auto
termination
  by (relation "measure (\<lambda>(_, _, _, _, s). length s)") (auto simp: neq_Nil_conv)

definition remove_comments :: "string \<Rightarrow> string \<Rightarrow> string \<Rightarrow> string" where
  "remove_comments s start_token end_token =
     (if start_token = [] \<or> end_token = [] then s else remove_comments_from start_token end_token False False s)"

definition json_parse_string_with_comments :: "(string \<Rightarrow> strtod_result) \<Rightarrow> string \<Rightarrow> json_value option" where
  "json_parse_string_with_comments strtod s =
     (let s' = remove_comments (remove_comments s ''/*'' ''*/'') ''//'' [CHR 0x0A] in
      parsed_value (parse_value strtod (call_bound s') 0 s'))"

section \<open>Decoding stays between the quotes\<close>

text \<open>The text of a string without its quotes: no quote but after a backslash, and no backslash at the end.\<close>

fun quoted :: "string \<Rightarrow> bool" where
  "quoted [] = True"
| "quoted (c # s) = (if c = quote then False else if c = backslash then (case s of [] \<Rightarrow> False | _ # s' \<Rightarrow> quoted s') else quoted s)"

lemma skip_to_quote_iff: "skip_to_quote s = Some r \<longleftrightarrow> (\<exists>body. quoted body \<and> s = body @ quote # r)"
proof
  show "skip_to_quote s = Some r \<Longrightarrow> \<exists>body. quoted body \<and> s = body @ quote # r"
  proof (induction s rule: skip_to_quote.induct)
    case (2 c s)
    show ?case
    proof (cases "c = quote")
      case True
      with 2 show ?thesis by (intro exI [of _ "[]"]) simp
    next
      case not_quote: False
      show ?thesis
      proof (cases "c = backslash")
        case True
        with 2 not_quote obtain d s' body where "s = d # s'" "quoted body" "s' = body @ quote # r"
          by (cases s) auto
        then show ?thesis using True by (intro exI [of _ "c # d # body"]) simp
      next
        case False
        with 2 not_quote obtain body where "quoted body" "s = body @ quote # r" by auto
        then show ?thesis using False not_quote by (intro exI [of _ "c # body"]) simp
      qed
    qed
  qed simp
  have "quoted body \<Longrightarrow> skip_to_quote (body @ quote # r) = Some r" for body
    by (induction body rule: quoted.induct) (auto split: if_splits list.splits)
  then show "\<exists>body. quoted body \<and> s = body @ quote # r \<Longrightarrow> skip_to_quote s = Some r" by blast
qed

lemma skip_quotes_iff: "skip_quotes s = Some r \<longleftrightarrow> (\<exists>body. quoted body \<and> s = quote # body @ quote # r)"
  by (cases s) (auto simp: skip_quotes_def peek_def NUL_def skip_to_quote_iff)

lemma hex_not_quoting [simp]: "hex_char_to_int quote = -1" "hex_char_to_int backslash = -1"
  by (simp_all add: hex_char_to_int_def)

lemma utf16_hex_append: "parse_utf16_hex (s @ quote # r) = parse_utf16_hex s"
  by (auto simp: parse_utf16_hex_def Let_def split: list.splits)

lemma utf16_hex_Some:
  assumes "parse_utf16_hex s = Some cp"
  obtains a b c d t where "s = a # b # c # d # t" "list_all (\<lambda>x. x \<noteq> quote \<and> x \<noteq> backslash) [a, b, c, d]"
proof -
  have "hex_char_to_int x \<noteq> -1 \<Longrightarrow> x \<noteq> quote \<and> x \<noteq> backslash" for x by auto
  with assms that show ?thesis by (simp add: parse_utf16_hex_def Let_def split: list.splits if_splits)
qed

lemma utf16_hex_quoted:
  assumes "parse_utf16_hex s = Some cp"
  shows "4 \<le> length s" "quoted s = quoted (drop 4 s)"
proof -
  from utf16_hex_Some [OF assms] obtain a b c d t where
    s: "s = a # b # c # d # t" "list_all (\<lambda>x. x \<noteq> quote \<and> x \<noteq> backslash) [a, b, c, d]" .
  show "4 \<le> length s" using s(1) by simp
  show "quoted s = quoted (drop 4 s)" using s(2) by (simp add: s(1))
qed

lemma peek_append [simp]: "s \<noteq> [] \<Longrightarrow> peek (s @ r) = peek s" "peek (c # s) = c" "peek [] = NUL"
  by (auto simp: peek_def neq_Nil_conv)

lemma quoted_escape: "quoted (backslash # c # s) = quoted s"
  by simp

text \<open>An escape is read from inside the quotes, and leaves fewer bytes than it takes.\<close>

lemma parse_utf16_append:
  "parse_utf16 (u # s @ quote # r) = map_option (\<lambda>(bytes, t). (bytes, t @ quote # r)) (parse_utf16 (u # s))"
proof (cases "parse_utf16_hex s")
  case (Some cp)
  note len = utf16_hex_quoted(1) [OF Some]
  let ?s2 = "drop 4 s"
  have p: "peek (?s2 @ quote # r) \<noteq> backslash \<or> peek (tl (?s2 @ quote # r)) \<noteq> CHR ''u'' \<longleftrightarrow>
      peek ?s2 \<noteq> backslash \<or> peek (tl ?s2) \<noteq> CHR ''u''"
    by (cases ?s2 rule: remdups_adj.cases) (auto simp: NUL_def)
  show ?thesis
  proof (cases "peek ?s2 \<noteq> backslash \<or> peek (tl ?s2) \<noteq> CHR ''u''")
    case True
    then show ?thesis using Some len p by (simp add: parse_utf16_def utf16_hex_append Let_def)
  next
    case False
    then have l2: "2 \<le> length ?s2" by (cases ?s2 rule: remdups_adj.cases) (auto simp: NUL_def)
    have h: "parse_utf16_hex (drop 2 (?s2 @ quote # r)) = parse_utf16_hex (drop 2 ?s2)"
      using l2 utf16_hex_append [of "drop 2 ?s2" r] by simp
    show ?thesis
    proof (cases "parse_utf16_hex (drop 2 ?s2)")
      case None
      then show ?thesis using Some len p False h l2 by (simp add: parse_utf16_def utf16_hex_append Let_def)
    next
      case (Some trail)
      from utf16_hex_quoted(1) [OF this] have "6 \<le> length ?s2" by simp
      then show ?thesis using Some \<open>parse_utf16_hex s = Some cp\<close> len p False h l2
        by (simp add: parse_utf16_def utf16_hex_append Let_def)
    qed
  qed
qed (simp add: parse_utf16_def utf16_hex_append)

lemma parse_utf16_rest:
  assumes "parse_utf16 (u # s) = Some (bytes, t)" "quoted s"
  shows "quoted (tl t)" "length t < length s" "Suc (length bytes) + length (tl t) \<le> length s" "t \<noteq> []"
proof -
  from assms(1) obtain cp where cp: "parse_utf16_hex s = Some cp"
    by (auto simp: parse_utf16_def split: option.splits)
  note q = utf16_hex_quoted [OF cp]
  have tl3: "tl (drop 3 s) = drop 4 s" using tl_drop [of 3 s] drop_Suc [of 3 s] by simp
  let ?s2 = "drop 4 s"
  have short: "quoted (tl t) \<and> length t < length s \<and> Suc (length bytes) + length (tl t) \<le> length s \<and> t \<noteq> []"
    if "t = drop 3 s" "length bytes \<le> 3"
    using that q assms(2) tl3 by auto
  have long: "quoted (tl t) \<and> length t < length s \<and> Suc (length bytes) + length (tl t) \<le> length s \<and> t \<noteq> []"
    if "peek ?s2 = backslash" "peek (tl ?s2) = CHR ''u''" "parse_utf16_hex (drop 2 ?s2) = Some trail" "t = drop 5 ?s2" "length bytes = 4" for trail
  proof -
    from that(1,2) obtain s3 where s3: "?s2 = backslash # CHR ''u'' # s3"
      by (cases ?s2 rule: remdups_adj.cases) (auto simp: NUL_def)
    from that(3) have h: "parse_utf16_hex s3 = Some trail" by (simp add: s3)
    note q3 = utf16_hex_quoted [OF h]
    have t: "t = drop 3 s3" "tl t = drop 4 s3" using that(4) tl_drop [of 3 s3] drop_Suc [of 3 s3] unfolding s3 by simp_all
    have l: "length s = length s3 + 6" using arg_cong [OF s3, of length] q(1) by simp
    have "quoted s3" using assms(2) q(2) s3 by simp
    then show ?thesis using t l q3 that(5) by auto
  qed
  have "quoted (tl t) \<and> length t < length s \<and> Suc (length bytes) + length (tl t) \<le> length s \<and> t \<noteq> []"
    using assms(1) short long
    by (auto simp: parse_utf16_def cp Let_def split: if_splits option.splits)
  then show "quoted (tl t)" "length t < length s" "Suc (length bytes) + length (tl t) \<le> length s" "t \<noteq> []" by auto
qed

lemma process_in_quotes:
  "quoted body \<Longrightarrow> process_from (length body) (body @ quote # r) = process_from (length body) body \<and>
    (\<forall>out. process_from (length body) body = Some out \<longrightarrow> length out \<le> length body)"
proof (induction "length body" arbitrary: body rule: less_induct)
  case less
  show ?case
  proof (cases body)
    case Nil
    then show ?thesis by (simp add: process_from.simps)
  next
    case (Cons c s)
    show ?thesis
    proof (cases "c = backslash")
      case False
      then have "quoted s" "c \<noteq> quote" using less.prems Cons by (auto split: if_splits)
      with less.hyps [of s] Cons False show ?thesis
        by (auto simp: process_from.simps [of "Suc (length s)"])
    next
      case True
      with less.prems Cons obtain e s1 where s: "s = e # s1" "quoted s1" by (auto split: list.splits if_splits)
      show ?thesis
      proof (cases "e = CHR ''u''")
        case False
        with less.hyps [of s1] Cons True s show ?thesis
          by (auto simp: process_from.simps [of "Suc (Suc (length s1))"] split: option.split)
      next
        case u: True
        show ?thesis
        proof (cases "parse_utf16 s")
          case None
          with Cons True s u show ?thesis
            using parse_utf16_append [of e s1 r] by (simp add: process_from.simps [of "Suc (Suc (length s1))"])
        next
          case (Some bt)
          obtain bytes t where bt: "bt = (bytes, t)" by (cases bt)
          note R = parse_utf16_rest [OF Some [unfolded bt s(1)] s(2)]
          have l: "Suc (Suc (length s1)) - Suc (Suc (Suc (length s1)) - length t) = length (tl t)"
            using R(2,4) by (cases t) auto
          have "process_from (length (tl t)) (tl t @ quote # r) = process_from (length (tl t)) (tl t) \<and>
              (\<forall>out. process_from (length (tl t)) (tl t) = Some out \<longrightarrow> length out \<le> length (tl t))"
            using R Cons s by (intro less.hyps) auto
          moreover have "parse_utf16 (e # s1 @ quote # r) = Some (bytes, t @ quote # r)"
            using Some parse_utf16_append [of e s1 r] by (simp add: bt s)
          ultimately show ?thesis using Cons True s u Some bt l R(3,4)
            by (auto simp: process_from.simps [of "Suc (Suc (length s1))"])
        qed
      qed
    qed
  qed
qed

lemma get_quoted_string_body:
  assumes "quoted body"
  shows "get_quoted_string (quote # body @ quote # rest) = map_option (\<lambda>out. (out, rest)) (process_from (length body) body)"
proof -
  have "skip_quotes (quote # body @ quote # rest) = Some rest" using assms by (auto simp: skip_quotes_iff)
  then show ?thesis using process_in_quotes [OF assms, of rest] by (simp add: get_quoted_string_def process_string_def)
qed

lemma get_quoted_string_Some:
  assumes "get_quoted_string s = Some (out, rest)"
  obtains body where "quoted body" "s = quote # body @ quote # rest" "process_from (length body) body = Some out"
proof -
  from assms have "skip_quotes s = Some rest" by (auto simp: get_quoted_string_def split: option.splits)
  then obtain body where b: "quoted body" "s = quote # body @ quote # rest" unfolding skip_quotes_iff by blast
  with assms get_quoted_string_body [OF b(1), of rest] that show thesis by auto
qed

lemma get_quoted_string_shorter: "get_quoted_string s = Some (out, rest) \<Longrightarrow> length rest < length s"
  by (erule get_quoted_string_Some) simp

section \<open>The parser returns\<close>

lemma skip_whitespaces_length: "length (skip_whitespaces s) \<le> length s"
  by (simp add: skip_whitespaces_def length_dropWhile_le)

lemma tl_skip_length: "length (tl (skip_whitespaces s)) \<le> length s - 1"
  using skip_whitespaces_length [of s] by simp

lemma peek_not_Nil: "peek s = c \<Longrightarrow> c \<noteq> NUL \<Longrightarrow> s \<noteq> []"
  by auto

text \<open>What is asked of a parser: it returns, and does not go bk in the text.\<close>

definition returns_within :: "nat \<Rightarrow> parsed \<Rightarrow> bool" where
  "returns_within m r \<longleftrightarrow> (case r of Parsed _ s \<Rightarrow> length s \<le> m | Failed \<Rightarrow> True | Out_Of_Bound \<Rightarrow> False)"

lemma returns_within_mono: "returns_within m r \<Longrightarrow> m \<le> m' \<Longrightarrow> returns_within m' r"
  by (auto simp: returns_within_def split: parsed.splits)

lemma close_returns: "returns_within (length s) (close_object ob s)" "returns_within (length s) (close_array items s)"
  using tl_skip_length [of s]
  by (auto simp: returns_within_def close_object_def close_array_def Let_def split: parsed.splits option.splits if_splits)

lemma parse_members_returns:
  assumes "\<And>t. length t < m \<Longrightarrow> returns_within (length t) (parse t)"
  shows "length s \<le> m \<Longrightarrow> length s < n \<Longrightarrow> returns_within (length s) (parse_members parse n ob s)"
proof (induction n arbitrary: ob s)
  case (Suc n)
  have nil: "returns_within (length s) (close_object ob s)" by (rule close_returns)
  show ?case
  proof (cases "get_quoted_string s")
    case None
    then show ?thesis using nil by (cases "s = []") (simp_all add: returns_within_def [of _ Failed])
  next
    case (Some ks)
    obtain new_key s1 where ks: "ks = (new_key, s1)" by (cases ks)
    have l1: "length s1 < length s" using get_quoted_string_shorter [OF Some [unfolded ks]] .
    let ?t = "tl (skip_whitespaces s1)"
    have lt: "length ?t < length s" using tl_skip_length [of s1] l1 by simp
    have r: "returns_within (length ?t) (parse ?t)" using assms [of ?t] lt Suc.prems by simp
    show ?thesis
    proof (cases "parse ?t")
      case (Parsed v s2)
      then have l2: "length s2 < length s" using r lt by (simp add: returns_within_def)
      let ?s3 = "skip_whitespaces (tl (skip_whitespaces s2))"
      have l3: "length (skip_whitespaces s2) < length s" "length ?s3 < length s"
        using l2 skip_whitespaces_length [of s2] skip_whitespaces_length [of "tl (skip_whitespaces s2)"] by auto
      have "returns_within (length s) (close_object ob' (skip_whitespaces s2))" "returns_within (length s) (close_object ob' ?s3)"
        "returns_within (length s) (parse_members parse n ob' ?s3)" for ob'
        using l3 Suc.prems
        by (auto intro!: returns_within_mono [OF close_returns(1)] returns_within_mono [OF Suc.IH])
      then show ?thesis using Some ks Parsed nil by (auto simp: Let_def returns_within_def [of _ Failed] split: option.split)
    qed (use Some ks r nil in \<open>auto simp: returns_within_def [of _ Failed] returns_within_def [of _ Out_Of_Bound]\<close>)
  qed
qed simp

lemma parse_elements_returns:
  assumes "\<And>t. length t \<le> m \<Longrightarrow> returns_within (length t) (parse t)"
  shows "length s \<le> m \<Longrightarrow> length s < n \<Longrightarrow> returns_within (length s) (parse_elements parse n items s)"
proof (induction n arbitrary: items s)
  case (Suc n)
  have r: "returns_within (length s) (parse s)" using assms [of s] Suc.prems by simp
  have nil: "returns_within (length s) (close_array items s)" by (rule close_returns)
  show ?case
  proof (cases "parse s")
    case (Parsed v s1)
    then have l1: "length s1 \<le> length s" using r by (simp add: returns_within_def)
    let ?s2 = "skip_whitespaces (tl (skip_whitespaces s1))"
    have l: "length (skip_whitespaces s1) \<le> length s" using l1 skip_whitespaces_length [of s1] by simp
    have l2: "length ?s2 < length s" if "s \<noteq> []" "peek (skip_whitespaces s1) = CHR '',''"
      using that l peek_not_Nil [OF that(2)] skip_whitespaces_length [of "tl (skip_whitespaces s1)"]
      by (cases "skip_whitespaces s1") (auto simp: NUL_def)
    have "returns_within (length s) (close_array items' (skip_whitespaces s1))" for items'
      using l by (rule returns_within_mono [OF close_returns(2)])
    moreover have "returns_within (length s) (close_array items' ?s2)" "returns_within (length s) (parse_elements parse n items' ?s2)"
      if "s \<noteq> []" "peek (skip_whitespaces s1) = CHR '',''" for items'
      using l2 [OF that] Suc.prems
      by (auto intro!: returns_within_mono [OF close_returns(2)] returns_within_mono [OF Suc.IH])
    ultimately show ?thesis using Parsed nil by (auto simp: Let_def)
  qed (use r nil in \<open>auto simp: returns_within_def [of _ Failed] returns_within_def [of _ Out_Of_Bound]\<close>)
qed simp

lemma simple_values_return:
  "returns_within (length s) (parse_string_value s)" "returns_within (length s) (parse_boolean_value s)"
  "returns_within (length s) (parse_number_value strtod s)" "returns_within (length s) (parse_null_value s)"
  by (auto simp: returns_within_def parse_string_value_def parse_boolean_value_def parse_number_value_def parse_null_value_def Let_def
      dest: get_quoted_string_shorter split: option.splits parsed.splits)

lemma parse_value_returns: "length s + 2 \<le> n \<Longrightarrow> returns_within (length s) (parse_value strtod n nesting s)"
proof (induction n arbitrary: nesting s)
  case (Suc n)
  let ?s = "skip_whitespaces s" let ?p = "parse_value strtod n (nesting + 1)"
  have l: "length ?s \<le> length s" by (rule skip_whitespaces_length)
  let ?t = "skip_whitespaces (tl ?s)"
  have lt: "length ?t \<le> length s - 1" using l skip_whitespaces_length [of "tl ?s"] by simp
  have p: "returns_within (length t) (?p t)" if "0 < length s" "length t \<le> length s - 1" for t
    using that Suc.prems by (intro Suc.IH) arith
  have ob: "returns_within (length s) (parse_object_value ?p n ?s)"
  proof (cases "peek ?s = CHR ''{''")
    case True
    then have "?s \<noteq> []" by (auto simp: NUL_def)
    then have "0 < length s" using l by (cases s) auto
    then have "returns_within (length ?t) (parse_members ?p n json_object_make ?t)"
      using lt Suc.prems by (intro parse_members_returns [where m = "length s - 1"] p) simp_all
    then show ?thesis using lt returns_within_mono [of _ _ "length s"]
      by (auto simp: parse_object_value_def Let_def returns_within_def [of _ "Parsed _ _"] returns_within_def [of _ Failed])
  qed (simp add: parse_object_value_def returns_within_def)
  have ar: "returns_within (length s) (parse_array_value ?p n ?s)"
  proof (cases "peek ?s = CHR ''[''")
    case True
    then have "?s \<noteq> []" by (auto simp: NUL_def)
    then have "0 < length s" using l by (cases s) auto
    then have "returns_within (length ?t) (parse_elements ?p n [] ?t)"
      using lt Suc.prems by (intro parse_elements_returns [where m = "length s - 1"] p) simp_all
    then show ?thesis using lt returns_within_mono [of _ _ "length s"]
      by (auto simp: parse_array_value_def Let_def returns_within_def [of _ "Parsed _ _"] returns_within_def [of _ Failed])
  qed (simp add: parse_array_value_def returns_within_def)
  show ?case
    using ob ar simple_values_return [of ?s] returns_within_mono [OF _ l]
    by (simp add: Let_def returns_within_def [of _ Failed])
qed simp

text \<open>A larger bound changes nothing.\<close>

definition stays :: "parsed \<Rightarrow> parsed \<Rightarrow> bool" where
  "stays r r' \<longleftrightarrow> r = Out_Of_Bound \<or> r' = r"

lemma parse_members_stays:
  assumes "\<And>t. stays (parse t) (parse' t)"
  shows "n \<le> n' \<Longrightarrow> stays (parse_members parse n ob s) (parse_members parse' n' ob s)"
proof (induction n arbitrary: n' ob s)
  case (Suc n)
  then obtain m where n': "n' = Suc m" "n \<le> m" by (cases n') auto
  note IH = Suc.IH [OF n'(2)]
  show ?case
  proof (cases "get_quoted_string s")
    case (Some ks)
    obtain new_key s1 where ks: "ks = (new_key, s1)" by (cases ks)
    let ?t = "tl (skip_whitespaces s1)"
    show ?thesis
    proof (cases "parse ?t")
      case (Parsed v s2)
      then have "parse' ?t = Parsed v s2" using assms [of ?t] by (simp add: stays_def)
      with Parsed Some ks n' IH show ?thesis by (auto simp: stays_def Let_def split: option.split)
    qed (use assms [of ?t] Some ks n' in \<open>auto simp: stays_def\<close>)
  qed (simp add: n' stays_def)
qed (simp add: stays_def)

lemma parse_elements_stays:
  assumes "\<And>t. stays (parse t) (parse' t)"
  shows "n \<le> n' \<Longrightarrow> stays (parse_elements parse n items s) (parse_elements parse' n' items s)"
proof (induction n arbitrary: n' items s)
  case (Suc n)
  then obtain m where n': "n' = Suc m" "n \<le> m" by (cases n') auto
  note IH = Suc.IH [OF n'(2)]
  show ?case
  proof (cases "parse s")
    case (Parsed v s2)
    then have "parse' s = Parsed v s2" using assms [of s] by (simp add: stays_def)
    with Parsed n' IH show ?thesis by (auto simp: stays_def Let_def)
  qed (use assms [of s] n' in \<open>auto simp: stays_def\<close>)
qed (simp add: stays_def)

lemma parse_value_stays: "n \<le> n' \<Longrightarrow> stays (parse_value strtod n nesting s) (parse_value strtod n' nesting s)"
proof (induction n arbitrary: n' nesting s)
  case (Suc n)
  then obtain m where n': "n' = Suc m" "n \<le> m" by (cases n') auto
  let ?s = "skip_whitespaces s"
  have p: "stays (parse_value strtod n (nesting + 1) t) (parse_value strtod m (nesting + 1) t)" for t
    by (rule Suc.IH [OF n'(2)])
  have "stays (parse_object_value (parse_value strtod n (nesting + 1)) n ?s) (parse_object_value (parse_value strtod m (nesting + 1)) m ?s)"
    using parse_members_stays [OF p n'(2)] by (simp add: parse_object_value_def Let_def) (simp add: stays_def)
  moreover have "stays (parse_array_value (parse_value strtod n (nesting + 1)) n ?s) (parse_array_value (parse_value strtod m (nesting + 1)) m ?s)"
    using parse_elements_stays [OF p n'(2)] by (simp add: parse_array_value_def Let_def) (simp add: stays_def)
  ultimately show ?case by (simp add: n' Let_def) (simp add: stays_def)
qed (simp add: stays_def)

section \<open>Parsed values are well-formed\<close>

lemma vals_smaller [termination_simp]: "v \<in> set (vals ob) \<Longrightarrow> size v < Suc (size_json_object size ob)"
  by (cases ob) (auto dest!: split_list)

fun value_wf :: "json_value \<Rightarrow> bool" where
  "value_wf (Object ob) = (object_inv ob \<and> (\<forall>v \<in> set (vals ob). value_wf v))"
| "value_wf (Array items) = (\<forall>v \<in> set items. value_wf v)"
| "value_wf v = True"

fun nested_within :: "nat \<Rightarrow> json_value \<Rightarrow> bool" where
  "nested_within d (Object ob) = (0 < d \<and> (\<forall>v \<in> set (vals ob). nested_within (d - 1) v))"
| "nested_within d (Array items) = (0 < d \<and> (\<forall>v \<in> set items. nested_within (d - 1) v))"
| "nested_within d v = (0 < d)"

lemma key_without_NUL: "length key = strlen key \<Longrightarrow> NUL \<notin> set key"
  by (metis append_take_drop_id c_string_def c_string_no_NUL strlen_def take_all_iff takeWhile_eq_take order_refl)

lemma object_add_vals:
  fixes ob :: "'v json_object"
  assumes "json_object_add 1 ob key v = Some ob'" "object_inv ob" "length key = strlen key"
  shows "object_inv ob'" "object_entries ob' = object_entries ob @ [(key, v)]" "vals ob' = vals ob @ [v]"
proof -
  note k = key_without_NUL [OF assms(3)]
  have "key \<notin> fst ` set (object_entries ob)" using json_ob.add_present [OF assms(2) k, of v] assms(1) by auto
  from json_ob.add_fresh [OF assms(2) k this, of v] assms(1)
  show inv: "object_inv ob'" and e: "object_entries ob' = object_entries ob @ [(key, v)]" by auto
  have "map snd (object_entries ob) = vals ob" if "object_inv ob" for ob :: "'v json_object"
    using object_invD(4) [OF that] by (simp add: object_entries_def)
  from this [OF inv] this [OF assms(2)] e show "vals ob' = vals ob @ [v]" by simp
qed

lemma parse_members_wf:
  assumes "\<And>t v r. parse t = Parsed v r \<Longrightarrow> good v"
  shows "parse_members parse n ob s = Parsed v r \<Longrightarrow> object_inv ob \<Longrightarrow> \<forall>v \<in> set (vals ob). good v \<Longrightarrow>
    \<exists>ob'. v = Object ob' \<and> object_inv ob' \<and> (\<forall>v \<in> set (vals ob'). good v)"
proof (induction n arbitrary: ob s)
  case (Suc n)
  have close: "\<exists>ob'. v = Object ob' \<and> object_inv ob' \<and> (\<forall>v \<in> set (vals ob'). good v)"
    if "close_object ob' t = Parsed v r" "object_inv ob'" "\<forall>v \<in> set (vals ob'). good v" for ob' t
    using that by (auto simp: close_object_def Let_def split: if_splits)
  show ?case
  proof (cases "s = []")
    case True
    with Suc.prems close show ?thesis by simp
  next
    case False
    with Suc.prems(1) obtain key s1 v1 s2 ob' where
      k: "length key = strlen key" "parse (tl (skip_whitespaces s1)) = Parsed v1 s2" "json_object_add 1 ob key v1 = Some ob'"
      and rest: "close_object ob' (skip_whitespaces s2) = Parsed v r \<or>
        close_object ob' (skip_whitespaces (tl (skip_whitespaces s2))) = Parsed v r \<or>
        parse_members parse n ob' (skip_whitespaces (tl (skip_whitespaces s2))) = Parsed v r"
      by (auto simp: Let_def split: option.splits if_splits parsed.splits)
    note A = object_add_vals [OF k(3) Suc.prems(2) k(1)]
    have "\<forall>v \<in> set (vals ob'). good v" using A(3) Suc.prems(3) assms [OF k(2)] by simp
    with rest close A(1) Suc.IH show ?thesis by blast
  qed
qed simp

lemma parse_elements_wf:
  assumes "\<And>t v r. parse t = Parsed v r \<Longrightarrow> good v"
  shows "parse_elements parse n items s = Parsed v r \<Longrightarrow> \<forall>v \<in> set items. good v \<Longrightarrow>
    \<exists>items'. v = Array items' \<and> (\<forall>v \<in> set items'. good v)"
proof (induction n arbitrary: items s)
  case (Suc n)
  have close: "\<exists>items'. v = Array items' \<and> (\<forall>v \<in> set items'. good v)"
    if "close_array items' t = Parsed v r" "\<forall>v \<in> set items'. good v" for items' t
    using that by (auto simp: close_array_def json_array_resize_def Let_def split: if_splits)
  show ?case
  proof (cases "s = []")
    case True
    with Suc.prems close show ?thesis by simp
  next
    case False
    with Suc.prems(1) obtain v1 s1 where
      k: "parse s = Parsed v1 s1"
      and rest: "close_array (items @ [v1]) (skip_whitespaces s1) = Parsed v r \<or>
        close_array (items @ [v1]) (skip_whitespaces (tl (skip_whitespaces s1))) = Parsed v r \<or>
        parse_elements parse n (items @ [v1]) (skip_whitespaces (tl (skip_whitespaces s1))) = Parsed v r"
      by (auto simp: Let_def split: if_splits parsed.splits)
    have "\<forall>v \<in> set (items @ [v1]). good v" using Suc.prems(2) assms [OF k] by simp
    with rest close Suc.IH show ?thesis by blast
  qed
qed simp

lemma parse_value_wf:
  "parse_value strtod n nesting s = Parsed v r \<Longrightarrow> value_wf v \<and> nested_within (MAX_NESTING + 1 - nesting) v"
proof (induction n arbitrary: nesting s v r)
  case (Suc n)
  let ?good = "\<lambda>v. value_wf v \<and> nested_within (MAX_NESTING + 1 - (nesting + 1)) v"
  let ?p = "parse_value strtod n (nesting + 1)"
  have le: "nesting \<le> MAX_NESTING" using Suc.prems by (auto split: if_splits)
  have d: "MAX_NESTING + 1 - nesting - 1 = MAX_NESTING + 1 - (nesting + 1)" by simp
  have IH: "\<And>t v r. ?p t = Parsed v r \<Longrightarrow> ?good v" by (rule Suc.IH)
  have "value_wf v \<and> nested_within (MAX_NESTING + 1 - nesting) v" if "parse_object_value ?p n t = Parsed v r" for t
  proof (cases "v = Object json_object_make")
    case True
    then show ?thesis using le json_ob.make_inv by (simp add: json_object_make_def json_object_init_def)
  next
    case False
    with that have "parse_members ?p n json_object_make (skip_whitespaces (tl t)) = Parsed v r"
      by (auto simp: parse_object_value_def Let_def split: if_splits)
    from parse_members_wf [where good = ?good and parse = ?p, OF _ this json_ob.make_inv] IH
    obtain ob' where "v = Object ob'" "object_inv ob'" "\<forall>v \<in> set (vals ob'). ?good v"
      by (auto simp: json_object_make_def json_object_init_def)
    then show ?thesis using le by (simp add: d)
  qed
  moreover have "value_wf v \<and> nested_within (MAX_NESTING + 1 - nesting) v" if "parse_array_value ?p n t = Parsed v r" for t
  proof (cases "v = Array []")
    case True
    then show ?thesis using le by simp
  next
    case False
    with that have "parse_elements ?p n [] (skip_whitespaces (tl t)) = Parsed v r"
      by (auto simp: parse_array_value_def Let_def split: if_splits)
    from parse_elements_wf [where good = ?good and parse = ?p, OF _ this] IH
    obtain items where "v = Array items" "\<forall>v \<in> set items. ?good v" by auto
    then show ?thesis using le by (simp add: d)
  qed
  moreover have "value_wf v \<and> nested_within (MAX_NESTING + 1 - nesting) v"
    if "parse_string_value t = Parsed v r \<or> parse_boolean_value t = Parsed v r \<or> parse_number_value strtod t = Parsed v r \<or> parse_null_value t = Parsed v r" for t
    using that le
    by (auto simp: parse_string_value_def parse_boolean_value_def parse_number_value_def parse_null_value_def json_value_init_number_def Let_def
        split: option.splits if_splits double.splits)
  ultimately show ?case using Suc.prems by (auto simp: Let_def split: if_splits)
qed simp

section \<open>Escapes give valid UTF-8\<close>

lemma byte_back: "(w :: u32) AND 0xFF = w \<Longrightarrow> of_char (byte w) = w"
proof -
  assume w: "w AND 0xFF = w"
  have "w \<le> 0xFF" using word_and_le1 [of w "0xFF"] w by simp
  then have "unat w < 256" by (simp add: word_le_nat_alt)
  then have "of_nat (of_char (byte w)) = w" by (simp add: byte_def)
  then show ?thesis by (simp add: of_nat_of_char)
qed

lemmas and_or_simps = bit.conj_disj_distrib2 and.assoc

lemma bytes_back [simp]:
  fixes w :: u32
  shows "of_char (byte ((w AND 0x1F) OR 0xC0)) = (w AND 0x1F) OR 0xC0" "of_char (byte ((w AND 0x0F) OR 0xE0)) = (w AND 0x0F) OR 0xE0"
    "of_char (byte ((w AND 0x07) OR 0xF0)) = (w AND 0x07) OR 0xF0" "of_char (byte ((w AND 0x3F) OR 0x80)) = (w AND 0x3F) OR 0x80"
  by (rule byte_back, simp add: and_or_simps)+

lemma small_take_bit: "unat (w :: u32) < 2 ^ n \<Longrightarrow> take_bit n w = w"
proof -
  assume "unat w < 2 ^ n"
  then have "unat (take_bit n w) = unat w" by (simp add: unsigned_take_bit_eq take_bit_nat_eq_self_iff)
  then show ?thesis by (simp only: word_unat_eq_iff)
qed

lemma join_bits:
  fixes w :: u32
  shows "push_bit 6 (drop_bit 6 w AND 0x1F) OR (w AND 0x3F) = take_bit 11 w"
    "push_bit 6 (push_bit 6 (drop_bit 12 w AND 0x0F) OR (drop_bit 6 w AND 0x3F)) OR (w AND 0x3F) = take_bit 16 w"
    "push_bit 6 (push_bit 6 (push_bit 6 (drop_bit 18 w AND 0x07) OR (drop_bit 12 w AND 0x3F)) OR (drop_bit 6 w AND 0x3F)) OR (w AND 0x3F) = take_bit 21 w"
proof -
  have m: "(0x1F :: u32) = mask 5" "(0x3F :: u32) = mask 6" "(0x0F :: u32) = mask 4" "(0x07 :: u32) = mask 3"
    by (simp_all add: mask_eq_exp_minus_1)
  show "push_bit 6 (drop_bit 6 w AND 0x1F) OR (w AND 0x3F) = take_bit 11 w"
    unfolding m by (rule bit_eqI) (auto simp: bit_simps)
  show "push_bit 6 (push_bit 6 (drop_bit 12 w AND 0x0F) OR (drop_bit 6 w AND 0x3F)) OR (w AND 0x3F) = take_bit 16 w"
  proof (rule bit_eqI)
    fix n
    show "bit (push_bit 6 (push_bit 6 (drop_bit 12 w AND 0x0F) OR (drop_bit 6 w AND 0x3F)) OR (w AND 0x3F)) n = bit (take_bit 16 w) n"
      unfolding m by (cases "n < 6"; cases "n < 12") (auto simp: bit_simps)
  qed
  show "push_bit 6 (push_bit 6 (push_bit 6 (drop_bit 18 w AND 0x07) OR (drop_bit 12 w AND 0x3F)) OR (drop_bit 6 w AND 0x3F)) OR (w AND 0x3F) = take_bit 21 w"
  proof (rule bit_eqI)
    fix n
    show "bit (push_bit 6 (push_bit 6 (push_bit 6 (drop_bit 18 w AND 0x07) OR (drop_bit 12 w AND 0x3F)) OR (drop_bit 6 w AND 0x3F)) OR (w AND 0x3F)) n =
        bit (take_bit 21 w) n"
      unfolding m by (cases "n < 6"; cases "n < 12"; cases "n < 18") (auto simp: bit_simps)
  qed
qed

lemma cont_byte [simp]: "IS_CONT (byte ((w AND 0x3F) OR 0x80))"
  by (simp add: IS_CONT_def and_or_simps)

lemma lead_not_cont [simp]:
  "\<not> IS_CONT (byte ((w AND 0x1F) OR 0xC0))" "\<not> IS_CONT (byte ((w AND 0x0F) OR 0xE0))" "\<not> IS_CONT (byte ((w AND 0x07) OR 0xF0))"
  by (simp_all add: IS_CONT_def and_or_simps)

lemma drop_bit_le: "(w :: u32) \<le> v \<Longrightarrow> drop_bit n w \<le> drop_bit n v"
  by (simp add: word_le_nat_alt unat_drop_bit_eq del: drop_bit_eq_div) (simp add: drop_bit_eq_div div_le_mono)

lemma utf8_two:
  assumes "0x80 \<le> cp" "cp < 0x800"
  shows "verify_utf8_sequence [byte ((drop_bit 6 cp AND 0x1F) OR 0xC0), byte ((cp AND 0x3F) OR 0x80)] = Some 2"
proof -
  let ?b = "(drop_bit 6 cp AND 0x1F) OR 0xC0 :: u32"
  have cp: "take_bit 11 cp = cp" using assms(2) by (intro small_take_bit) (simp add: word_less_nat_alt)
  have "drop_bit 6 0x80 \<le> drop_bit 6 cp" using assms(1) by (rule drop_bit_le)
  moreover have "drop_bit 6 cp \<le> drop_bit 6 0x7FF" using assms(2) by (intro drop_bit_le) (simp add: word_le_nat_alt word_less_nat_alt)
  ultimately have x: "2 \<le> drop_bit 6 cp" "drop_bit 6 cp < 32" by (simp_all add: word_le_nat_alt word_less_nat_alt)
  have "drop_bit 6 cp AND 0x1F = drop_bit 6 cp"
    using small_take_bit [of "drop_bit 6 cp" 5] x(2) by (simp add: take_bit_eq_mask mask_eq_exp_minus_1 word_less_nat_alt)
  then have "?b AND 0x1F = drop_bit 6 cp" by (simp add: and_or_simps)
  then have ne: "?b \<noteq> 0xC0" "?b \<noteq> 0xC1" using x(1) by (auto simp: word_le_nat_alt)
  have "?b AND 0xDF = ?b" by (simp add: and_or_simps)
  then have le: "?b \<le> 0xDF" using word_and_le1 [of ?b "0xDF"] by simp
  then have "\<not> 0xF4 < ?b" by (simp add: word_le_nat_alt word_less_nat_alt)
  then have "num_bytes_in_utf8_sequence (byte ?b) = 2"
    using ne by (simp add: num_bytes_in_utf8_sequence_def Let_def and_or_simps)
  then show ?thesis using assms cp join_bits(1) [of cp]
    by (simp add: verify_utf8_sequence_def utf8_code_point_def Let_def and_or_simps numeral_2_eq_2 [symmetric]) unat_arith
qed

lemma utf8_three:
  assumes "0x800 \<le> cp" "cp < 0x10000" "cp < 0xD800 \<or> 0xDFFF < cp"
  shows "verify_utf8_sequence [byte ((drop_bit 12 cp AND 0x0F) OR 0xE0), byte ((drop_bit 6 cp AND 0x3F) OR 0x80),
    byte ((cp AND 0x3F) OR 0x80)] = Some 3"
proof -
  let ?b = "(drop_bit 12 cp AND 0x0F) OR 0xE0 :: u32"
  have cp: "take_bit 16 cp = cp" using assms(2) by (intro small_take_bit) (simp add: word_less_nat_alt)
  have h: "?b AND 0xE0 = 0xE0" by (simp add: and_or_simps)
  have "(0xC0 :: u32) AND 0xE0 \<noteq> 0xE0" "(0xC1 :: u32) AND 0xE0 \<noteq> 0xE0" by simp_all
  with h have ne: "?b \<noteq> 0xC0" "?b \<noteq> 0xC1" by metis+
  have "?b AND 0xEF = ?b" by (simp add: and_or_simps)
  then have le: "?b \<le> 0xEF" using word_and_le1 [of ?b "0xEF"] by simp
  then have "\<not> 0xF4 < ?b" by (simp add: word_le_nat_alt word_less_nat_alt)
  then have "num_bytes_in_utf8_sequence (byte ?b) = 3"
    using ne by (simp add: num_bytes_in_utf8_sequence_def Let_def and_or_simps)
  then show ?thesis using assms cp join_bits(2) [of cp]
    by (simp add: verify_utf8_sequence_def utf8_code_point_def Let_def and_or_simps) unat_arith
qed

lemma utf8_four:
  assumes "0x10000 \<le> cp" "cp \<le> 0x10FFFF"
  shows "verify_utf8_sequence [byte ((drop_bit 18 cp AND 0x07) OR 0xF0), byte ((drop_bit 12 cp AND 0x3F) OR 0x80),
    byte ((drop_bit 6 cp AND 0x3F) OR 0x80), byte ((cp AND 0x3F) OR 0x80)] = Some 4"
proof -
  let ?b = "(drop_bit 18 cp AND 0x07) OR 0xF0 :: u32"
  have "cp < 2 ^ 21" using assms(2) by (simp add: word_le_nat_alt word_less_nat_alt)
  then have cp: "take_bit 21 cp = cp" by (intro small_take_bit) (simp add: word_less_nat_alt)
  have "drop_bit 18 cp \<le> drop_bit 18 0x10FFFF" using assms(2) by (rule drop_bit_le)
  then have x: "drop_bit 18 cp \<le> 4" by simp
  have y: "drop_bit 18 cp AND 0x07 \<le> 4" using word_and_le2 [of "drop_bit 18 cp" 7] x by (rule order_trans)
  have h: "?b AND 0xF0 = 0xF0" by (simp add: and_or_simps)
  have "(0xC0 :: u32) AND 0xF0 \<noteq> 0xF0" "(0xC1 :: u32) AND 0xF0 \<noteq> 0xF0" by simp_all
  with h have ne: "?b \<noteq> 0xC0" "?b \<noteq> 0xC1" by metis+
  have "(drop_bit 18 cp AND 0x07) AND 0xF0 = 0" by (simp add: and.assoc)
  from disjunctive_add_eq_or [OF this] have "?b = (drop_bit 18 cp AND 0x07) + 0xF0" by simp
  then have "\<not> 0xF4 < ?b" using y by (simp add: word_le_nat_alt word_less_nat_alt unat_plus_if')
  then have "num_bytes_in_utf8_sequence (byte ?b) = 4"
    using ne by (simp add: num_bytes_in_utf8_sequence_def Let_def and_or_simps)
  then show ?thesis using assms cp join_bits(3) [of cp]
    by (simp add: verify_utf8_sequence_def utf8_code_point_def Let_def and_or_simps) unat_arith
qed

lemma hex_range: "-1 \<le> hex_char_to_int c" "hex_char_to_int c < 16"
  by (auto simp: hex_char_to_int_def Let_def)

lemma hex_word: "hex_char_to_int c \<noteq> -1 \<Longrightarrow> take_bit 4 (word_of_int (hex_char_to_int c) :: u32) = word_of_int (hex_char_to_int c)"
proof -
  assume "hex_char_to_int c \<noteq> -1"
  then have "0 \<le> hex_char_to_int c" "hex_char_to_int c < 16" using hex_range [of c] by auto
  then have "(word_of_int (hex_char_to_int c) :: u32) < 16" by (simp add: word_less_def uint_word_of_int)
  then show ?thesis by (intro small_take_bit) (simp add: word_less_nat_alt)
qed

lemma utf16_hex_less:
  assumes "parse_utf16_hex s = Some cp"
  shows "cp < 0x10000"
proof -
  from assms obtain a b c d where x: "hex_char_to_int a \<noteq> -1" "hex_char_to_int b \<noteq> -1" "hex_char_to_int c \<noteq> -1" "hex_char_to_int d \<noteq> -1"
    and cp: "cp = push_bit 12 (word_of_int (hex_char_to_int a)) OR push_bit 8 (word_of_int (hex_char_to_int b)) OR
      push_bit 4 (word_of_int (hex_char_to_int c)) OR word_of_int (hex_char_to_int d)"
    by (auto simp: parse_utf16_hex_def Let_def split: list.splits if_splits)
  have t: "cp = push_bit 12 (take_bit 4 (word_of_int (hex_char_to_int a))) OR push_bit 8 (take_bit 4 (word_of_int (hex_char_to_int b))) OR
      push_bit 4 (take_bit 4 (word_of_int (hex_char_to_int c))) OR take_bit 4 (word_of_int (hex_char_to_int d))"
    unfolding cp hex_word [OF x(1)] hex_word [OF x(2)] hex_word [OF x(3)] hex_word [OF x(4)] by (rule refl)
  have "cp = take_bit 16 cp" unfolding t by (rule bit_eqI) (auto simp: bit_take_bit_iff bit_push_bit_iff bit_or_iff)
  then have "cp AND 0xFFFF = cp" by (simp add: take_bit_eq_mask mask_eq_exp_minus_1)
  then have "cp \<le> 0xFFFF" using word_and_le1 [of cp "0xFFFF"] by simp
  then show ?thesis by (simp add: word_le_nat_alt word_less_nat_alt)
qed

lemma utf8_one: "cp < 0x80 \<Longrightarrow> verify_utf8_sequence [byte cp] = Some 1"
proof -
  assume cp: "cp < 0x80"
  then have t: "take_bit 7 cp = cp" by (intro small_take_bit) (simp add: word_less_nat_alt)
  then have m: "cp AND 0x7F = cp" by (simp add: take_bit_eq_mask mask_eq_exp_minus_1)
  have "cp AND 0xFF = (cp AND 0x7F) AND 0xFF" using m by simp
  also have "\<dots> = cp AND 0x7F" by (simp add: and.assoc)
  finally have bk: "of_char (byte cp) = cp" using m by (intro byte_back) simp
  have "cp AND 0xC0 = (cp AND 0x7F) AND 0xC0" using m by simp
  also have "\<dots> = cp AND 0x40" by (simp add: and.assoc)
  finally have c: "cp AND 0xC0 \<le> 0x40" using word_and_le1 [of cp "0x40"] by simp
  have "cp AND 0x80 = (cp AND 0x7F) AND 0x80" using m by simp
  also have "\<dots> = 0" by (simp add: and.assoc)
  finally have z: "cp AND 0x80 = 0" .
  have "\<not> IS_CONT (byte cp)" using c by (auto simp: IS_CONT_def bk)
  moreover have "cp \<noteq> 0xC0" "cp \<noteq> 0xC1" "\<not> 0xF4 < cp" using cp by (auto simp: word_less_nat_alt)
  ultimately have "num_bytes_in_utf8_sequence (byte cp) = 1" using z by (simp add: num_bytes_in_utf8_sequence_def Let_def bk)
  then show ?thesis using cp by (simp add: verify_utf8_sequence_def utf8_code_point_def bk) unat_arith
qed

lemma surrogates_range:
  fixes lead trail :: u32
  defines "cp \<equiv> (push_bit 10 ((lead - 0xD800) AND 0x3FF) OR ((trail - 0xDC00) AND 0x3FF)) + 0x010000"
  shows "0x10000 \<le> cp" "cp \<le> 0x10FFFF"
proof -
  let ?x = "push_bit 10 ((lead - 0xD800) AND 0x3FF) OR ((trail - 0xDC00) AND 0x3FF)"
  have m: "(0x3FF :: u32) = mask 10" by (simp add: mask_eq_exp_minus_1)
  have "?x AND mask 20 = ?x" unfolding m by (rule bit_eqI) (auto simp: bit_simps)
  then have "?x AND 0xFFFFF = ?x" by (simp add: mask_eq_exp_minus_1)
  then have "?x \<le> 0xFFFFF" using word_and_le1 [of ?x "0xFFFFF"] by simp
  then show "0x10000 \<le> cp" "cp \<le> 0x10FFFF" unfolding cp_def by (simp_all add: word_le_nat_alt unat_plus_if')
qed

lemma parse_utf16_valid:
  assumes "parse_utf16 s = Some (bytes, t)"
  shows "verify_utf8_sequence bytes = Some (length bytes)"
proof -
  from assms obtain cp where cp: "parse_utf16_hex (tl s) = Some cp" by (auto simp: parse_utf16_def Let_def split: option.splits)
  have "0x80 \<le> cp" if "\<not> cp < 0x80" using that by simp
  moreover have "0x800 \<le> cp" if "\<not> cp < 0x800" using that by simp
  ultimately show ?thesis
    using assms utf16_hex_less [OF cp] utf8_one [of cp] utf8_two [of cp] utf8_three [of cp] utf8_four [OF surrogates_range]
    by (auto simp: parse_utf16_def cp Let_def split: if_splits option.splits)
qed

section \<open>Properties\<close>

text \<open>\<^verbatim>\<open>strtod\<close> for the sample texts: decimal digits only.\<close>

definition digits_strtod :: "string \<Rightarrow> strtod_result" where
  "digits_strtod s =
     (let ds = takeWhile (\<lambda>c. 0x30 \<le> (of_char c :: nat) \<and> (of_char c :: nat) \<le> 0x39) s in
      \<lparr>sd_number = Finite (of_nat (foldl (\<lambda>n c. 10 * n + (of_char c - 0x30)) 0 ds)), sd_end = length ds, sd_errno = No_Error\<rparr>)"



text \<open>
  Every Unicode escape the decoder accepts, a pair of surrogates included, leaves exactly one valid
  UTF-8 sequence, as the library's own checker defines it.
\<close>

theorem unicode_escape_valid_utf8:
  assumes "parse_utf16 s = Some (bytes, t)"
  shows "verify_utf8_sequence bytes = Some (length bytes) \<and> is_valid_utf8 bytes (length bytes)"
  using parse_utf16_valid [OF assms] by (auto simp: is_valid_utf8.simps [of bytes] is_valid_utf8.simps [of _ 0])

theorem unicode_escape_valid_utf8_witness:
  "\<exists>bytes t. parse_utf16 (''uD83D'' @ [backslash] @ ''uDE00'') = Some (bytes, t) \<and> length bytes = 4 \<and> verify_utf8_sequence bytes = Some 4"
proof -
  have e: "parse_utf16 (''uD83D'' @ [backslash] @ ''uDE00'') = Some ([CHR 0xF0, CHR 0x9F, CHR 0x98, CHR 0x80], ''0'')" by code_simp
  from unicode_escape_valid_utf8 [OF e] e show ?thesis by simp
qed

text \<open>
  C39: The parser returns on every text, and what it returns is well-formed. The bound on nested calls and loop rounds
  is never met, a larger one gives the same result, and in a parsed value every object satisfies the invariant of
  the hash table, all its names are distinct and without NUL, and no value is nested more than 2049 deep.
\<close>

theorem parser_total_wf:
  "parse_value strtod (call_bound s) 0 s \<noteq> Out_Of_Bound \<and>
   (\<forall>n \<ge> call_bound s. parse_value strtod n 0 s = parse_value strtod (call_bound s) 0 s) \<and>
   (case parse_value strtod (call_bound s) 0 s of Parsed v _ \<Rightarrow> value_wf v \<and> nested_within 2049 v | _ \<Rightarrow> True)"
proof -
  let ?r = "parse_value strtod (call_bound s) 0 s"
  have "returns_within (length s) ?r" by (rule parse_value_returns) (simp add: call_bound_def)
  then have ne: "?r \<noteq> Out_Of_Bound" by (auto simp: returns_within_def)
  have "parse_value strtod n 0 s = ?r" if "call_bound s \<le> n" for n
    using parse_value_stays [OF that, of strtod 0 s] ne unfolding stays_def by blast
  moreover have "case ?r of Parsed v _ \<Rightarrow> value_wf v \<and> nested_within 2049 v | _ \<Rightarrow> True"
  proof (cases ?r)
    case (Parsed v t)
    from parse_value_wf [OF this] Parsed show ?thesis by (simp add: MAX_NESTING_def)
  qed simp_all
  ultimately show ?thesis using ne by blast
qed

text \<open>A text with literals, a nested array, a string and an empty object.\<close>
definition sample_text :: string where
  "sample_text = ''[true, [null, '' @ [quote, CHR ''a'', quote] @ ''], {}]''"
theorem parser_total_wf_witness:
  "\<exists>v. parse_value digits_strtod (call_bound sample_text) 0 sample_text = Parsed v [] \<and>
     parse_value digits_strtod 100 0 sample_text = Parsed v [] \<and> value_wf v \<and> nested_within 2049 v"
proof -
  let ?r = "parse_value digits_strtod (call_bound sample_text) 0 sample_text"
  have "case ?r of Parsed _ rest \<Rightarrow> rest = [] | _ \<Rightarrow> False" by code_simp
  then obtain v where v: "?r = Parsed v []" by (auto split: parsed.splits)
  have "call_bound sample_text \<le> 100" by (simp add: call_bound_def sample_text_def)
  then have "parse_value digits_strtod 100 0 sample_text = ?r"
    using parser_total_wf [of digits_strtod sample_text] by blast
  moreover have "case ?r of Parsed v _ \<Rightarrow> value_wf v \<and> nested_within 2049 v | _ \<Rightarrow> True"
    using parser_total_wf [of digits_strtod sample_text] by blast
  ultimately show ?thesis unfolding v by simp
qed

end
