(* ===== verification/Parson_Print.thy ===== *)
theory Parson_Print
  imports Parson_Parse
begin

unbundle bit_operations_syntax

text \<open>
  The serialiser of the JSON library (kmod/parson.c) and its round trip with the parser. The text of a number is made by
  \<^verbatim>\<open>sprintf\<close> or a function the program sets; it is an argument, None for a negative result. The code runs twice, first to
  count and then to write; both are one function here, whose text gives the count. The counts are \<^verbatim>\<open>int\<close> in the
  code, so texts longer than the largest \<^verbatim>\<open>int\<close> are outside the model.

  The lemmas show that a printed string is decoded to itself, whatever bytes it has, and that printing a well-formed
  value, compact or indented, and parsing the text gives the same tree of names and values back.
\<close>

section \<open>Printing\<close>

definition hex_digit :: "nat \<Rightarrow> char" where
  "hex_digit n = (if n < 10 then char_of (0x30 + n) else char_of (0x61 + (n - 10)))"

definition serialize_char :: "bool \<Rightarrow> char \<Rightarrow> string" where
  "serialize_char escape_slashes c =
     (if c = quote then [backslash, quote]
      else if c = backslash then [backslash, backslash]
      else if c = CHR 0x08 then [backslash, CHR ''b'']
      else if c = CHR 0x0C then [backslash, CHR ''f'']
      else if c = CHR 0x0A then [backslash, CHR ''n'']
      else if c = CHR 0x0D then [backslash, CHR ''r'']
      else if c = CHR 0x09 then [backslash, CHR ''t'']
      else if (of_char c :: nat) < 0x20 then
        [backslash, CHR ''u'', CHR ''0'', CHR ''0'', hex_digit (of_char c div 16), hex_digit (of_char c mod 16)]
      else if c = CHR ''/'' then (if escape_slashes then [backslash, CHR ''/''] else ''/'')
      else [c])"

definition json_serialize_string :: "bool \<Rightarrow> string \<Rightarrow> string" where
  "json_serialize_string escape_slashes s = [quote] @ concat (map (serialize_char escape_slashes) s) @ [quote]"

definition append_indent :: "nat \<Rightarrow> string" where
  "append_indent level = concat (replicate level ''    '')"

record output_options =
  escape_slashes :: bool
  is_pretty :: bool
  number_text :: "rat \<Rightarrow> string option"

definition pretty_text :: "output_options \<Rightarrow> string \<Rightarrow> string" where
  "pretty_text opts s = (if is_pretty opts then s else [])"

text \<open>The lines of an array or object: indentation, element, comma except after the last, line break.\<close>

fun element_lines :: "output_options \<Rightarrow> nat \<Rightarrow> string list \<Rightarrow> string" where
  "element_lines opts level [] = []"
| "element_lines opts level (part # parts) =
     pretty_text opts (append_indent (level + 1)) @ part @ (if parts = [] then [] else '','') @
     pretty_text opts [CHR 0x0A] @ element_lines opts level parts"

definition bracketed :: "output_options \<Rightarrow> nat \<Rightarrow> string \<Rightarrow> string list \<Rightarrow> string \<Rightarrow> string" where
  "bracketed opts level open_text parts close_text =
     open_text @ (if parts = [] then [] else pretty_text opts [CHR 0x0A]) @ element_lines opts level parts @
     (if parts = [] then [] else pretty_text opts (append_indent level)) @ close_text"

definition member_text :: "output_options \<Rightarrow> string \<Rightarrow> string \<Rightarrow> string" where
  "member_text opts key part = json_serialize_string (escape_slashes opts) (c_string key) @ '':'' @ pretty_text opts '' '' @ part"

fun those :: "'a option list \<Rightarrow> 'a list option" where
  "those [] = Some []"
| "those (x # xs) = (case x of None \<Rightarrow> None | Some y \<Rightarrow> map_option (Cons y) (those xs))"

fun json_serialize_to_buffer_r :: "output_options \<Rightarrow> nat \<Rightarrow> json_value \<Rightarrow> string option" where
  "json_serialize_to_buffer_r opts level (Array items) =
     map_option (\<lambda>parts. bracketed opts level ''['' parts '']'')
       (those (map (json_serialize_to_buffer_r opts (level + 1)) items))"
| "json_serialize_to_buffer_r opts level (Object ob) =
     map_option (\<lambda>parts. bracketed opts level ''{'' (map2 (member_text opts) (names ob) parts) ''}'')
       (those (map (json_serialize_to_buffer_r opts (level + 1)) (vals ob)))"
| "json_serialize_to_buffer_r opts level (String s) = Some (json_serialize_string (escape_slashes opts) s)"
| "json_serialize_to_buffer_r opts level (Boolean b) = Some (if b then ''true'' else ''false'')"
| "json_serialize_to_buffer_r opts level (Number r) = number_text opts r"
| "json_serialize_to_buffer_r opts level Null = Some ''null''"

definition json_serialization_size :: "output_options \<Rightarrow> json_value \<Rightarrow> nat" where
  "json_serialization_size opts v = (case json_serialize_to_buffer_r opts 0 v of None \<Rightarrow> 0 | Some s \<Rightarrow> length s + 1)"

text \<open>The bytes written to the buffer, terminator included; None is a failure.\<close>

definition json_serialize_to_buffer :: "output_options \<Rightarrow> json_value \<Rightarrow> nat \<Rightarrow> string option" where
  "json_serialize_to_buffer opts v buf_size_in_bytes =
     (let needed = json_serialization_size opts v in
      if needed = 0 \<or> buf_size_in_bytes < needed then None
      else map_option (\<lambda>s. s @ [NUL]) (json_serialize_to_buffer_r opts 0 v))"

definition json_serialize_to_string :: "output_options \<Rightarrow> json_value \<Rightarrow> string option" where
  "json_serialize_to_string opts v =
     (let buf_size = json_serialization_size opts v in
      if buf_size = 0 then None else json_serialize_to_buffer opts v buf_size)"

section \<open>A printed string is decoded to itself\<close>

lemma hex_digit_int: "n < 16 \<Longrightarrow> hex_char_to_int (hex_digit n) = int n"
proof -
  have "list_all (\<lambda>n. hex_char_to_int (hex_digit n) = int n) [0..<16]" by code_simp
  then show "n < 16 \<Longrightarrow> ?thesis" by (simp add: list_all_iff)
qed

lemma control_word:
  "n < 32 \<Longrightarrow> push_bit 4 (word_of_int (int (n div 16)) :: u32) OR word_of_int (int (n mod 16)) = of_nat n"
proof -
  have "list_all (\<lambda>n. push_bit 4 (word_of_int (int (n div 16)) :: u32) OR word_of_int (int (n mod 16)) = of_nat n) [0..<32]"
    by code_simp
  then show "n < 32 \<Longrightarrow> ?thesis" by (simp add: list_all_iff)
qed

lemma control_escape:
  assumes "(of_char c :: nat) < 0x20"
  shows "parse_utf16 (CHR ''u'' # CHR ''0'' # CHR ''0'' # hex_digit (of_char c div 16) # hex_digit (of_char c mod 16) # s) =
    Some ([c], hex_digit (of_char c mod 16) # s)"
proof -
  let ?n = "of_char c :: nat"
  have z: "hex_char_to_int (CHR ''0'') = 0" by (simp add: hex_char_to_int_def)
  have "parse_utf16_hex (CHR ''0'' # CHR ''0'' # hex_digit (?n div 16) # hex_digit (?n mod 16) # s) = Some (of_nat ?n)"
    using assms control_word [of ?n] by (simp add: parse_utf16_hex_def z hex_digit_int del: of_nat_of_char)
  moreover have "(of_nat ?n :: u32) < 0x80" using assms by (simp add: word_less_nat_alt unsigned_of_nat take_bit_nat_eq_self del: of_nat_of_char)
  moreover have "byte (of_nat ?n) = c" using assms by (simp add: byte_def unsigned_of_nat take_bit_nat_eq_self del: of_nat_of_char)
  ultimately show ?thesis by (simp add: parse_utf16_def)
qed

lemma process_serialized_char:
  "process_from (length (serialize_char slashes c @ s)) (serialize_char slashes c @ s) = map_option (Cons c) (process_from (length s) s)"
proof (cases "serialize_char slashes c = [c]")
  case True
  then have "c \<noteq> backslash" "\<not> (of_char c :: nat) < 0x20" by (auto simp: serialize_char_def split: if_splits)
  then show ?thesis by (simp add: True process_from.simps [of "Suc (length s)"])
next
  case False
  then consider (escape) e where "serialize_char slashes c = [backslash, e]" "e \<noteq> CHR ''u''" "simple_escape e = Some c"
    | (control) "serialize_char slashes c =
        [backslash, CHR ''u'', CHR ''0'', CHR ''0'', hex_digit (of_char c div 16), hex_digit (of_char c mod 16)]" "(of_char c :: nat) < 0x20"
    by (auto simp: serialize_char_def simple_escape_def split: if_splits)
  then show ?thesis
  proof cases
    case escape
    then show ?thesis by (simp add: process_from.simps [of "Suc (Suc (length s))"])
  next
    case control
    have "(@) [c] = (#) c" by (rule ext) simp
    with control show ?thesis by (simp add: process_from.simps [of "Suc (Suc _)"] control_escape)
  qed
qed

lemma process_serialized: "process_from (length (concat (map (serialize_char slashes) s))) (concat (map (serialize_char slashes) s)) = Some s"
proof (induction s)
  case (Cons c s)
  then show ?case using process_serialized_char [of slashes c "concat (map (serialize_char slashes) s)"] by simp
qed (simp add: process_from.simps)

lemma hex_digit_not_quoting: "n < 16 \<Longrightarrow> hex_digit n \<noteq> quote \<and> hex_digit n \<noteq> backslash"
  using hex_digit_int [of n] by auto

lemma serialized_quoted: "quoted (concat (map (serialize_char slashes) s))"
proof (induction s)
  case (Cons c s)
  have "quoted (serialize_char slashes c @ t) = quoted t" for t
    using hex_digit_not_quoting [of "of_char c div 16"] hex_digit_not_quoting [of "of_char c mod 16"] by (auto simp: serialize_char_def)
  with Cons show ?case by simp
qed simp

lemma get_serialized_string: "get_quoted_string (json_serialize_string slashes s @ rest) = Some (s, rest)"
  using get_quoted_string_body [OF serialized_quoted, of slashes s rest] by (simp add: json_serialize_string_def process_serialized)

section \<open>Printing and parsing a value\<close>

text \<open>A value without the layout of its hash tables.\<close>

datatype json_tree =
    Tree_Null
  | Tree_String string
  | Tree_Number rat
  | Tree_Object "(string \<times> json_tree) list"
  | Tree_Array "json_tree list"
  | Tree_Boolean bool

fun tree_of :: "json_value \<Rightarrow> json_tree" where
  "tree_of Null = Tree_Null"
| "tree_of (String s) = Tree_String s"
| "tree_of (Number r) = Tree_Number r"
| "tree_of (Object ob) = Tree_Object (zip (names ob) (map tree_of (vals ob)))"
| "tree_of (Array items) = Tree_Array (map tree_of items)"
| "tree_of (Boolean b) = Tree_Boolean b"

definition delimits :: "string \<Rightarrow> bool" where
  "delimits rest \<longleftrightarrow> peek rest \<in> {NUL, CHR '','', CHR '']'', CHR ''}'', CHR 0x0A}"

text \<open>What printing relies on: \<^verbatim>\<open>strtod\<close> reads the text of a number back, up to a character that cannot belong to a number.\<close>

definition number_reads :: "(string \<Rightarrow> strtod_result) \<Rightarrow> output_options \<Rightarrow> rat \<Rightarrow> bool" where
  "number_reads strtod opts r \<longleftrightarrow> (case number_text opts r of
     None \<Rightarrow> False
   | Some t \<Rightarrow> is_number_start (peek t) \<and> is_decimal t (length t) \<and>
       (\<forall>rest. delimits rest \<longrightarrow> strtod (t @ rest) = \<lparr>sd_number = Finite r, sd_end = length t, sd_errno = No_Error\<rparr>))"

fun numbers_read :: "(string \<Rightarrow> strtod_result) \<Rightarrow> output_options \<Rightarrow> json_value \<Rightarrow> bool" where
  "numbers_read strtod opts (Number r) = number_reads strtod opts r"
| "numbers_read strtod opts (Object ob) = (\<forall>v \<in> set (vals ob). numbers_read strtod opts v)"
| "numbers_read strtod opts (Array items) = (\<forall>v \<in> set items. numbers_read strtod opts v)"
| "numbers_read strtod opts v = True"

definition value_start :: "char \<Rightarrow> bool" where
  "value_start c \<longleftrightarrow> c \<in> {CHR ''{'', CHR ''['', quote, CHR ''t'', CHR ''f'', CHR ''n''} \<or> is_number_start c"

lemma value_start_simps:
  assumes "value_start c"
  shows "\<not> isspace c" "c \<noteq> NUL" "c \<noteq> CHR '']''" "c \<noteq> CHR ''}''" "c \<noteq> CHR 0xEF"
  using assms by (auto simp: value_start_def is_number_start_def isspace_def NUL_def)

definition blank :: "string \<Rightarrow> bool" where
  "blank s \<longleftrightarrow> list_all isspace s"

lemma skip_blank: "blank w \<Longrightarrow> skip_whitespaces (w @ s) = skip_whitespaces s"
  by (induction w) (auto simp: blank_def skip_whitespaces_def)

lemma skip_nonspace: "\<not> isspace (peek s) \<Longrightarrow> skip_whitespaces s = s"
  by (cases s) (simp_all add: skip_whitespaces_def)

text \<open>Text \<open>p\<close> is read at nesting \<open>k\<close> as a value with the tree \<open>tr\<close>.\<close>

definition reads :: "(string \<Rightarrow> strtod_result) \<Rightarrow> nat \<Rightarrow> string \<Rightarrow> json_tree \<Rightarrow> bool" where
  "reads strtod k p tr \<longleftrightarrow> value_start (peek p) \<and>
     (\<forall>rest n. delimits rest \<longrightarrow> length p + length rest + 2 \<le> n \<longrightarrow>
        (\<exists>v. parse_value strtod n k (p @ rest) = Parsed v rest \<and> tree_of v = tr))"

lemma readsD:
  assumes "reads strtod k p tr" "delimits rest" "length p + length rest + 2 \<le> n"
  obtains v where "parse_value strtod n k (p @ rest) = Parsed v rest" "tree_of v = tr"
  using assms unfolding reads_def by blast

lemma reads_start: "reads strtod k p tr \<Longrightarrow> value_start (peek p) \<and> p \<noteq> []"
  by (auto simp: reads_def dest: value_start_simps(2))

text \<open>The rest of the elements after the first, with the white space between them.\<close>

fun more :: "string \<Rightarrow> string \<Rightarrow> string list \<Rightarrow> string" where
  "more inner outer [] = outer"
| "more inner outer (p # ps) = '','' @ inner @ p @ more inner outer ps"

definition line_start :: "string \<Rightarrow> bool" where
  "line_start w \<longleftrightarrow> blank w \<and> (w = [] \<or> hd w = CHR 0x0A)"

lemma more_delimits: "line_start outer \<Longrightarrow> c \<in> {CHR '']'', CHR ''}''} \<Longrightarrow> delimits (more inner outer ps @ c # rest)"
  by (cases ps; cases outer) (auto simp: delimits_def line_start_def)

lemma parse_value_blank: "blank w \<Longrightarrow> parse_value strtod n k (w @ s) = parse_value strtod n k s"
  by (cases n) (simp_all add: skip_blank)

lemma skip_not_space [simp]: "\<not> isspace c \<Longrightarrow> skip_whitespaces (c # s) = c # s"
  by (simp add: skip_whitespaces_def)

lemma brackets_not_space [simp]: "\<not> isspace (CHR '','')" "\<not> isspace (CHR '']'')" "\<not> isspace (CHR ''}'')" "\<not> isspace (CHR '':'')"
  "\<not> isspace (CHR ''['')" "\<not> isspace (CHR ''{'')" "\<not> isspace quote"
  by (simp_all add: isspace_def)

lemma elements_read:
  assumes inner: "blank inner" and outer: "line_start outer"
  shows "reads strtod k p tr \<Longrightarrow> list_all2 (reads strtod k) ps trs \<Longrightarrow>
    length (p @ more inner outer ps @ '']'' @ rest) + 2 \<le> m \<Longrightarrow> length (p @ more inner outer ps @ '']'' @ rest) < n \<Longrightarrow>
    \<exists>vs. parse_elements (parse_value strtod m k) n items (p @ more inner outer ps @ '']'' @ rest) = Parsed (Array (items @ vs)) rest \<and>
      map tree_of vs = tr # trs"
proof (induction ps arbitrary: p tr trs items n)
  case Nil
  from Nil.prems(4) obtain n' where n: "n = Suc n'" by (cases n) auto
  have "delimits (outer @ CHR '']'' # rest)" using more_delimits [OF outer, of "CHR '']''" inner "[]" rest] by simp
  from readsD [OF Nil.prems(1) this, of m] Nil.prems(3) obtain v where
    v: "parse_value strtod m k (p @ outer @ CHR '']'' # rest) = Parsed v (outer @ CHR '']'' # rest)" "tree_of v = tr" by auto
  have "skip_whitespaces (outer @ CHR '']'' # rest) = CHR '']'' # rest" using outer by (simp add: line_start_def skip_blank)
  then show ?case using v Nil.prems(2) reads_start [OF Nil.prems(1)]
    by (simp add: n close_array_def json_array_resize_def Let_def)
next
  case (Cons q ps)
  from Cons.prems(4) obtain n' where n: "n = Suc n'" by (cases n) auto
  from Cons.prems(2) obtain tr' trs' where trs: "trs = tr' # trs'" "reads strtod k q tr'" "list_all2 (reads strtod k) ps trs'"
    by (auto simp: list_all2_Cons1)
  let ?t = "q @ more inner outer ps @ '']'' @ rest"
  have "delimits ('','' @ inner @ ?t)" by (simp add: delimits_def)
  from readsD [OF Cons.prems(1) this, of m] Cons.prems(3) obtain v where
    v: "parse_value strtod m k (p @ '','' @ inner @ ?t) = Parsed v ('','' @ inner @ ?t)" "tree_of v = tr" by auto
  have q: "value_start (peek q)" "q \<noteq> []" using reads_start [OF trs(2)] by auto
  then have pk: "peek ?t = peek q" by simp
  have sk: "skip_whitespaces (inner @ ?t) = ?t" using inner q pk value_start_simps(1) [OF q(1)] by (simp add: skip_blank skip_nonspace)
  have "\<exists>vs. parse_elements (parse_value strtod m k) n' (items @ [v]) ?t = Parsed (Array ((items @ [v]) @ vs)) rest \<and> map tree_of vs = tr' # trs'"
    using Cons.prems(3,4) n by (intro Cons.IH trs) auto
  then obtain vs where "parse_elements (parse_value strtod m k) n' (items @ [v]) ?t = Parsed (Array ((items @ [v]) @ vs)) rest" "map tree_of vs = tr' # trs'"
    by (elim exE conjE) (rule that)
  then show ?case using v sk pk value_start_simps(3) [OF q(1)] reads_start [OF Cons.prems(1)] trs(1)
    by (intro exI [of _ "v # vs"]) (simp add: n Let_def)
qed

lemma member_step:
  fixes slashes :: bool
  assumes "reads strtod k p tr" "delimits rest" "object_inv ob" "key \<notin> set (names ob)" "NUL \<notin> set key" "blank sp"
    "length p + length rest + 2 \<le> m"
  shows "\<exists>v ob'. tree_of v = tr \<and> object_inv ob' \<and> names ob' = names ob @ [key] \<and> vals ob' = vals ob @ [v] \<and>
    parse_members (parse_value strtod m k) (Suc n) ob (json_serialize_string slashes key @ '':'' @ sp @ p @ rest) =
      (if peek (skip_whitespaces rest) \<noteq> CHR '','' then close_object ob' (skip_whitespaces rest)
       else let s3 = skip_whitespaces (tl (skip_whitespaces rest)) in
         if peek s3 = CHR ''}'' then close_object ob' s3 else parse_members (parse_value strtod m k) n ob' s3)"
proof -
  from readsD [OF assms(1,2,7)] obtain v where v: "parse_value strtod m k (p @ rest) = Parsed v rest" "tree_of v = tr" .
  have fresh: "key \<notin> fst ` set (object_entries ob)" using assms(3,4) by (simp add: entries_names)
  from json_ob.add_fresh [OF assms(3,5) fresh, of v] obtain ob' where
    add: "json_object_add 1 ob key v = Some ob'" and ob': "object_inv ob'" "object_entries ob' = object_entries ob @ [(key, v)]" by blast
  have "map fst (object_entries ob) = names ob \<and> map snd (object_entries ob) = vals ob" if "object_inv ob" for ob :: json_ob
    using object_invD(4) [OF that] by (simp add: object_entries_def)
  from this [OF ob'(1)] this [OF assms(3)] ob'(2) have nv: "names ob' = names ob @ [key]" "vals ob' = vals ob @ [v]" by auto
  have len: "length key = strlen key" using assms(5) by (simp add: strlen_id)
  have ne: "json_serialize_string slashes key @ t \<noteq> []" for t by (simp add: json_serialize_string_def)
  show ?thesis
    using v add ob'(1) nv len get_serialized_string [of slashes key "'':'' @ sp @ p @ rest"] ne parse_value_blank [OF assms(6), of strtod m k "p @ rest"]
    by (intro exI [of _ v] exI [of _ ob']) simp
qed

lemma members_read:
  fixes slashes :: bool
  assumes inner: "blank inner" and outer: "line_start outer" and sp: "blank sp"
  defines "mtext \<equiv> \<lambda>key p. json_serialize_string slashes key @ '':'' @ sp @ p"
  shows "reads strtod k p tr \<Longrightarrow> list_all2 (reads strtod k) ps trs \<Longrightarrow> length keys = length ps \<Longrightarrow>
    object_inv ob \<Longrightarrow> distinct (names ob @ key # keys) \<Longrightarrow> \<forall>key \<in> set (key # keys). NUL \<notin> set key \<Longrightarrow>
    length (mtext key p @ more inner outer (map2 mtext keys ps) @ ''}'' @ rest) + 2 \<le> m \<Longrightarrow>
    length (mtext key p @ more inner outer (map2 mtext keys ps) @ ''}'' @ rest) < n \<Longrightarrow>
    \<exists>vs ob'. parse_members (parse_value strtod m k) n ob (mtext key p @ more inner outer (map2 mtext keys ps) @ ''}'' @ rest) =
        Parsed (Object ob') rest \<and> names ob' = names ob @ key # keys \<and> vals ob' = vals ob @ vs \<and> map tree_of vs = tr # trs"
proof (induction ps arbitrary: p tr trs key keys ob n)
  case Nil
  from Nil.prems(8) obtain n' where n: "n = Suc n'" by (cases n) auto
  let ?rest = "outer @ CHR ''}'' # rest"
  have d: "delimits ?rest" using more_delimits [OF outer, of "CHR ''}''" inner "[]" rest] by simp
  have sk: "skip_whitespaces ?rest = CHR ''}'' # rest" using outer by (simp add: line_start_def skip_blank)
  have "length p + length ?rest + 2 \<le> m" "key \<notin> set (names ob)" "NUL \<notin> set key" using Nil.prems by (auto simp: mtext_def)
  from member_step [OF Nil.prems(1) d Nil.prems(4) this(2,3) sp this(1), of n' slashes]
  obtain v ob' where "tree_of v = tr" "names ob' = names ob @ [key]" "vals ob' = vals ob @ [v]"
    "parse_members (parse_value strtod m k) n ob (mtext key p @ ?rest) = Parsed (Object ob') rest"
    by (auto simp: n mtext_def sk close_object_def)
  then show ?case using Nil.prems(2,3) by auto
next
  case (Cons q ps)
  from Cons.prems(8) obtain n' where n: "n = Suc n'" by (cases n) auto
  from Cons.prems(2) obtain tr' trs' where trs: "trs = tr' # trs'" "reads strtod k q tr'" "list_all2 (reads strtod k) ps trs'"
    by (auto simp: list_all2_Cons1)
  from Cons.prems(3) obtain key' keys' where keys: "keys = key' # keys'" "length keys' = length ps" by (cases keys) auto
  define t where "t = mtext key' q @ more inner outer (map2 mtext keys' ps) @ ''}'' @ rest"
  let ?rest = "'','' @ inner @ t"
  have d: "delimits ?rest" by (simp add: delimits_def)
  have pk: "peek t = quote" by (simp add: t_def mtext_def json_serialize_string_def)
  then have sk: "skip_whitespaces (inner @ t) = t" using inner by (simp add: skip_blank skip_nonspace)
  have "length p + length ?rest + 2 \<le> m" "key \<notin> set (names ob)" "NUL \<notin> set key" using Cons.prems keys by (auto simp: mtext_def t_def)
  from member_step [OF Cons.prems(1) d Cons.prems(4) this(2,3) sp this(1), of n' slashes]
  obtain v ob1 where v: "tree_of v = tr" "object_inv ob1" "names ob1 = names ob @ [key]" "vals ob1 = vals ob @ [v]"
    and p: "parse_members (parse_value strtod m k) (Suc n') ob (json_serialize_string slashes key @ '':'' @ sp @ p @ ?rest) =
      (if peek (skip_whitespaces ?rest) \<noteq> CHR '','' then close_object ob1 (skip_whitespaces ?rest)
       else let s3 = skip_whitespaces (tl (skip_whitespaces ?rest)) in
         if peek s3 = CHR ''}'' then close_object ob1 s3 else parse_members (parse_value strtod m k) n' ob1 s3)"
    by (elim exE conjE) (rule that)
  have p: "parse_members (parse_value strtod m k) n ob (mtext key p @ more inner outer (map2 mtext keys (q # ps)) @ ''}'' @ rest) =
      parse_members (parse_value strtod m k) n' ob1 t"
    using p sk pk by (simp only: n mtext_def keys t_def) (simp add: Let_def)
  have "\<exists>vs ob'. parse_members (parse_value strtod m k) n' ob1 t = Parsed (Object ob') rest \<and>
      names ob' = names ob1 @ key' # keys' \<and> vals ob' = vals ob1 @ vs \<and> map tree_of vs = tr' # trs'"
    unfolding t_def using Cons.prems(5-8) n keys v by (intro Cons.IH trs) (auto simp: mtext_def)
  then obtain vs ob' where "parse_members (parse_value strtod m k) n' ob1 t = Parsed (Object ob') rest"
    "names ob' = names ob1 @ key' # keys'" "vals ob' = vals ob1 @ vs" "map tree_of vs = tr' # trs'" by (elim exE conjE) (rule that)
  then show ?case using p v trs(1) keys(1) by (intro exI [of _ "v # vs"] exI [of _ ob']) simp
qed

lemma nested_within_pos: "nested_within d v \<Longrightarrow> 0 < d"
  by (cases v) auto

lemma those_map:
  "(\<And>x. x \<in> set xs \<Longrightarrow> \<exists>s. f x = Some s \<and> R s (g x)) \<Longrightarrow> \<exists>ss. those (map f xs) = Some ss \<and> list_all2 R ss (map g xs)"
proof (induction xs)
  case (Cons x xs)
  from Cons.prems [of x] obtain s where "f x = Some s" "R s (g x)" by auto
  moreover from Cons obtain ss where "those (map f xs) = Some ss" "list_all2 R ss (map g xs)" by auto
  ultimately show ?case by auto
qed simp

lemma bracketed_text:
  fixes opts level
  defines "inner \<equiv> pretty_text opts [CHR 0x0A] @ pretty_text opts (append_indent (level + 1))"
    and "outer \<equiv> pretty_text opts [CHR 0x0A] @ pretty_text opts (append_indent level)"
  shows "bracketed opts level op (p # ps) cl = op @ inner @ p @ more inner outer ps @ cl" and "blank inner" and "line_start outer"
proof -
  have "element_lines opts level (p # ps) @ pretty_text opts (append_indent level) = pretty_text opts (append_indent (level + 1)) @ p @ more inner outer ps"
    by (induction ps arbitrary: p) (simp_all add: inner_def outer_def)
  then show "bracketed opts level op (p # ps) cl = op @ inner @ p @ more inner outer ps @ cl"
    by (simp add: bracketed_def inner_def)
  have "list_all isspace (append_indent n)" for n
    by (induction n) (simp_all add: append_indent_def isspace_def)
  then show "blank inner" "line_start outer"
    by (simp_all add: inner_def outer_def blank_def line_start_def pretty_text_def isspace_def)
qed

lemma array_reads:
  assumes "list_all2 (reads strtod (k + 1)) ps trs" "k \<le> MAX_NESTING"
  shows "reads strtod k (bracketed opts level ''['' ps '']'') (Tree_Array trs)"
proof (cases ps)
  case Nil
  have "\<exists>v. parse_value strtod n k (''[]'' @ rest) = Parsed v rest \<and> tree_of v = Tree_Array []" if "2 \<le> n" for n rest
    using that assms(2) by (cases n) (simp_all add: parse_array_value_def Let_def)
  then show ?thesis using Nil assms(1) by (auto simp: reads_def bracketed_def value_start_def)
next
  case (Cons p ps')
  with assms(1) obtain tr trs' where trs: "trs = tr # trs'" "reads strtod (k + 1) p tr" "list_all2 (reads strtod (k + 1)) ps' trs'"
    by (auto simp: list_all2_Cons1)
  obtain inner outer where w: "blank inner" "line_start outer" "bracketed opts level ''['' ps '']'' = ''['' @ inner @ p @ more inner outer ps' @ '']''"
    using bracketed_text(1) [of opts level "''[''" p ps' "'']''"] bracketed_text(2,3) [of opts level] Cons by blast
  have "\<exists>v. parse_value strtod n k (bracketed opts level ''['' ps '']'' @ rest) = Parsed v rest \<and> tree_of v = Tree_Array trs"
    if n: "length (bracketed opts level ''['' ps '']'') + length rest + 2 \<le> n" for n rest
  proof -
    obtain n' where n': "n = Suc n'" using n by (cases n) auto
    define t where "t = p @ more inner outer ps' @ '']'' @ rest"
    have "\<exists>vs. parse_elements (parse_value strtod n' (k + 1)) n' [] t = Parsed (Array ([] @ vs)) rest \<and> map tree_of vs = tr # trs'"
      unfolding t_def using n n' w(3) by (intro elements_read w trs) auto
    moreover have st: "value_start (peek t)" using reads_start [OF trs(2)] by (simp add: t_def)
    moreover have "skip_whitespaces (inner @ t) = t" using w(1) st value_start_simps(1) by (simp add: skip_blank skip_nonspace)
    moreover have "bracketed opts level ''['' ps '']'' @ rest = CHR ''['' # inner @ t" by (simp add: w(3) t_def)
    ultimately show ?thesis using value_start_simps(3) [OF st] assms(2) trs(1)
      by (auto simp: n' parse_array_value_def Let_def)
  qed
  then show ?thesis by (simp add: reads_def value_start_def w(3))
qed

lemma object_reads:
  assumes "list_all2 (reads strtod (k + 1)) ps trs" "k \<le> MAX_NESTING" "length keys = length ps" "distinct keys" "\<forall>key \<in> set keys. NUL \<notin> set key"
  shows "reads strtod k (bracketed opts level ''{'' (map2 (member_text opts) keys ps) ''}'') (Tree_Object (zip keys trs))"
proof (cases ps)
  case Nil
  have "\<exists>v. parse_value strtod n k (''{}'' @ rest) = Parsed v rest \<and> tree_of v = Tree_Object []" if "2 \<le> n" for n rest
    using that assms(2) by (cases n) (simp_all add: parse_object_value_def json_object_make_def json_object_init_def Let_def)
  then show ?thesis using Nil assms(1,3) by (auto simp: reads_def bracketed_def value_start_def)
next
  case (Cons p ps')
  with assms(1) obtain tr trs' where trs: "trs = tr # trs'" "reads strtod (k + 1) p tr" "list_all2 (reads strtod (k + 1)) ps' trs'"
    by (auto simp: list_all2_Cons1)
  from assms(3) Cons obtain key keys' where keys: "keys = key # keys'" "length keys' = length ps'" by (cases keys) auto
  let ?sp = "pretty_text opts '' ''"
  let ?m = "\<lambda>key p. json_serialize_string (escape_slashes opts) key @ '':'' @ ?sp @ p"
  have "map2 (member_text opts) keys ps = map2 ?m keys ps"
    using assms(5) by (intro map_cong refl) (auto simp: member_text_def c_string_id dest: set_zip_leftD)
  then have parts: "map2 (member_text opts) keys ps = ?m key p # map2 ?m keys' ps'" using Cons keys by simp
  have sp: "blank ?sp" by (simp add: blank_def pretty_text_def isspace_def)
  define whole where "whole = bracketed opts level ''{'' (map2 (member_text opts) keys ps) ''}''"
  obtain inner outer where w: "blank inner" "line_start outer"
    "whole = ''{'' @ inner @ ?m key p @ more inner outer (map2 ?m keys' ps') @ ''}''"
    unfolding whole_def parts
    using bracketed_text(1) [of opts level "''{''" "?m key p" "map2 ?m keys' ps'" "''}''"] bracketed_text(2,3) [of opts level] by blast
  have "\<exists>v. parse_value strtod n k (whole @ rest) = Parsed v rest \<and> tree_of v = Tree_Object (zip keys trs)"
    if n: "length whole + length rest + 2 \<le> n" for n rest
  proof -
    obtain n' where n': "n = Suc n'" using n by (cases n) auto
    define t where "t = ?m key p @ more inner outer (map2 ?m keys' ps') @ ''}'' @ rest"
    have nn: "names (json_object_make :: json_ob) = []" "vals (json_object_make :: json_ob) = []" by (simp_all add: json_object_make_def json_object_init_def)
    have l: "whole @ rest = ''{'' @ inner @ t" by (simp add: w(3) t_def)
    have "length t + 2 \<le> n'" using n n' arg_cong [OF l, of length] by simp
    then have "\<exists>vs ob'. parse_members (parse_value strtod n' (k + 1)) n' json_object_make t = Parsed (Object ob') rest \<and>
        names ob' = names (json_object_make :: json_ob) @ key # keys' \<and> vals ob' = vals json_object_make @ vs \<and> map tree_of vs = tr # trs'"
      unfolding t_def using assms(4,5) keys nn by (intro members_read w sp trs json_ob.make_inv) auto
    then obtain vs ob' where ob': "parse_members (parse_value strtod n' (k + 1)) n' json_object_make t = Parsed (Object ob') rest"
      "names ob' = key # keys'" "vals ob' = vs" "map tree_of vs = tr # trs'" by (auto simp: nn)
    have pk: "peek t = quote" by (simp add: t_def json_serialize_string_def)
    then have "skip_whitespaces (inner @ t) = t" using w(1) by (simp add: skip_blank skip_nonspace)
    then show ?thesis using pk ob' assms(2) trs(1) keys(1) l
      by (simp add: n' parse_object_value_def Let_def)
  qed
  then show ?thesis by (simp add: reads_def value_start_def w(3) whole_def [symmetric])
qed

lemma reads_leafI:
  assumes "value_start (peek p)"
    and "\<And>rest n. delimits rest \<Longrightarrow> \<exists>v. parse_value strtod (Suc n) k (p @ rest) = Parsed v rest \<and> tree_of v = tr"
  shows "reads strtod k p tr"
  unfolding reads_def
proof (intro conjI allI impI)
  fix rest n assume "delimits rest" "length p + length rest + 2 \<le> n"
  then show "\<exists>v. parse_value strtod n k (p @ rest) = Parsed v rest \<and> tree_of v = tr" using assms(2) by (cases n) auto
qed (rule assms)

lemma leaf_reads:
  assumes "k \<le> MAX_NESTING"
  shows "reads strtod k (json_serialize_string slashes s) (Tree_String s)" "reads strtod k ''true'' (Tree_Boolean True)"
    "reads strtod k ''false'' (Tree_Boolean False)" "reads strtod k ''null'' Tree_Null"
    "number_reads strtod opts r \<Longrightarrow> \<exists>t. number_text opts r = Some t \<and> reads strtod k t (Tree_Number r)"
proof -
  have pk: "peek (json_serialize_string slashes s @ rest) = quote" for rest by (simp add: json_serialize_string_def)
  show "reads strtod k (json_serialize_string slashes s) (Tree_String s)"
    using assms pk pk [of "[]"] get_serialized_string
    by (intro reads_leafI) (simp_all add: value_start_def parse_string_value_def skip_nonspace Let_def)
  show "reads strtod k ''true'' (Tree_Boolean True)" "reads strtod k ''false'' (Tree_Boolean False)" "reads strtod k ''null'' Tree_Null"
    using assms
    by (intro reads_leafI; simp add: value_start_def parse_boolean_value_def parse_null_value_def is_number_start_def isspace_def skip_nonspace Let_def)+
  assume "number_reads strtod opts r"
  then obtain t where t: "number_text opts r = Some t" "is_number_start (peek t)" "is_decimal t (length t)"
    "\<And>rest. delimits rest \<Longrightarrow> strtod (t @ rest) = \<lparr>sd_number = Finite r, sd_end = length t, sd_errno = No_Error\<rparr>"
    by (auto simp: number_reads_def split: option.splits)
  have ne: "t \<noteq> []" using t(2) by (auto simp: is_number_start_def NUL_def)
  have dec: "is_decimal (t @ rest) (length t)" for rest
    using t(3) by (auto simp: is_decimal_def peek_def split: list.splits)
  have st: "value_start (peek t)" using t(2) by (simp add: value_start_def)
  have "c \<noteq> CHR ''{'' \<and> c \<noteq> CHR ''['' \<and> c \<noteq> quote \<and> c \<noteq> CHR ''f'' \<and> c \<noteq> CHR ''t''" if "is_number_start c" for c
    using that by (auto simp: is_number_start_def)
  then have "reads strtod k t (Tree_Number r)"
    using assms t(2,4) ne dec st value_start_simps(1) [OF st]
    by (intro reads_leafI) (simp_all add: parse_number_value_def json_value_init_number_def skip_nonspace Let_def)
  with t(1) show "\<exists>t. number_text opts r = Some t \<and> reads strtod k t (Tree_Number r)" by blast
qed

lemma serialize_reads:
  "value_wf v \<Longrightarrow> nested_within (MAX_NESTING + 1 - k) v \<Longrightarrow> numbers_read strtod opts v \<Longrightarrow>
   \<exists>s. json_serialize_to_buffer_r opts level v = Some s \<and> reads strtod k s (tree_of v)"
proof (induction opts level v arbitrary: k rule: json_serialize_to_buffer_r.induct)
  case (1 opts level items)
  have k: "k \<le> MAX_NESTING" using nested_within_pos [OF "1.prems"(2)] by simp
  from those_map [where R = "reads strtod (k + 1)" and g = tree_of and xs = items and f = "json_serialize_to_buffer_r opts (level + 1)"]
    "1.IH" [of _ "k + 1"] "1.prems" obtain ps where
    "those (map (json_serialize_to_buffer_r opts (level + 1)) items) = Some ps" "list_all2 (reads strtod (k + 1)) ps (map tree_of items)"
    by fastforce
  with array_reads [OF this(2) k] show ?case by simp
next
  case (2 opts level ob)
  have k: "k \<le> MAX_NESTING" using nested_within_pos [OF "2.prems"(2)] by simp
  have inv: "object_inv ob" using "2.prems"(1) by simp
  from those_map [where R = "reads strtod (k + 1)" and g = tree_of and xs = "vals ob" and f = "json_serialize_to_buffer_r opts (level + 1)"]
    "2.IH" [of _ "k + 1"] "2.prems" obtain ps where
    ps: "those (map (json_serialize_to_buffer_r opts (level + 1)) (vals ob)) = Some ps" "list_all2 (reads strtod (k + 1)) ps (map tree_of (vals ob))"
    by fastforce
  have "length (names ob) = length ps" using list_all2_lengthD [OF ps(2)] object_invD(4) [OF inv] by simp
  from object_reads [OF ps(2) k this object_invD(7) [OF inv]] object_invD(8) [OF inv] ps(1) show ?case by simp
qed (use leaf_reads nested_within_pos in \<open>fastforce simp: less_Suc_eq_le\<close>)+

section \<open>Properties\<close>

text \<open>Numbers printed as decimal digits, for the sample values.\<close>

definition digits_options :: output_options where
  "digits_options = \<lparr>escape_slashes = True, is_pretty = True,
     number_text = \<lambda>r. if r = 7 then Some ''7'' else if r = 10050 then Some ''10050'' else None\<rparr>"

definition sample_value :: json_value where
  "sample_value = Object (object_of [(''uid'', Number 10050), (''a/b'', Array [Number 7, Null, String [CHR 0x01, quote]])])"

text \<open>
  C38: Printing and parsing is a round trip. For every well-formed value that is not nested deeper than the parser
  allows, compact or indented, with strings of arbitrary bytes, the serialiser gives a text, and the parser reads it back as a value with the
  same names and values in the same order. The one thing relied on is that \<^verbatim>\<open>strtod\<close> reads the printed numbers.
\<close>

theorem print_parse_round_trip:
  assumes "value_wf v" "nested_within 2049 v" "numbers_read strtod opts v"
  shows "\<exists>s v'. json_serialize_to_string opts v = Some (s @ [NUL]) \<and> json_parse_string strtod (Some s) = Some v' \<and>
    value_wf v' \<and> tree_of v' = tree_of v"
proof -
  from serialize_reads [of v 0 strtod opts 0] assms obtain s where
    s: "json_serialize_to_buffer_r opts 0 v = Some s" "reads strtod 0 s (tree_of v)" by (auto simp: MAX_NESTING_def)
  have start: "value_start (peek s)" "s \<noteq> []" using reads_start [OF s(2)] by auto
  then have bom: "take 3 s \<noteq> [CHR 0xEF, CHR 0xBB, CHR 0xBF]" using value_start_simps(5) by (cases s) auto
  have d: "delimits []" by (simp add: delimits_def)
  from readsD [OF s(2) d, of "call_bound s"] obtain v' where
    v': "parse_value strtod (call_bound s) 0 s = Parsed v' []" "tree_of v' = tree_of v" by (auto simp: call_bound_def)
  have "value_wf v'" using parse_value_wf [OF v'(1)] by simp
  moreover have "json_parse_string strtod (Some s) = Some v'" using bom v'(1) by (simp add: json_parse_string_def parsed_value_def)
  moreover have "json_serialize_to_string opts v = Some (s @ [NUL])"
    by (simp add: json_serialize_to_string_def json_serialize_to_buffer_def json_serialization_size_def s(1) Let_def)
  ultimately show ?thesis using v'(2) by blast
qed

lemma object_of_parts:
  assumes "list_all (\<lambda>k. NUL \<notin> set k) (map fst kvs)" "distinct (map fst kvs)"
  shows "object_inv (object_of kvs)" "names (object_of kvs) = map fst kvs" "vals (object_of kvs) = map snd kvs"
proof -
  have ok: "\<forall>k \<in> fst ` set kvs. NUL \<notin> set k" using assms(1) by (simp add: list_all_iff)
  have o: "object_inv (object_of kvs)" "object_entries (object_of kvs) = kvs"
    using json_ob.add_list_map [OF ok] assms(2)
    by (cases "add_list (json_object_add 1) json_object_make kvs", auto simp: object_of_def)+
  show "object_inv (object_of kvs)" by (rule o)
  show "names (object_of kvs) = map fst kvs" "vals (object_of kvs) = map snd kvs"
    using object_invD(4) [OF o(1)] o(2) by (metis object_entries_def map_fst_zip, metis object_entries_def map_snd_zip)
qed

lemma sample_object:
  defines "ob \<equiv> object_of [(''uid'', Number 10050), (''a/b'', Array [Number 7, Null, String [CHR 0x01, quote]])]"
  shows "object_inv ob" "names ob = [''uid'', ''a/b'']" "vals ob = [Number 10050, Array [Number 7, Null, String [CHR 0x01, quote]]]"
  unfolding ob_def by (subst object_of_parts; simp add: NUL_def)+

lemma digits_strtod_reads:
  assumes "list_all (\<lambda>c. 0x30 \<le> (of_char c :: nat) \<and> (of_char c :: nat) \<le> 0x39) t" "delimits rest"
  shows "digits_strtod (t @ rest) = digits_strtod t"
proof -
  have "takeWhile (\<lambda>c. 0x30 \<le> (of_char c :: nat) \<and> (of_char c :: nat) \<le> 0x39) rest = []"
    using assms(2) by (cases rest) (auto simp: delimits_def NUL_def)
  then have "takeWhile (\<lambda>c. 0x30 \<le> (of_char c :: nat) \<and> (of_char c :: nat) \<le> 0x39) (t @ rest) =
      takeWhile (\<lambda>c. 0x30 \<le> (of_char c :: nat) \<and> (of_char c :: nat) \<le> 0x39) t"
    using assms(1) by (induction t) auto
  then show ?thesis by (simp only: digits_strtod_def)
qed

lemma sample_numbers: "number_reads digits_strtod digits_options 7" "number_reads digits_strtod digits_options 10050"
proof -
  have s: "digits_strtod ''7'' = \<lparr>sd_number = Finite 7, sd_end = 1, sd_errno = No_Error\<rparr>"
    "digits_strtod ''10050'' = \<lparr>sd_number = Finite 10050, sd_end = 5, sd_errno = No_Error\<rparr>"
    by (simp_all add: digits_strtod_def)
  show "number_reads digits_strtod digits_options 7" "number_reads digits_strtod digits_options 10050"
    using digits_strtod_reads [of "''7''"] digits_strtod_reads [of "''10050''"]
    by (simp_all add: number_reads_def digits_options_def is_number_start_def is_decimal_def s)
qed

theorem print_parse_round_trip_witness:
  "\<exists>s v'. json_serialize_to_string digits_options sample_value = Some (s @ [NUL]) \<and>
     json_parse_string digits_strtod (Some s) = Some v' \<and>
     tree_of v' = Tree_Object [(''uid'', Tree_Number 10050), (''a/b'', Tree_Array [Tree_Number 7, Tree_Null, Tree_String [CHR 0x01, quote]])]"
proof -
  have "value_wf sample_value" "nested_within 2049 sample_value" "numbers_read digits_strtod digits_options sample_value"
    by (simp_all add: sample_value_def sample_object sample_numbers)
  moreover have "tree_of sample_value =
      Tree_Object [(''uid'', Tree_Number 10050), (''a/b'', Tree_Array [Tree_Number 7, Tree_Null, Tree_String [CHR 0x01, quote]])]"
    by (simp add: sample_value_def sample_object)
  ultimately show ?thesis using print_parse_round_trip [of sample_value digits_strtod digits_options] by metis
qed

end
